(* ===== verification/Eloq_Prelude.thy ===== *)
theory Eloq_Prelude
  imports Main "HOL-Library.Word" "HOL-Library.List_Lexorder"
begin

text \<open>
  Shared vocabulary of the development: machine integers and byte strings, the error codes and
  the result type every fallible operation returns, big- and little-endian integer codecs, the
  codec interface the wire formats implement, and ordered association lists standing for
  \<open>std::map\<close>.

  A \<open>Status\<close> or an exception of the source is an \<open>error_code\<close>; the message that goes with
  it is not modelled. \<open>InvariantFailure\<close> is a failed \<open>invariant\<close>, \<open>verify\<close> or
  \<open>MONGO_UNREACHABLE\<close>, which end the process, and \<open>UndefinedBehaviour\<close> an access the language
  leaves undefined (a read past a buffer). Native byte order is little-endian, that of
  every platform the program is built for.
\<close>

unbundle bit_operations_syntax

type_synonym u8 = "8 word"
type_synonym u16 = "16 word"
type_synonym u32 = "32 word"
type_synonym u64 = "64 word"
type_synonym bytes = "u8 list"

datatype error_code =
    BadValue
  | FailedToParse
  | InvalidOptions
  | InvalidNamespace
  | CommandNotSupported
  | ChangeStreamHistoryLost
  | ChangeStreamFatalError
  | InternalError
  | WriteConflict
  | InterruptedDueToReplStateChange
  | ExceededTimeLimit
  | KeyTooLong
  | Overflow
  | UnsupportedFormat
  | InvalidBSON
  | BSONObjectTooLarge
  | DuplicateKey
  | NamespaceNotFound
  | InvalidResumeToken
  | ChangeStreamStartNotReady
  | QueryFeatureNotAllowed
  | CloseChangeStream
  | Location nat
  | InvariantFailure
  | UndefinedBehaviour

type_synonym 'a result = "error_code + 'a"

named_theorems codec_simps \<open>rewrite rules that run a reader over what a writer wrote\<close>
named_theorems result_splits \<open>elimination rules for a successful bind\<close>

section \<open>Results\<close>

definition rbind :: "'a result \<Rightarrow> ('a \<Rightarrow> 'b result) \<Rightarrow> 'b result" where
  "rbind m f = (case m of Inl e \<Rightarrow> Inl e | Inr x \<Rightarrow> f x)"

definition rguard :: "bool \<Rightarrow> error_code \<Rightarrow> unit result" where
  "rguard b e = (if b then Inr () else Inl e)"

primrec rmap :: "('a \<Rightarrow> 'b result) \<Rightarrow> 'a list \<Rightarrow> 'b list result" where
  "rmap f [] = Inr []"
| "rmap f (x # xs) = rbind (f x) (\<lambda>y. rbind (rmap f xs) (\<lambda>ys. Inr (y # ys)))"

text \<open>A byte string written as a character literal in the source.\<close>

definition bstr :: "string \<Rightarrow> bytes" where
  "bstr s = map of_char s"

text \<open>\<open>std::string_view::compare\<close>, up to sign: bytes compare unsigned, a proper prefix is less.\<close>

definition sv_compare :: "bytes \<Rightarrow> bytes \<Rightarrow> int" where
  "sv_compare a b = (if a < b then -1 else if a = b then 0 else 1)"

lemma rbind_Inl [simp]: "rbind (Inl e) f = Inl e"
  by (simp add: rbind_def)

lemma rbind_Inr [simp]: "rbind (Inr x) f = f x"
  by (simp add: rbind_def)

lemma rbind_eq_Inr [simp]: "rbind m f = Inr y \<longleftrightarrow> (\<exists>x. m = Inr x \<and> f x = Inr y)"
  by (cases m) simp_all

lemma rbind_eq_Inl: "rbind m f = Inl e \<longleftrightarrow> m = Inl e \<or> (\<exists>x. m = Inr x \<and> f x = Inl e)"
  by (cases m) simp_all

lemma rbind_cong [fundef_cong]:
  "m = m' \<Longrightarrow> (\<And>x. m' = Inr x \<Longrightarrow> f x = f' x) \<Longrightarrow> rbind m f = rbind m' f'"
  by (cases m') simp_all

lemma rbind_assoc: "rbind (rbind m f) g = rbind m (\<lambda>x. rbind (f x) g)"
  by (cases m) simp_all

lemma rguard_eq_Inr [simp]: "rguard b e = Inr u \<longleftrightarrow> b"
  by (simp add: rguard_def)

lemma rguard_True [simp]: "rguard True e = Inr ()"
  by (simp add: rguard_def)

lemma rguard_False [simp]: "rguard False e = Inl e"
  by (simp add: rguard_def)

lemma rmap_append: "rmap f (xs @ ys) = rbind (rmap f xs) (\<lambda>as. rbind (rmap f ys) (\<lambda>bs. Inr (as @ bs)))"
  by (induction xs) (auto simp: rbind_def split: sum.splits)

lemma length_rmap: "rmap f xs = Inr ys \<Longrightarrow> length ys = length xs"
  by (induction xs arbitrary: ys) auto

lemma not_Inl_iff: "(\<forall>e. m \<noteq> Inl e) \<longleftrightarrow> (\<exists>x. m = Inr x)"
  by (cases m) auto

lemma length_bstr [simp]: "length (bstr s) = length s"
  by (simp add: bstr_def)

section \<open>Integers as bytes\<close>

primrec be_bytes_n :: "nat \<Rightarrow> 'a::len word \<Rightarrow> bytes" where
  "be_bytes_n 0 w = []"
| "be_bytes_n (Suc n) w = ucast (drop_bit (8 * n) w) # be_bytes_n n w"

definition be_bytes :: "'a::len word \<Rightarrow> bytes" where
  "be_bytes w = be_bytes_n (LENGTH('a) div 8) w"

definition be_word :: "bytes \<Rightarrow> 'a::len word" where
  "be_word bs = foldl (\<lambda>acc b. push_bit 8 acc OR ucast b) 0 bs"

definition le_bytes :: "'a::len word \<Rightarrow> bytes" where
  "le_bytes w = rev (be_bytes w)"

definition le_word :: "bytes \<Rightarrow> 'a::len word" where
  "le_word bs = be_word (rev bs)"

lemma length_be_bytes_n [simp]: "length (be_bytes_n n w) = n"
  by (induction n) simp_all

lemma be_bytes_n_numeral [simp]:
  "be_bytes_n (numeral k) w = ucast (drop_bit (8 * pred_numeral k) w) # be_bytes_n (pred_numeral k) w"
  by (simp add: numeral_eq_Suc)

lemma length_be_bytes [simp]: "length (be_bytes (w :: 'a::len word)) = LENGTH('a) div 8"
  by (simp add: be_bytes_def)

lemma length_le_bytes [simp]: "length (le_bytes (w :: 'a::len word)) = LENGTH('a) div 8"
  by (simp add: le_bytes_def)

lemma foldl_be_word:
  "foldl (\<lambda>acc b. push_bit 8 acc OR ucast b) (acc :: 'a::len word) bs
     = push_bit (8 * length bs) acc OR be_word bs"
proof (induction bs arbitrary: acc)
  case Nil
  then show ?case by (simp add: be_word_def)
next
  case (Cons b bs)
  have "be_word (b # bs) = push_bit (8 * length bs) (ucast b :: 'a word) OR be_word bs"
    using Cons.IH [of "ucast b"] by (simp add: be_word_def)
  moreover have "foldl (\<lambda>acc b. push_bit 8 acc OR ucast b) acc (b # bs)
      = push_bit (8 * length bs) (push_bit 8 acc OR ucast b) OR be_word bs"
    using Cons.IH [of "push_bit 8 acc OR ucast b"] by simp
  ultimately show ?case
    by (simp add: or.assoc add.commute)
qed

lemma be_word_Nil [simp]: "be_word [] = 0"
  by (simp add: be_word_def)

lemma be_word_Cons:
  "be_word (b # bs) = push_bit (8 * length bs) (ucast b :: 'a::len word) OR be_word bs"
  using foldl_be_word [of "ucast b" bs] by (simp add: be_word_def)

lemma be_word_be_bytes_n:
  "be_word (be_bytes_n n w) = take_bit (8 * n) (w :: 'a::len word)"
proof (induction n)
  case 0
  then show ?case by simp
next
  case (Suc n)
  show ?case
    by (rule bit_word_eqI) (auto simp: be_word_Cons Suc.IH bit_simps)
qed

lemma bit_be_word_high: "8 * length bs \<le> i \<Longrightarrow> \<not> bit (be_word bs :: 'a::len word) i"
proof (induction bs)
  case (Cons b bs)
  have "\<not> bit b (i - 8 * length bs)"
    using Cons.prems bit_imp_le_length [of b "i - 8 * length bs"] by fastforce
  then show ?case
    using Cons by (auto simp: be_word_Cons bit_simps)
qed simp

lemma be_bytes_n_cong:
  assumes "\<And>i. i < 8 * n \<Longrightarrow> bit v i = bit (w :: 'a::len word) i"
  shows "be_bytes_n n v = be_bytes_n n w"
  using assms
proof (induction n)
  case (Suc n)
  have "ucast (drop_bit (8 * n) v) = (ucast (drop_bit (8 * n) w) :: u8)"
    by (rule bit_word_eqI) (simp add: bit_simps Suc.prems)
  with Suc show ?case by simp
qed simp

lemma be_bytes_n_be_word:
  assumes "8 * length bs \<le> LENGTH('a::len)"
  shows "be_bytes_n (length bs) (be_word bs :: 'a word) = bs"
  using assms
proof (induction bs)
  case (Cons b bs)
  have "be_bytes_n (length bs) (be_word (b # bs) :: 'a word)
      = be_bytes_n (length bs) (be_word bs :: 'a word)"
    by (rule be_bytes_n_cong) (auto simp: be_word_Cons bit_simps)
  moreover have "ucast (drop_bit (8 * length bs) (be_word (b # bs) :: 'a word)) = b"
    by (rule bit_word_eqI)
      (use Cons.prems in \<open>auto simp: be_word_Cons bit_simps bit_be_word_high\<close>)
  ultimately show ?case using Cons by simp
qed simp

lemma be_word_be_bytes [simp]:
  "8 dvd LENGTH('a) \<Longrightarrow> be_word (be_bytes w) = (w :: 'a::len word)"
  by (simp add: be_bytes_def be_word_be_bytes_n)

lemma be_bytes_be_word:
  "8 dvd LENGTH('a) \<Longrightarrow> length bs = LENGTH('a) div 8 \<Longrightarrow> be_bytes (be_word bs :: 'a::len word) = bs"
  using be_bytes_n_be_word [of bs, where 'a = 'a] by (simp add: be_bytes_def)

lemma le_word_le_bytes [simp]:
  "8 dvd LENGTH('a) \<Longrightarrow> le_word (le_bytes w) = (w :: 'a::len word)"
  by (simp add: le_word_def le_bytes_def)

lemma le_bytes_le_word:
  "8 dvd LENGTH('a) \<Longrightarrow> length bs = LENGTH('a) div 8 \<Longrightarrow> le_bytes (le_word bs :: 'a::len word) = bs"
  by (simp add: le_bytes_def le_word_def be_bytes_be_word)

lemma be_bytes_u8 [simp]: "be_bytes (w :: u8) = [w]"
  by (simp add: be_bytes_def)

lemma le_bytes_u8 [simp]: "le_bytes (w :: u8) = [w]"
  by (simp add: le_bytes_def)

lemma be_bytes_eq_Nil [simp]: "be_bytes (w :: 'a::len word) = [] \<longleftrightarrow> LENGTH('a) < 8"
  using length_be_bytes [of w] by (metis div_eq_0_iff length_0_conv zero_neq_numeral)

lemma be_bytes_inject [simp]:
  "8 dvd LENGTH('a) \<Longrightarrow> be_bytes v = be_bytes w \<longleftrightarrow> v = (w :: 'a::len word)"
  by (metis be_word_be_bytes)

lemma unat_u8_le: "unat (w :: u8) \<le> 255"
  using unsigned_less [of w, where 'a = nat] by simp

lemma unat_u16_le: "unat (w :: u16) \<le> 65535"
  using unsigned_less [of w, where 'a = nat] by simp

lemma unat_succ: "w \<noteq> -1 \<Longrightarrow> unat (w + 1 :: 'a::len word) = Suc (unat w)"
  using unatSuc [of w] by (simp add: add_eq_0_iff add.commute)

lemma less_max_not_max: "Suc (unat w) < 2 ^ LENGTH('a) \<Longrightarrow> w \<noteq> (-1 :: 'a::len word)"
  by (auto simp: unsigned_minus_1_eq_mask mask_eq_exp_minus_1)

lemma succ_pos: "w \<noteq> -1 \<Longrightarrow> 0 < (w + 1 :: 'a::len word)"
  using unat_succ [of w] by (simp add: word_gt_0 word_unat_eq_iff)

section \<open>Readers\<close>

text \<open>
  A reader consumes a prefix of its buffer and returns the value and what is left of the buffer.
  \<open>read_be\<close> and \<open>read_le\<close> are the width-indexed integer reads; the error a short buffer
  gives is the component's own.
\<close>

definition read_be :: "error_code \<Rightarrow> bytes \<Rightarrow> ('a::len word \<times> bytes) result" where
  "read_be err bs = (let n = LENGTH('a) div 8 in
     if length bs < n then Inl err else Inr (be_word (take n bs), drop n bs))"

definition read_le :: "error_code \<Rightarrow> bytes \<Rightarrow> ('a::len word \<times> bytes) result" where
  "read_le err bs = (let n = LENGTH('a) div 8 in
     if length bs < n then Inl err else Inr (le_word (take n bs), drop n bs))"

definition read_exact :: "error_code \<Rightarrow> nat \<Rightarrow> bytes \<Rightarrow> (bytes \<times> bytes) result" where
  "read_exact err n bs = (if length bs < n then Inl err else Inr (take n bs, drop n bs))"

lemma read_be_be_bytes [simp, codec_simps]:
  "8 dvd LENGTH('a) \<Longrightarrow> read_be err (be_bytes w @ rest) = Inr (w :: 'a::len word, rest)"
  by (simp add: read_be_def)

lemma read_be_u8 [simp, codec_simps]: "read_be err (w # rest) = Inr (w :: u8, rest)"
  using read_be_be_bytes [where w = w and err = err and rest = rest] by simp

lemma read_be_sound:
  assumes "8 dvd LENGTH('a)" and "read_be err bs = Inr (w :: 'a::len word, rest)"
  shows "bs = be_bytes w @ rest"
proof -
  have "LENGTH('a) div 8 \<le> length bs"
    and w: "w = be_word (take (LENGTH('a) div 8) bs)"
    and rest: "rest = drop (LENGTH('a) div 8) bs"
    using assms(2) by (auto simp: read_be_def Let_def split: if_splits)
  then have "be_bytes w = take (LENGTH('a) div 8) bs"
    using assms(1) be_bytes_be_word by force
  then show ?thesis using rest by simp
qed

lemma read_be_sounds:
  "read_be err bs = Inr (a :: u8, rest) \<Longrightarrow> bs = a # rest"
  "read_be err bs = Inr (b :: u16, rest) \<Longrightarrow> bs = be_bytes b @ rest"
  "read_be err bs = Inr (c :: u32, rest) \<Longrightarrow> bs = be_bytes c @ rest"
  "read_be err bs = Inr (d :: u64, rest) \<Longrightarrow> bs = be_bytes d @ rest"
  using read_be_sound [of err bs a rest] read_be_sound [of err bs b rest]
    read_be_sound [of err bs c rest] read_be_sound [of err bs d rest] by simp_all

lemma read_le_le_bytes [simp, codec_simps]:
  "8 dvd LENGTH('a) \<Longrightarrow> read_le err (le_bytes w @ rest) = Inr (w :: 'a::len word, rest)"
  by (simp add: read_le_def)

lemma read_le_u8 [simp, codec_simps]: "read_le err (w # rest) = Inr (w :: u8, rest)"
  using read_le_le_bytes [where w = w and err = err and rest = rest] by simp

lemma read_le_sound:
  assumes "8 dvd LENGTH('a)" and "read_le err bs = Inr (w :: 'a::len word, rest)"
  shows "bs = le_bytes w @ rest"
proof -
  have "LENGTH('a) div 8 \<le> length bs"
    and w: "w = le_word (take (LENGTH('a) div 8) bs)"
    and rest: "rest = drop (LENGTH('a) div 8) bs"
    using assms(2) by (auto simp: read_le_def Let_def split: if_splits)
  then have "le_bytes w = take (LENGTH('a) div 8) bs"
    using assms(1) le_bytes_le_word by force
  then show ?thesis using rest by simp
qed

lemma read_le_sounds:
  "read_le err bs = Inr (a :: u8, rest) \<Longrightarrow> bs = a # rest"
  "read_le err bs = Inr (b :: u16, rest) \<Longrightarrow> bs = le_bytes b @ rest"
  "read_le err bs = Inr (c :: u32, rest) \<Longrightarrow> bs = le_bytes c @ rest"
  "read_le err bs = Inr (d :: u64, rest) \<Longrightarrow> bs = le_bytes d @ rest"
  using read_le_sound [of err bs a rest] read_le_sound [of err bs b rest]
    read_le_sound [of err bs c rest] read_le_sound [of err bs d rest] by simp_all

lemma read_exact_append [simp, codec_simps]:
  "n = length xs \<Longrightarrow> read_exact err n (xs @ rest) = Inr (xs, rest)"
  by (simp add: read_exact_def)

lemma read_exact_sound:
  "read_exact err n bs = Inr (xs, rest) \<Longrightarrow> bs = xs @ rest \<and> length xs = n"
  by (auto simp: read_exact_def split: if_splits)

section \<open>The codec interface\<close>

text \<open>
  A wire format: a writer that may refuse a value (a failed \<open>invariant\<close>), a reader of a prefix
  and the values the format can carry. The first law is the round trip, with anything after the
  value left in the buffer; the second that the reader accepts nothing but what the writer
  writes, so that a value has one encoding.
\<close>

locale codec =
  fixes enc :: "'a \<Rightarrow> bytes result"
    and dec :: "bytes \<Rightarrow> ('a \<times> bytes) result"
    and ok :: "'a \<Rightarrow> bool"
  assumes enc_ok: "ok x \<Longrightarrow> \<exists>p. enc x = Inr p"
    and dec_enc: "ok x \<Longrightarrow> enc x = Inr p \<Longrightarrow> dec (p @ rest) = Inr (x, rest)"
    and dec_sound: "dec bs = Inr (x, rest) \<Longrightarrow> ok x \<and> (\<exists>p. enc x = Inr p \<and> bs = p @ rest)"
begin

lemma unique_decoding:
  assumes "ok x" "ok y" "enc x = Inr p" "enc y = Inr q" "p @ r = q @ s"
  shows "x = y \<and> r = s"
  using assms dec_enc [of x p r] dec_enc [of y q s] by simp

lemma enc_inject: "ok x \<Longrightarrow> ok y \<Longrightarrow> enc x = Inr p \<Longrightarrow> enc y = Inr p \<Longrightarrow> x = y"
  using unique_decoding [of x y p p "[]" "[]"] by simp

lemma dec_shrinks: "dec bs = Inr (x, rest) \<Longrightarrow> length rest \<le> length bs"
  using dec_sound by fastforce

end

primrec read_n :: "(bytes \<Rightarrow> ('a \<times> bytes) result) \<Rightarrow> nat \<Rightarrow> bytes \<Rightarrow> ('a list \<times> bytes) result" where
  "read_n dec 0 bs = Inr ([], bs)"
| "read_n dec (Suc n) bs =
     rbind (dec bs) (\<lambda>(x, r). rbind (read_n dec n r) (\<lambda>(xs, r'). Inr (x # xs, r')))"

definition write_all :: "('a \<Rightarrow> bytes result) \<Rightarrow> 'a list \<Rightarrow> bytes result" where
  "write_all enc xs = rbind (rmap enc xs) (\<lambda>ps. Inr (concat ps))"

lemma write_all_Nil [simp]: "write_all enc [] = Inr []"
  by (simp add: write_all_def)

lemma write_all_Cons:
  "write_all enc (x # xs) = rbind (enc x) (\<lambda>p. rbind (write_all enc xs) (\<lambda>q. Inr (p @ q)))"
  by (simp add: write_all_def rbind_assoc)

context codec
begin

lemma counted_enc_ok: "list_all ok xs \<Longrightarrow> \<exists>p. write_all enc xs = Inr p"
proof (induction xs)
  case (Cons x xs)
  then have "\<exists>q. write_all enc xs = Inr q" and "\<exists>p. enc x = Inr p"
    using enc_ok by simp_all
  then show ?case by (auto simp: write_all_Cons)
qed simp

lemma counted_dec_enc:
  "list_all ok xs \<Longrightarrow> write_all enc xs = Inr p \<Longrightarrow> read_n dec (length xs) (p @ rest) = Inr (xs, rest)"
  by (induction xs arbitrary: p) (auto simp: write_all_Cons dec_enc)

lemma counted_dec_sound:
  "read_n dec n bs = Inr (xs, rest) \<Longrightarrow>
     length xs = n \<and> list_all ok xs \<and> (\<exists>p. write_all enc xs = Inr p \<and> bs = p @ rest)"
proof (induction n arbitrary: bs xs)
  case (Suc n)
  then obtain x ys r where "dec bs = Inr (x, r)" "read_n dec n r = Inr (ys, rest)" "xs = x # ys"
    by auto
  with Suc.IH [of r ys] dec_sound [of bs x r] show ?case
    by (auto simp: write_all_Cons)
qed simp

end

text \<open>A counted sequence of values of a format is a format again.\<close>

locale counted_codec = codec enc dec ok
  for enc :: "'a \<Rightarrow> bytes result"
    and dec :: "bytes \<Rightarrow> ('a \<times> bytes) result"
    and ok :: "'a \<Rightarrow> bool"

sublocale counted_codec \<subseteq> counted: codec "write_all enc" "read_n dec n"
  "\<lambda>xs. length xs = n \<and> list_all ok xs" for n
  by unfold_locales (auto simp: counted_enc_ok counted_dec_enc dest: counted_dec_sound)

text \<open>
  A buffer that is nothing but values of a format one after the other, read until it is exhausted.
  A reader of such a buffer is any function with the unfolding of the loop.
\<close>

locale codec_stream = codec enc dec ok
  for enc :: "'a \<Rightarrow> bytes result"
    and dec :: "bytes \<Rightarrow> ('a \<times> bytes) result"
    and ok :: "'a \<Rightarrow> bool" +
  fixes read_all :: "bytes \<Rightarrow> 'a list result"
  assumes read_all_unfold: "read_all r = (if r = [] then Inr [] else
      rbind (dec r) (\<lambda>(x, r'). rbind (read_all r') (\<lambda>xs. Inr (x # xs))))"
    and enc_nonempty: "enc x = Inr p \<Longrightarrow> p \<noteq> []"
begin

lemma read_all_Nil: "read_all [] = Inr []"
  by (subst read_all_unfold) simp

lemma read_all_write: "list_all ok xs \<Longrightarrow> write_all enc xs = Inr p \<Longrightarrow> read_all p = Inr xs"
proof (induction xs arbitrary: p)
  case (Cons x xs)
  then obtain q r where "enc x = Inr q" "write_all enc xs = Inr r" "p = q @ r"
    by (auto simp: write_all_Cons)
  moreover from this Cons have "read_all r = Inr xs" "dec (q @ r) = Inr (x, r)" "q @ r \<noteq> []"
    using dec_enc [of x q r] enc_nonempty [of x q] by simp_all
  ultimately show ?case by (subst read_all_unfold) simp
qed (simp add: read_all_Nil)

lemma write_all_length: "write_all enc xs = Inr p \<Longrightarrow> length xs \<le> length p"
proof (induction xs arbitrary: p)
  case (Cons x xs)
  then obtain q r where q: "enc x = Inr q" "p = q @ r" "length xs \<le> length r"
    by (auto simp: write_all_Cons)
  then show ?case using enc_nonempty [OF q(1)] by (cases q) simp_all
qed simp

lemma read_all_sound: "read_all r = Inr xs \<Longrightarrow> list_all ok xs \<and> write_all enc xs = Inr r"
proof (induction r arbitrary: xs rule: length_induct)
  case (1 r)
  show ?case
  proof (cases "r = []")
    case False
    have "rbind (dec r) (\<lambda>(x, r'). rbind (read_all r') (\<lambda>xs. Inr (x # xs))) = Inr xs"
      using 1(2) False by (subst (asm) read_all_unfold) simp
    then obtain x r' ys where x: "dec r = Inr (x, r')" and ys: "read_all r' = Inr ys" "xs = x # ys"
      by auto
    obtain p where p: "ok x" "enc x = Inr p" "r = p @ r'"
      using dec_sound [OF x] by blast
    then have "length r' < length r" using enc_nonempty [of x p] by simp
    then have "list_all ok ys \<and> write_all enc ys = Inr r'" using 1(1) ys(1) by blast
    then show ?thesis using ys(2) p by (simp add: write_all_Cons)
  qed (use 1(2) read_all_Nil in auto)
qed

end

interpretation be_u8: codec "\<lambda>w :: u8. Inr (be_bytes w)" "read_be err" "\<lambda>_. True" for err
  by unfold_locales (auto dest: read_be_sound [rotated])

interpretation be_u16: codec "\<lambda>w :: u16. Inr (be_bytes w)" "read_be err" "\<lambda>_. True" for err
  by unfold_locales (auto dest: read_be_sound [rotated])

interpretation be_u32: codec "\<lambda>w :: u32. Inr (be_bytes w)" "read_be err" "\<lambda>_. True" for err
  by unfold_locales (auto dest: read_be_sound [rotated])

interpretation be_u64: codec "\<lambda>w :: u64. Inr (be_bytes w)" "read_be err" "\<lambda>_. True" for err
  by unfold_locales (auto dest: read_be_sound [rotated])

interpretation le_u32: codec "\<lambda>w :: u32. Inr (le_bytes w)" "read_le err" "\<lambda>_. True" for err
  by unfold_locales (auto dest: read_le_sound [rotated])

interpretation le_u64: codec "\<lambda>w :: u64. Inr (le_bytes w)" "read_le err" "\<lambda>_. True" for err
  by unfold_locales (auto dest: read_le_sound [rotated])

section \<open>Ordered maps\<close>

text \<open>
  \<open>std::map\<close>: lookup, insert-or-assign and iteration in key order. The interface says what the
  clients use of it; the implementation is an association list kept sorted by key.
\<close>

locale ordered_map =
  fixes lookup :: "'m \<Rightarrow> 'k::linorder \<Rightarrow> 'v option"
    and put :: "'k \<Rightarrow> 'v \<Rightarrow> 'm \<Rightarrow> 'm"
    and keys :: "'m \<Rightarrow> 'k list"
    and inv :: "'m \<Rightarrow> bool"
  assumes lookup_put: "lookup (put k v m) k' = (if k' = k then Some v else lookup m k')"
    and inv_put: "inv m \<Longrightarrow> inv (put k v m)"
    and keys_sorted: "inv m \<Longrightarrow> sorted_wrt (<) (keys m)"
    and keys_lookup: "k \<in> set (keys m) \<longleftrightarrow> lookup m k \<noteq> None"
begin

lemma put_put_lookup: "lookup (put k v (put k w m)) = lookup (put k v m)"
  by (rule ext) (simp add: lookup_put)

lemma put_swap_lookup: "k \<noteq> k' \<Longrightarrow> lookup (put k v (put k' w m)) = lookup (put k' w (put k v m))"
  by (rule ext) (simp add: lookup_put)

lemma keys_put: "set (keys (put k v m)) = insert k (set (keys m))"
  by (auto simp: keys_lookup lookup_put split: if_splits)

lemma keys_distinct: "inv m \<Longrightarrow> distinct (keys m)"
  using keys_sorted strict_sorted_iff by blast

end

fun om_put :: "'k::linorder \<Rightarrow> 'v \<Rightarrow> ('k \<times> 'v) list \<Rightarrow> ('k \<times> 'v) list" where
  "om_put k v [] = [(k, v)]"
| "om_put k v ((k', v') # m) =
     (if k < k' then (k, v) # (k', v') # m
      else if k = k' then (k, v) # m
      else (k', v') # om_put k v m)"

definition om_keys :: "('k::linorder \<times> 'v) list \<Rightarrow> 'k list" where
  "om_keys m = map fst m"

definition om_inv :: "('k::linorder \<times> 'v) list \<Rightarrow> bool" where
  "om_inv m \<longleftrightarrow> sorted_wrt (<) (map fst m)"

lemma map_of_om_put [simp]: "map_of (om_put k v m) = (map_of m)(k \<mapsto> v)"
  by (induction k v m rule: om_put.induct) auto

lemma set_keys_om_put: "fst ` set (om_put k v m) = insert k (fst ` set m)"
  by (induction k v m rule: om_put.induct) auto

lemma om_inv_om_put: "om_inv m \<Longrightarrow> om_inv (om_put k v m)"
  by (induction k v m rule: om_put.induct) (auto simp: om_inv_def set_keys_om_put)

interpretation std_map: ordered_map map_of om_put om_keys om_inv
proof unfold_locales
  fix m :: "('k::linorder \<times> 'v) list" and k
  show "k \<in> set (om_keys m) \<longleftrightarrow> map_of m k \<noteq> None"
    by (simp add: om_keys_def map_of_eq_None_iff)
qed (auto simp: om_inv_om_put, auto simp: om_inv_def om_keys_def)

lemma map_of_om_inv: "om_inv m \<Longrightarrow> (k, v) \<in> set m \<Longrightarrow> map_of m k = Some v"
  by (rule map_of_is_SomeI) (auto simp: om_inv_def strict_sorted_iff)

end
