(* ===== verification/Record_Id.thy ===== *)
theory Record_Id
  imports Eloq_Prelude
begin

text \<open>
  \<open>RecordId\<close> (\<open>mongo/db/record_id.h\<close>): the identifier of a record, an integer or, for this
  engine, a binary string kept inline up to 22 bytes and in a shared buffer above. The model keeps
  the representation (format tag, 23-byte inline buffer, shared buffer) and shows that every way of
  building or overwriting an id refines the plain value it stands for, and that comparison is the
  order on those values.
\<close>

section \<open>Representation\<close>

datatype rid_format = RidNull | RidLong | RidSmallStr | RidBigStr

record record_id =
  rid_format :: rid_format
  rid_buffer :: bytes
  rid_shared :: bytes

definition kSmallStrMaxSize :: nat where
  "kSmallStrMaxSize = 22"

definition kBigStrMaxSize :: nat where
  "kBigStrMaxSize = 8 * 1024 * 1024"

definition rid_null :: record_id where
  "rid_null = \<lparr>rid_format = RidNull, rid_buffer = replicate 23 0, rid_shared = []\<rparr>"

text \<open>\<open>std::copy\<close> into the inline buffer at a position; the source keeps it inside the array.\<close>

definition buf_write :: "bytes \<Rightarrow> nat \<Rightarrow> bytes \<Rightarrow> bytes" where
  "buf_write buf pos src = take pos buf @ src @ drop (pos + length src) buf"

definition setValueLong :: "u64 \<Rightarrow> record_id \<Rightarrow> record_id" where
  "setValueLong v r = r\<lparr>rid_format := RidLong, rid_buffer := buf_write (rid_buffer r) 0 (le_bytes v)\<rparr>"

definition setValueStr :: "bytes \<Rightarrow> record_id \<Rightarrow> record_id result" where
  "setValueStr data r =
     (let size = length data in
      rbind (rguard (size > 0) InvariantFailure) (\<lambda>_.
      if size \<le> kSmallStrMaxSize then
        Inr (r\<lparr>rid_format := RidSmallStr,
               rid_buffer := buf_write ((rid_buffer r)[0 := of_nat size]) 1 data\<rparr>)
      else if size \<le> kBigStrMaxSize then
        Inr (r\<lparr>rid_format := RidBigStr, rid_shared := data\<rparr>)
      else Inl InvariantFailure))"

definition RecordId_long :: "u64 \<Rightarrow> record_id" where
  "RecordId_long v = setValueLong v rid_null"

definition RecordId_str :: "bytes \<Rightarrow> record_id result" where
  "RecordId_str data = setValueStr data rid_null"

section \<open>Accessors\<close>

definition getLongNoCheck :: "record_id \<Rightarrow> u64" where
  "getLongNoCheck r = le_word (take 8 (rid_buffer r))"

definition getSmallStrNoCheck :: "record_id \<Rightarrow> bytes result" where
  "getSmallStrNoCheck r =
     (let size = unat (rid_buffer r ! 0) in
      rbind (rguard (size > 0) InvariantFailure) (\<lambda>_.
      rbind (rguard (size \<le> kSmallStrMaxSize) InvariantFailure) (\<lambda>_.
      Inr (take size (drop 1 (rid_buffer r))))))"

definition getBigStrNoCheck :: "record_id \<Rightarrow> bytes result" where
  "getBigStrNoCheck r =
     (let size = length (rid_shared r) in
      rbind (rguard (size > kSmallStrMaxSize) InvariantFailure) (\<lambda>_.
      rbind (rguard (size \<le> kBigStrMaxSize) InvariantFailure) (\<lambda>_.
      Inr (rid_shared r))))"

definition rid_isLong :: "record_id \<Rightarrow> bool" where
  "rid_isLong r \<longleftrightarrow> rid_format r = RidLong"

definition rid_isStr :: "record_id \<Rightarrow> bool" where
  "rid_isStr r \<longleftrightarrow> rid_format r = RidSmallStr \<or> rid_format r = RidBigStr"

definition rid_repr :: "record_id \<Rightarrow> u64" where
  "rid_repr r = (if rid_isLong r then getLongNoCheck r else 0)"

definition rid_isNull :: "record_id \<Rightarrow> bool" where
  "rid_isNull r \<longleftrightarrow> (if rid_format r = RidLong then rid_repr r = 0 else rid_format r = RidNull)"

definition rid_isNormal :: "record_id \<Rightarrow> bool" where
  "rid_isNormal r \<longleftrightarrow> rid_format r \<noteq> RidNull"

definition getLong :: "record_id \<Rightarrow> u64 result" where
  "getLong r = (if rid_format r = RidNull then Inr 0
     else rbind (rguard (rid_isLong r) InvariantFailure) (\<lambda>_. Inr (getLongNoCheck r)))"

definition getStringView :: "record_id \<Rightarrow> bytes result" where
  "getStringView r = rbind (rguard (rid_isStr r) InvariantFailure) (\<lambda>_.
     if rid_format r = RidSmallStr then getSmallStrNoCheck r
     else if rid_format r = RidBigStr then getBigStrNoCheck r
     else Inl InvariantFailure)"

text \<open>\<open>withFormat\<close>, the dispatch on what the id holds.\<close>

definition withFormat ::
  "record_id \<Rightarrow> 'r \<Rightarrow> (u64 \<Rightarrow> 'r) \<Rightarrow> (bytes \<Rightarrow> 'r) \<Rightarrow> 'r result" where
  "withFormat r onNull onLong onStr = (case rid_format r of
       RidNull \<Rightarrow> Inr onNull
     | RidLong \<Rightarrow> Inr (onLong (getLongNoCheck r))
     | RidSmallStr \<Rightarrow> rbind (getSmallStrNoCheck r) (\<lambda>sv. Inr (onStr sv))
     | RidBigStr \<Rightarrow> rbind (getBigStrNoCheck r) (\<lambda>sv. Inr (onStr sv)))"

text \<open>The two standard hash functions are parameters.\<close>

definition rid_hash :: "(u64 \<Rightarrow> u64) \<Rightarrow> (bytes \<Rightarrow> u64) \<Rightarrow> record_id \<Rightarrow> u64 result" where
  "rid_hash hashLong hashStr r = withFormat r 0 hashLong hashStr"

definition rid_compare :: "record_id \<Rightarrow> record_id \<Rightarrow> int result" where
  "rid_compare lhs rhs = (case rid_format lhs of
       RidNull \<Rightarrow> Inr (if rid_format rhs = RidNull then 0 else -1)
     | RidLong \<Rightarrow>
         if rid_format rhs = RidNull then Inr 1
         else rbind (getLong rhs) (\<lambda>v. Inr (if getLongNoCheck lhs = v then 0
                else if sint (getLongNoCheck lhs) > sint v then 1 else -1))
     | RidSmallStr \<Rightarrow>
         if rid_format rhs = RidNull then Inr 1
         else rbind (getSmallStrNoCheck lhs) (\<lambda>a. rbind (getStringView rhs) (\<lambda>b. Inr (sv_compare a b)))
     | RidBigStr \<Rightarrow>
         if rid_format rhs = RidNull then Inr 1
         else rbind (getBigStrNoCheck lhs) (\<lambda>a. rbind (getStringView rhs) (\<lambda>b. Inr (sv_compare a b))))"

section \<open>What an id stands for\<close>

datatype rid_value = VNull | VLong u64 | VStr bytes

text \<open>The representation invariant, and the value an id stands for.\<close>

definition rid_wf :: "record_id \<Rightarrow> bool" where
  "rid_wf r \<longleftrightarrow> length (rid_buffer r) = 23 \<and>
     (rid_format r = RidSmallStr \<longrightarrow> 0 < unat (rid_buffer r ! 0) \<and> unat (rid_buffer r ! 0) \<le> 22) \<and>
     (rid_format r = RidBigStr \<longrightarrow> 22 < length (rid_shared r) \<and> length (rid_shared r) \<le> kBigStrMaxSize)"

definition rid_value_of :: "record_id \<Rightarrow> rid_value" where
  "rid_value_of r = (case rid_format r of
       RidNull \<Rightarrow> VNull
     | RidLong \<Rightarrow> VLong (getLongNoCheck r)
     | RidSmallStr \<Rightarrow> VStr (take (unat (rid_buffer r ! 0)) (drop 1 (rid_buffer r)))
     | RidBigStr \<Rightarrow> VStr (rid_shared r))"

text \<open>The order on values: null first, integers signed, strings as bytes; the two kinds do not mix.\<close>

fun value_compare :: "rid_value \<Rightarrow> rid_value \<Rightarrow> int result" where
  "value_compare VNull VNull = Inr 0"
| "value_compare VNull _ = Inr (-1)"
| "value_compare (VLong a) VNull = Inr 1"
| "value_compare (VLong a) (VLong b) = Inr (sgn (sint a - sint b))"
| "value_compare (VLong a) (VStr b) = Inl InvariantFailure"
| "value_compare (VStr a) VNull = Inr 1"
| "value_compare (VStr a) (VLong b) = Inl InvariantFailure"
| "value_compare (VStr a) (VStr b) = Inr (sv_compare a b)"

lemma length_buf_write:
  "pos + length src \<le> length buf \<Longrightarrow> length (buf_write buf pos src) = length buf"
  by (simp add: buf_write_def)

lemma rid_null_wf: "rid_wf rid_null" "rid_value_of rid_null = VNull"
  by (simp_all add: rid_wf_def rid_null_def rid_value_of_def)

lemma setValueLong_value:
  assumes "rid_wf r"
  shows "rid_wf (setValueLong v r)" "rid_value_of (setValueLong v r) = VLong v"
  using assms
  by (simp_all add: rid_wf_def setValueLong_def rid_value_of_def length_buf_write getLongNoCheck_def
      buf_write_def)

lemma setValueStr_value:
  assumes "rid_wf r" "setValueStr data r = Inr r'"
  shows "rid_wf r' \<and> rid_value_of r' = VStr data"
proof (cases "length data \<le> 22")
  case True
  with assms have r': "r' = r\<lparr>rid_format := RidSmallStr,
               rid_buffer := buf_write ((rid_buffer r)[0 := of_nat (length data)]) 1 data\<rparr>"
    and pos: "0 < length data" and len: "length (rid_buffer r) = 23"
    by (auto simp: setValueStr_def Let_def kSmallStrMaxSize_def rid_wf_def)
  have hd: "rid_buffer r' ! 0 = of_nat (length data)" and tl: "drop 1 (rid_buffer r')
      = data @ drop (1 + length data) (rid_buffer r)"
    using len by (simp_all add: r' buf_write_def nth_append take_update_swap)
  have "length (rid_buffer r') = 23"
    using len True by (simp add: r' length_buf_write)
  moreover have "unat (of_nat (length data) :: u8) = length data"
    using True by (simp add: unat_of_nat)
  ultimately show ?thesis
    using pos True hd tl by (simp add: rid_wf_def rid_value_of_def) (simp add: r')
next
  case False
  with assms show ?thesis
    by (auto simp: setValueStr_def Let_def kSmallStrMaxSize_def rid_wf_def rid_value_of_def
        split: if_splits)
qed

lemma getStringView_value:
  assumes "rid_wf r"
  shows "getStringView r = (case rid_value_of r of VStr s \<Rightarrow> Inr s | _ \<Rightarrow> Inl InvariantFailure)"
  using assms
  by (cases "rid_format r")
    (simp_all add: getStringView_def rid_isStr_def rid_value_of_def getSmallStrNoCheck_def
      getBigStrNoCheck_def rid_wf_def kSmallStrMaxSize_def Let_def)

lemma getLong_value:
  "getLong r = (case rid_value_of r of VNull \<Rightarrow> Inr 0 | VLong v \<Rightarrow> Inr v | VStr s \<Rightarrow> Inl InvariantFailure)"
  by (cases "rid_format r") (simp_all add: getLong_def rid_isLong_def rid_value_of_def)

lemma withFormat_value:
  assumes "rid_wf r"
  shows "withFormat r n l s = Inr (case rid_value_of r of VNull \<Rightarrow> n | VLong v \<Rightarrow> l v | VStr b \<Rightarrow> s b)"
  using assms
  by (cases "rid_format r")
    (simp_all add: withFormat_def rid_value_of_def getSmallStrNoCheck_def getBigStrNoCheck_def
      rid_wf_def kSmallStrMaxSize_def Let_def)

lemma rid_compare_value:
  assumes "rid_wf a" "rid_wf b"
  shows "rid_compare a b = value_compare (rid_value_of a) (rid_value_of b)"
proof -
  have str: "getSmallStrNoCheck a = Inr (take (unat (rid_buffer a ! 0)) (drop 1 (rid_buffer a)))"
    if "rid_format a = RidSmallStr"
    using assms(1) that by (simp add: getSmallStrNoCheck_def rid_wf_def kSmallStrMaxSize_def Let_def)
  have big: "getBigStrNoCheck a = Inr (rid_shared a)" if "rid_format a = RidBigStr"
    using assms(1) that by (simp add: getBigStrNoCheck_def rid_wf_def kSmallStrMaxSize_def Let_def)
  show ?thesis
    by (cases "rid_format a"; cases "rid_format b")
      (simp_all add: rid_compare_def getLong_value getStringView_value [OF assms(2)] str big,
       auto simp: rid_value_of_def sgn_if dest: signed_word_eqI)
qed

lemma value_compare_flip: "value_compare a b = Inr x \<Longrightarrow> value_compare b a = Inr (- x)"
  by (cases a; cases b) (auto simp: sv_compare_def sgn_if)

lemma value_compare_0: "value_compare a b = Inr 0 \<longleftrightarrow> a = b"
  by (cases a; cases b) (auto simp: sv_compare_def sgn_if dest: signed_word_eqI)

lemma value_compare_trans:
  "value_compare a b = Inr x \<Longrightarrow> value_compare b c = Inr y \<Longrightarrow> x \<le> 0 \<Longrightarrow> y \<le> 0 \<Longrightarrow>
     \<exists>z. value_compare a c = Inr z \<and> z \<le> 0 \<and> (z = 0 \<longrightarrow> x = 0 \<and> y = 0)"
  by (cases a; cases b; cases c) (auto simp: sv_compare_def sgn_if split: if_splits)

section \<open>Properties\<close>

text \<open>
  C33: Storing a string id never mixes with what the object held before: whatever well-formed id is
  overwritten, every non-empty key of at most 8 MiB is accepted, the id stays well formed and reads
  back exactly the bytes stored, inline or shared; an empty or larger key ends the process.
\<close>

theorem record_id_string_roundtrip:
  assumes "rid_wf r"
  shows "if 0 < length data \<and> length data \<le> kBigStrMaxSize
    then \<exists>r'. setValueStr data r = Inr r' \<and> rid_wf r' \<and> getStringView r' = Inr data \<and>
              rid_isNormal r' \<and> \<not> rid_isNull r'
    else setValueStr data r = Inl InvariantFailure"
proof (cases "0 < length data \<and> length data \<le> kBigStrMaxSize")
  case True
  then have "\<exists>r'. setValueStr data r = Inr r'"
    by (simp add: setValueStr_def Let_def)
  then obtain r' where r': "setValueStr data r = Inr r'" by blast
  moreover have "rid_wf r'" "rid_value_of r' = VStr data"
    using setValueStr_value [OF assms r'] by simp_all
  moreover from this have "rid_isNormal r' \<and> \<not> rid_isNull r'"
    by (cases "rid_format r'") (simp_all add: rid_value_of_def rid_isNormal_def rid_isNull_def)
  ultimately show ?thesis using True by (simp add: getStringView_value)
next
  case False
  then show ?thesis
    by (auto simp: setValueStr_def Let_def kBigStrMaxSize_def kSmallStrMaxSize_def rguard_def)
qed

theorem record_id_string_roundtrip_witness:
  "rid_wf (RecordId_long 5) \<and> (\<exists>r'. setValueStr [1, 2, 3] (RecordId_long 5) = Inr r' \<and> rid_wf r' \<and>
     getStringView r' = Inr [1, 2, 3] \<and> rid_isNormal r' \<and> \<not> rid_isNull r')"
proof -
  have "rid_wf (RecordId_long 5)"
    by (simp add: RecordId_long_def setValueLong_value rid_null_wf)
  then show ?thesis
    using record_id_string_roundtrip [of "RecordId_long 5" "[1, 2, 3]"]
    by (simp add: kBigStrMaxSize_def)
qed


definition sample_rid :: "bytes \<Rightarrow> record_id" where
  "sample_rid d = (case RecordId_str d of Inr r \<Rightarrow> r | Inl _ \<Rightarrow> rid_null)"

lemma sample_rid_wf: "rid_wf (sample_rid d)"
  using setValueStr_value [OF rid_null_wf(1), of d]
  by (auto simp: sample_rid_def RecordId_str_def rid_null_wf split: sum.splits)

lemma sample_rid_value: "0 < length d \<Longrightarrow> length d \<le> 22 \<Longrightarrow> rid_value_of (sample_rid d) = VStr d"
  using setValueStr_value [OF rid_null_wf(1), of d]
  by (simp add: sample_rid_def RecordId_str_def setValueStr_def Let_def kSmallStrMaxSize_def)


end
