(* ===== verification/Eloq_Key_Record.thy ===== *)
theory Eloq_Key_Record
  imports Record_Id
begin

text \<open>
  \<open>MongoKey\<close> and \<open>MongoRecord\<close> (\<open>base/eloq_key.h\<close>, \<open>base/eloq_record.h\<close> and their \<open>.cpp\<close>), the key
  and the value every table of the engine is made of: the order on keys with its two sentinels, and
  the serialized forms that go to the log, to other nodes and to storage. The two infinities are
  singleton objects the source recognises by address, here constructors of their own; everything
  else is its packed bytes.
\<close>

section \<open>Keys\<close>

datatype mongo_key = NegativeInfinity | PositiveInfinity | PackedKey bytes

definition packed_key :: "mongo_key \<Rightarrow> bytes" where
  "packed_key k = (case k of PackedKey bs \<Rightarrow> bs | _ \<Rightarrow> [])"

definition key_eq :: "mongo_key \<Rightarrow> mongo_key \<Rightarrow> bool" where
  "key_eq lhs rhs =
     (if lhs = NegativeInfinity \<or> lhs = PositiveInfinity \<or> rhs = NegativeInfinity \<or> rhs = PositiveInfinity
      then lhs = rhs else packed_key lhs = packed_key rhs)"

definition key_less :: "mongo_key \<Rightarrow> mongo_key \<Rightarrow> bool" where
  "key_less lhs rhs =
     (if lhs = NegativeInfinity then rhs \<noteq> NegativeInfinity
      else if lhs = PositiveInfinity \<or> rhs = NegativeInfinity then False
      else if rhs = PositiveInfinity then lhs \<noteq> PositiveInfinity
      else packed_key lhs < packed_key rhs)"

definition key_less_eq :: "mongo_key \<Rightarrow> mongo_key \<Rightarrow> bool" where
  "key_less_eq lhs rhs \<longleftrightarrow> \<not> key_less rhs lhs"

instantiation mongo_key :: linorder
begin

definition less_mongo_key :: "mongo_key \<Rightarrow> mongo_key \<Rightarrow> bool" where
  "less_mongo_key = key_less"

definition less_eq_mongo_key :: "mongo_key \<Rightarrow> mongo_key \<Rightarrow> bool" where
  "less_eq_mongo_key = key_less_eq"

instance
  by standard
    (auto simp: less_mongo_key_def less_eq_mongo_key_def key_less_eq_def key_less_def packed_key_def
      split: mongo_key.splits if_splits)

end

definition PackedNegativeInfinity :: mongo_key where
  "PackedNegativeInfinity = PackedKey [0]"

text \<open>\<open>KeyString::TypeBits::kMaxBytesNeeded\<close> bytes of all ones.\<close>

definition PackedPositiveInfinity :: mongo_key where
  "PackedPositiveInfinity = PackedKey (replicate 127 255)"

datatype key_type = NegativeInf | PositiveInf | Normal

definition key_Type :: "mongo_key \<Rightarrow> key_type" where
  "key_Type k = (if k = NegativeInfinity then NegativeInf
     else if k = PositiveInfinity then PositiveInf else Normal)"

definition CloneTxKey :: "mongo_key \<Rightarrow> mongo_key" where
  "CloneTxKey k = (if k = NegativeInfinity then NegativeInfinity
     else if k = PositiveInfinity then PositiveInfinity else PackedKey (packed_key k))"

text \<open>The position in an interval, in halves: 0, 1/2 or 1.\<close>

definition PosInInterval :: "mongo_key \<Rightarrow> mongo_key \<Rightarrow> mongo_key \<Rightarrow> nat" where
  "PosInInterval k min_key max_key =
     (if key_less_eq k min_key then 0 else if key_less_eq max_key k then 2 else 1)"

section \<open>Serialized keys\<close>

text \<open>\<open>std::vector<char>::resize\<close> and a \<open>std::copy\<close> into the vector.\<close>

definition vec_resize :: "nat \<Rightarrow> bytes \<Rightarrow> bytes" where
  "vec_resize n buf = take n buf @ replicate (n - length buf) 0"

definition key_Serialize_vec :: "mongo_key \<Rightarrow> bytes \<Rightarrow> nat \<Rightarrow> bytes \<times> nat" where
  "key_Serialize_vec k buf offset =
     (let buf1 = vec_resize (offset + 2 + length (packed_key k)) buf;
          len = (of_nat (length (packed_key k)) :: u16);
          buf2 = buf_write buf1 offset (le_bytes len);
          offset2 = offset + 2;
          buf3 = buf_write buf2 offset2 (packed_key k)
      in (buf3, offset2 + unat len))"

definition key_Serialize :: "mongo_key \<Rightarrow> bytes" where
  "key_Serialize k =
     (let len = (of_nat (length (packed_key k)) :: u16)
      in le_bytes len @ take (unat len) (packed_key k))"

definition key_SerializedLength :: "mongo_key \<Rightarrow> nat" where
  "key_SerializedLength k = 2 + length (packed_key k)"

text \<open>The reader trusts its input; a read past the buffer is undefined.\<close>

definition key_Deserialize :: "bytes \<Rightarrow> nat \<Rightarrow> (mongo_key \<times> nat) result" where
  "key_Deserialize buf offset =
     rbind (read_le UndefinedBehaviour (drop offset buf)) (\<lambda>(len :: u16, r).
     rbind (read_exact UndefinedBehaviour (unat len) r) (\<lambda>(k, _).
     Inr (PackedKey k, offset + 2 + unat len)))"

section \<open>Record ids\<close>

definition key_of_rid :: "record_id \<Rightarrow> mongo_key result" where
  "key_of_rid rid = (if rid_isLong rid then
       rbind (getLong rid) (\<lambda>v. Inr (PackedKey (be_bytes v)))
     else rbind (getStringView rid) (\<lambda>s. Inr (PackedKey s)))"

definition key_ToRecordId :: "bool \<Rightarrow> mongo_key \<Rightarrow> record_id result" where
  "key_ToRecordId is_long k = (if is_long then
       rbind (rguard (length (packed_key k) = 8) InvariantFailure) (\<lambda>_.
       Inr (RecordId_long (be_word (packed_key k))))
     else RecordId_str (packed_key k))"

definition key_SetPackedKey :: "record_id \<Rightarrow> mongo_key result" where
  "key_SetPackedKey rid = rbind (rguard (\<not> rid_isLong rid) InvariantFailure) (\<lambda>_.
     rbind (getStringView rid) (\<lambda>s. Inr (PackedKey s)))"

section \<open>Records\<close>

record mongo_record =
  encoded_blob :: bytes
  unpack_info :: bytes

definition record_Length :: "mongo_record \<Rightarrow> nat" where
  "record_Length r = length (encoded_blob r) + length (unpack_info r)"

definition record_Serialize_vec :: "mongo_record \<Rightarrow> bytes \<Rightarrow> nat \<Rightarrow> bytes \<times> nat" where
  "record_Serialize_vec r buf offset =
     (let buf1 = vec_resize (offset + 2 * 8 + length (encoded_blob r) + length (unpack_info r)) buf;
          buf2 = buf_write buf1 offset (le_bytes (of_nat (length (unpack_info r)) :: u64));
          o2 = offset + 8;
          buf3 = buf_write buf2 o2 (unpack_info r);
          o3 = o2 + length (unpack_info r);
          buf4 = buf_write buf3 o3 (le_bytes (of_nat (length (encoded_blob r)) :: u64));
          o4 = o3 + 8;
          buf5 = buf_write buf4 o4 (encoded_blob r)
      in (buf5, o4 + length (encoded_blob r)))"

definition record_Serialize :: "mongo_record \<Rightarrow> bytes" where
  "record_Serialize r =
     le_bytes (of_nat (length (unpack_info r)) :: u64) @ unpack_info r @
     le_bytes (of_nat (length (encoded_blob r)) :: u64) @ encoded_blob r"

definition record_SerializedLength :: "mongo_record \<Rightarrow> nat" where
  "record_SerializedLength r = 8 * 2 + length (unpack_info r) + length (encoded_blob r)"

definition record_Deserialize :: "bytes \<Rightarrow> nat \<Rightarrow> (mongo_record \<times> nat) result" where
  "record_Deserialize buf offset =
     rbind (read_le UndefinedBehaviour (drop offset buf)) (\<lambda>(len1 :: u64, r1).
     rbind (read_exact UndefinedBehaviour (unat len1) r1) (\<lambda>(u, r2).
     rbind (read_le UndefinedBehaviour r2) (\<lambda>(len2 :: u64, r3).
     rbind (read_exact UndefinedBehaviour (unat len2) r3) (\<lambda>(b, r4).
     Inr (\<lparr>encoded_blob = b, unpack_info = u\<rparr>, offset + 8 + unat len1 + 8 + unat len2)))))"

definition record_ToRecordId :: "bool \<Rightarrow> mongo_record \<Rightarrow> record_id result" where
  "record_ToRecordId is_long r = (if is_long then
       rbind (rguard (length (encoded_blob r) = 8) InvariantFailure) (\<lambda>_.
       Inr (RecordId_long (be_word (encoded_blob r))))
     else RecordId_str (encoded_blob r))"

lemma key_eq_iff: "key_eq a b \<longleftrightarrow> a = b"
  by (cases a; cases b) (simp_all add: key_eq_def packed_key_def)

lemma PackedKey_less: "PackedKey a < PackedKey b \<longleftrightarrow> a < b"
  by (simp add: less_mongo_key_def key_less_def packed_key_def)

lemma CloneTxKey_id: "CloneTxKey k = k"
  by (cases k) (simp_all add: CloneTxKey_def packed_key_def)

text \<open>
  Writing a vector at an offset: what is before the offset stays, and the pieces follow. The write
  of \<open>src\<close> at the end of the prefix \<open>pre\<close> replaces as many bytes of what comes next.
\<close>

lemma vec_resize_split:
  "offset \<le> length buf \<Longrightarrow> \<exists>post. vec_resize (offset + n) buf = take offset buf @ post \<and> length post = n"
  by (intro exI [of _ "drop offset (vec_resize (offset + n) buf)"])
    (auto simp: vec_resize_def drop_take min_def take_add)

lemma buf_write_split:
  assumes "pos = length pre" "length src \<le> length post"
  shows "buf_write (pre @ post) pos src = (pre @ src) @ drop (length src) post"
  using assms by (simp add: buf_write_def)

section \<open>Serialized forms\<close>

lemma unat_length_u16: "length xs \<le> 65535 \<Longrightarrow> unat (of_nat (length xs) :: u16) = length xs"
  by (simp add: unat_of_nat)

lemma unat_length_u64: "length xs < 2 ^ 64 \<Longrightarrow> unat (of_nat (length xs) :: u64) = length xs"
  by (simp add: unat_of_nat)

lemma key_Serialize_vec_eq:
  assumes "offset \<le> length buf" "length (packed_key k) \<le> 65535"
  shows "key_Serialize_vec k buf offset = (take offset buf @ key_Serialize k, offset + key_SerializedLength k)"
proof -
  obtain post where post: "vec_resize (offset + (2 + length (packed_key k))) buf = take offset buf @ post"
    "length post = 2 + length (packed_key k)"
    using vec_resize_split [OF assms(1)] by blast
  have "buf_write (take offset buf @ post) offset (le_bytes (of_nat (length (packed_key k)) :: u16))
      = (take offset buf @ le_bytes (of_nat (length (packed_key k)) :: u16)) @ drop 2 post"
    using assms(1) post(2) by (subst buf_write_split) simp_all
  moreover have "buf_write ((take offset buf @ le_bytes (of_nat (length (packed_key k)) :: u16)) @ drop 2 post)
      (offset + 2) (packed_key k) = take offset buf @ key_Serialize k"
    using assms post(2) by (subst buf_write_split)
      (simp_all add: key_Serialize_def Let_def unat_length_u16)
  ultimately show ?thesis
    using assms(2) post(1)
    by (simp add: key_Serialize_vec_def key_SerializedLength_def Let_def unat_length_u16 add.assoc)
qed

lemma record_Serialize_vec_eq:
  assumes "offset \<le> length buf"
  shows "record_Serialize_vec r buf offset
    = (take offset buf @ record_Serialize r, offset + record_SerializedLength r)"
proof -
  let ?u = "unpack_info r" and ?b = "encoded_blob r" and ?p = "take offset buf"
  let ?lu = "le_bytes (of_nat (length ?u) :: u64)" and ?lb = "le_bytes (of_nat (length ?b) :: u64)"
  obtain post where post: "vec_resize (offset + (2 * 8 + length ?b + length ?u)) buf = ?p @ post"
    "length post = 2 * 8 + length ?b + length ?u"
    using vec_resize_split [OF assms] by blast
  have "buf_write (?p @ post) offset ?lu = (?p @ ?lu) @ drop 8 post"
    using assms post(2) by (subst buf_write_split) simp_all
  moreover have "buf_write ((?p @ ?lu) @ drop 8 post) (offset + 8) ?u
      = ((?p @ ?lu) @ ?u) @ drop (length ?u) (drop 8 post)"
    using assms post(2) by (subst buf_write_split) simp_all
  moreover have "buf_write (((?p @ ?lu) @ ?u) @ drop (length ?u) (drop 8 post)) (offset + 8 + length ?u) ?lb
      = (((?p @ ?lu) @ ?u) @ ?lb) @ drop 8 (drop (length ?u) (drop 8 post))"
    using assms post(2) by (subst buf_write_split) simp_all
  moreover have "buf_write ((((?p @ ?lu) @ ?u) @ ?lb) @ drop 8 (drop (length ?u) (drop 8 post)))
      (offset + 8 + length ?u + 8) ?b = ?p @ record_Serialize r"
    using assms post(2) by (subst buf_write_split) (simp_all add: record_Serialize_def)
  ultimately show ?thesis
    using post(1)
    by (simp add: record_Serialize_vec_def record_SerializedLength_def Let_def add.assoc)
qed

lemma key_Deserialize_Serialize:
  assumes "length k \<le> 65535" "offset = length pre"
  shows "key_Deserialize (pre @ key_Serialize (PackedKey k) @ rest) offset
    = Inr (PackedKey k, offset + key_SerializedLength (PackedKey k))"
  using assms
  by (simp add: key_Deserialize_def key_Serialize_def key_SerializedLength_def packed_key_def Let_def
      unat_length_u16)

lemma record_Deserialize_Serialize:
  assumes "length (encoded_blob r) < 2 ^ 64" "length (unpack_info r) < 2 ^ 64" "offset = length pre"
  shows "record_Deserialize (pre @ record_Serialize r @ rest) offset
    = Inr (r, offset + record_SerializedLength r)"
  using assms unat_length_u64 [OF assms(1)] unat_length_u64 [OF assms(2)]
  by (simp add: record_Deserialize_def record_Serialize_def record_SerializedLength_def)

lemma length_key_Serialize:
  "length (packed_key k) \<le> 65535 \<Longrightarrow> length (key_Serialize k) = key_SerializedLength k"
  by (simp add: key_Serialize_def key_SerializedLength_def Let_def unat_length_u16)

lemma length_record_Serialize: "length (record_Serialize r) = record_SerializedLength r"
  by (simp add: record_Serialize_def record_SerializedLength_def)

section \<open>Properties\<close>

text \<open>
  C35: A key followed by its record, serialized into a growing buffer at any offset, leaves what was
  before the offset as it was, writes exactly the bytes of the string form, moves the offset to the
  buffer's end, and both read back at their offsets, for keys up to the 65535 bytes the length field
  can say.
\<close>

theorem key_record_roundtrip:
  assumes "offset \<le> length buf" "length k \<le> 65535"
    and "length (encoded_blob r) < 2 ^ 64" "length (unpack_info r) < 2 ^ 64"
    and "key_Serialize_vec (PackedKey k) buf offset = (buf1, offset1)"
    and "record_Serialize_vec r buf1 offset1 = (buf2, offset2)"
  shows "take offset buf2 = take offset buf \<and> offset2 = length buf2 \<and>
    drop offset buf2 = key_Serialize (PackedKey k) @ record_Serialize r \<and>
    key_Deserialize buf2 offset = Inr (PackedKey k, offset1) \<and>
    record_Deserialize buf2 offset1 = Inr (r, offset2)"
proof -
  let ?pre = "take offset buf" and ?k = "key_Serialize (PackedKey k)"
  have pk: "length (packed_key (PackedKey k)) \<le> 65535"
    using assms(2) by (simp add: packed_key_def)
  have b1: "buf1 = ?pre @ ?k" "offset1 = offset + key_SerializedLength (PackedKey k)"
    using key_Serialize_vec_eq [OF assms(1) pk] assms(5) by simp_all
  have len1: "offset1 = length buf1"
    using assms(1) b1 length_key_Serialize [OF pk] by simp
  have "buf2 = buf1 @ record_Serialize r" and o2: "offset2 = offset1 + record_SerializedLength r"
    using record_Serialize_vec_eq [of offset1 buf1 r] assms(6) len1 by simp_all
  then have b2: "buf2 = (?pre @ ?k) @ record_Serialize r" using b1(1) by simp
  have "key_Deserialize buf2 offset = Inr (PackedKey k, offset1)"
    using key_Deserialize_Serialize [OF assms(2), of offset ?pre] assms(1) b1(2) b2 by simp
  moreover have "record_Deserialize buf2 offset1 = Inr (r, offset2)"
    using record_Deserialize_Serialize [OF assms(3,4) len1, of "[]"] b1(1) b2 o2 by simp
  ultimately show ?thesis
    using assms(1) b1 b2 o2 len1 by (simp add: length_record_Serialize)
qed

theorem key_record_roundtrip_witness:
  "key_Deserialize [9, 2, 0, 5, 6, 1, 0, 0, 0, 0, 0, 0, 0, 8, 2, 0, 0, 0, 0, 0, 0, 0, 3, 4] 1
     = Inr (PackedKey [5, 6], 5) \<and>
   record_Deserialize [9, 2, 0, 5, 6, 1, 0, 0, 0, 0, 0, 0, 0, 8, 2, 0, 0, 0, 0, 0, 0, 0, 3, 4] 5
     = Inr (\<lparr>encoded_blob = [3, 4], unpack_info = [8]\<rparr>, 24)"
proof -
  have k: "key_Serialize_vec (PackedKey [5, 6]) [9] 1 = ([9, 2, 0, 5, 6], 5)"
    by (subst key_Serialize_vec_eq)
      (simp_all add: key_Serialize_def key_SerializedLength_def packed_key_def le_bytes_def be_bytes_def)
  have r: "record_Serialize_vec \<lparr>encoded_blob = [3, 4], unpack_info = [8]\<rparr> [9, 2, 0, 5, 6] 5
      = ([9, 2, 0, 5, 6, 1, 0, 0, 0, 0, 0, 0, 0, 8, 2, 0, 0, 0, 0, 0, 0, 0, 3, 4], 24)"
    by (subst record_Serialize_vec_eq)
      (simp_all add: record_Serialize_def record_SerializedLength_def le_bytes_def be_bytes_def)
  show ?thesis
  proof -
    have "(1 :: nat) \<le> length [9 :: u8]" "length [5, 6 :: u8] \<le> 65535" by simp_all
    from key_record_roundtrip [OF this _ _ k r] show ?thesis by (simp del: One_nat_def)
  qed
qed

text \<open>
  C36: The key order is the linear order the engine relies on: exactly one of less, equal and greater
  holds of any two keys (by the source's own three comparisons), the two infinities are the least and
  the greatest, and every packed key whose first byte is neither 0 nor 255 lies strictly between the
  packed infinities used as scan bounds.
\<close>

theorem key_order:
  "(key_less a b \<and> \<not> key_eq a b \<and> \<not> key_less b a \<or> \<not> key_less a b \<and> key_eq a b \<and> \<not> key_less b a \<or>
      \<not> key_less a b \<and> \<not> key_eq a b \<and> key_less b a) \<and>
   (key_less a b \<and> key_less b d \<longrightarrow> key_less a d) \<and>
   key_less_eq NegativeInfinity a \<and> key_less_eq a PositiveInfinity \<and>
   (0 < c \<and> c < 255 \<longrightarrow> key_less PackedNegativeInfinity (PackedKey (c # cs)) \<and>
      key_less (PackedKey (c # cs)) PackedPositiveInfinity)"
proof -
  have l: "key_less = (<)" "key_less_eq = (\<le>)" "key_eq = (=)"
    by (simp_all add: less_mongo_key_def less_eq_mongo_key_def key_eq_iff fun_eq_iff)
  have "key_less_eq NegativeInfinity a \<and> key_less_eq a PositiveInfinity"
    by (simp add: key_less_eq_def key_less_def)
  moreover have "key_less PackedNegativeInfinity (PackedKey (c # cs)) \<and>
      key_less (PackedKey (c # cs)) PackedPositiveInfinity" if "0 < c" "c < 255"
    using that by (simp add: l PackedKey_less PackedNegativeInfinity_def PackedPositiveInfinity_def
        numeral_eq_Suc)
  ultimately show ?thesis unfolding l by auto
qed

theorem key_order_witness:
  "key_less (PackedKey [30]) (PackedKey [30, 1]) \<and> key_less (PackedKey [30, 1]) PackedPositiveInfinity \<and>
   key_less PackedNegativeInfinity (PackedKey [30, 1]) \<and> \<not> key_less (PackedKey [30, 1]) (PackedKey [30])"
proof -
  have "key_less (PackedKey [30]) (PackedKey [30, 1])"
    by (simp add: key_less_def packed_key_def)
  then show ?thesis
    using key_order [of "PackedKey [30]" "PackedKey [30, 1]" "PackedKey []" 30 "[1]"] by simp
qed

end
