(* ===== verification/Blob_Decoder.thy ===== *)
theory Blob_Decoder
  imports Eloq_Key_Record
begin

text \<open>
  The redo-log blob walk (\<open>base/cdc_blob_decoder.h\<close>, \<open>.cpp\<close>): a blob is a sequence of per-table
  sections, a section a sequence of entries, and the decoder yields the entries of the sections in a
  stream's scope, numbered by the ordinals of section and entry in the blob. A cursor of the source
  (\<open>_blobOffset\<close> into \<open>_blob\<close>, \<open>_entryOffset\<close> into \<open>_sectionEntries\<close>) is kept as the bytes from it
  to the end of its buffer, whose length is the \<open>size() - offset\<close> every read is checked against.
\<close>

section \<open>Scopes\<close>

datatype cdc_operation = OpUpdate | OpDelete | OpInsert | OpUpsert

datatype scope_kind = kDeployment | kDatabase | kCollection

record stream_scope =
  sc_kind :: scope_kind
  sc_target :: bytes

definition scope_deployment :: stream_scope where
  "scope_deployment = \<lparr>sc_kind = kDeployment, sc_target = []\<rparr>"

definition scope_database :: "bytes \<Rightarrow> stream_scope" where
  "scope_database db = \<lparr>sc_kind = kDatabase, sc_target = db\<rparr>"

definition scope_collection :: "bytes \<Rightarrow> stream_scope" where
  "scope_collection ns = \<lparr>sc_kind = kCollection, sc_target = ns\<rparr>"

definition isExcludedDatabase :: "bytes \<Rightarrow> bool" where
  "isExcludedDatabase db \<longleftrightarrow> db = bstr ''local'' \<or> db = bstr ''admin'' \<or> db = bstr ''config''"

text \<open>The part of a namespace before its first dot (byte 46), or all of it.\<close>

definition databaseOf :: "bytes \<Rightarrow> bytes" where
  "databaseOf ns = takeWhile (\<lambda>c. c \<noteq> 46) ns"

definition scope_includes :: "stream_scope \<Rightarrow> bytes \<Rightarrow> bool" where
  "scope_includes scope ns =
     (let db = databaseOf ns in
      if isExcludedDatabase db then False
      else (case sc_kind scope of
          kDeployment \<Rightarrow> True
        | kDatabase \<Rightarrow> db = sc_target scope
        | kCollection \<Rightarrow> ns = sc_target scope))"

definition scope_isCollection :: "stream_scope \<Rightarrow> bytes \<Rightarrow> bool" where
  "scope_isCollection scope ns \<longleftrightarrow> sc_kind scope = kCollection \<and> ns = sc_target scope"

section \<open>Entries\<close>

record blob_entry =
  be_section :: u32
  be_entry :: u32
  be_ns :: bytes
  be_op :: cdc_operation
  be_keyString :: bytes
  be_record :: bytes

definition kTableEngineEloqDoc :: u8 where
  "kTableEngineEloqDoc = 3"

definition kTableTypePrimary :: u8 where
  "kTableTypePrimary = 0"

primrec op_byte :: "cdc_operation \<Rightarrow> u8" where
  "op_byte OpUpdate = 1"
| "op_byte OpDelete = 2"
| "op_byte OpInsert = 3"
| "op_byte OpUpsert = 4"

definition op_of_byte :: "u8 \<Rightarrow> cdc_operation result" where
  "op_of_byte b = (if b \<ge> op_byte OpUpdate \<and> b \<le> op_byte OpUpsert
     then Inr (if b = 1 then OpUpdate else if b = 2 then OpDelete else if b = 3 then OpInsert else OpUpsert)
     else Inl BadValue)"

definition readNative :: "bytes \<Rightarrow> ('a::len word \<times> bytes) result" where
  "readNative r = read_le BadValue r"

definition readBytes :: "nat \<Rightarrow> bytes \<Rightarrow> (bytes \<times> bytes) result" where
  "readBytes len r = read_exact BadValue len r"

definition documentBson :: "blob_entry \<Rightarrow> bytes result" where
  "documentBson e = (if be_record e = [] then Inr [] else
     rbind (readNative (be_record e)) (\<lambda>(unpackLen :: u64, r1).
     rbind (readBytes (unat unpackLen) r1) (\<lambda>(_, r2).
     rbind (readNative r2) (\<lambda>(blobLen :: u64, r3).
     rbind (readBytes (unat blobLen) r3) (\<lambda>(doc, _). Inr doc)))))"

section \<open>The decoder\<close>

record blob_decoder =
  bd_rest :: bytes
  bd_scope :: stream_scope
  bd_sectionRest :: bytes
  bd_sectionNs :: bytes
  bd_currentSection :: u32
  bd_sectionsSeen :: u32
  bd_entryOrdinal :: u32

definition make_decoder :: "bytes \<Rightarrow> stream_scope \<Rightarrow> blob_decoder" where
  "make_decoder blob scope = \<lparr>bd_rest = blob, bd_scope = scope, bd_sectionRest = [], bd_sectionNs = [],
     bd_currentSection = 0, bd_sectionsSeen = 0, bd_entryOrdinal = 0\<rparr>"

text \<open>A section's header and entries, in the order the loop body reads them.\<close>

record blob_section =
  bs_name :: bytes
  bs_engine :: u8
  bs_type :: u8
  bs_entries :: bytes

definition read_section :: "bytes \<Rightarrow> (blob_section \<times> bytes) result" where
  "read_section r =
     rbind (readNative r) (\<lambda>(nameLen :: u8, r1).
     rbind (readBytes (unat nameLen) r1) (\<lambda>(name, r2).
     rbind (readNative r2) (\<lambda>(engine :: u8, r3).
     rbind (readNative r3) (\<lambda>(type :: u8, r4).
     rbind (readNative r4) (\<lambda>(kvLen :: u32, r5).
     rbind (readBytes (unat kvLen) r5) (\<lambda>(entries, r6).
     Inr (\<lparr>bs_name = name, bs_engine = engine, bs_type = type, bs_entries = entries\<rparr>, r6)))))))"

definition section_in_scope :: "stream_scope \<Rightarrow> blob_section \<Rightarrow> bool" where
  "section_in_scope scope s \<longleftrightarrow>
     \<not> (bs_engine s \<noteq> kTableEngineEloqDoc \<or> bs_type s \<noteq> kTableTypePrimary) \<and> scope_includes scope (bs_name s)"

lemma read_section_shrinks:
  assumes "read_section r = Inr (s, r')"
  shows "length r' < length r"
  using assms
  by (auto simp: read_section_def readNative_def readBytes_def dest!: read_le_sounds read_exact_sound)

function advanceToNextInScopeSection :: "blob_decoder \<Rightarrow> blob_decoder result" where
  "advanceToNextInScopeSection d =
     (if bd_rest d \<noteq> [] then
        rbind (read_section (bd_rest d)) (\<lambda>(s, rest).
          let ordinal = bd_sectionsSeen d;
              d1 = d\<lparr>bd_rest := rest, bd_sectionsSeen := bd_sectionsSeen d + 1\<rparr>
          in if \<not> section_in_scope (bd_scope d) s then advanceToNextInScopeSection d1
             else Inr (d1\<lparr>bd_sectionNs := bs_name s, bd_sectionRest := bs_entries s,
                          bd_entryOrdinal := 0, bd_currentSection := ordinal\<rparr>))
      else Inr (d\<lparr>bd_sectionRest := []\<rparr>))"
  by pat_completeness auto

termination advanceToNextInScopeSection
  by (relation "measure (\<lambda>d. length (bd_rest d))") (auto dest: read_section_shrinks)

lemma advance_unfold:
  "bd_rest d \<noteq> [] \<Longrightarrow> advanceToNextInScopeSection d =
     rbind (read_section (bd_rest d)) (\<lambda>(s, rest).
       if section_in_scope (bd_scope d) s
       then Inr (d\<lparr>bd_rest := rest, bd_sectionsSeen := bd_sectionsSeen d + 1, bd_sectionNs := bs_name s,
              bd_sectionRest := bs_entries s, bd_entryOrdinal := 0, bd_currentSection := bd_sectionsSeen d\<rparr>)
       else advanceToNextInScopeSection (d\<lparr>bd_rest := rest, bd_sectionsSeen := bd_sectionsSeen d + 1\<rparr>))"
  "bd_rest d = [] \<Longrightarrow> advanceToNextInScopeSection d = Inr (d\<lparr>bd_sectionRest := []\<rparr>)"
  by (auto simp: advanceToNextInScopeSection.simps [of d] Let_def intro!: rbind_cong)

declare advanceToNextInScopeSection.simps [simp del]

lemma advance_rest_le:
  "advanceToNextInScopeSection d = Inr d' \<Longrightarrow> length (bd_rest d') \<le> length (bd_rest d)"
proof (induction d arbitrary: d' rule: advanceToNextInScopeSection.induct)
  case (1 d)
  show ?case
  proof (cases "bd_rest d = []")
    case True
    then show ?thesis using 1(2) by (auto simp: advance_unfold(2))
  next
    case False
    then obtain s rest where s: "read_section (bd_rest d) = Inr (s, rest)"
      using 1(2) by (auto simp: advance_unfold)
    then show ?thesis
      using 1(1) [OF False s refl refl refl] 1(2) read_section_shrinks [OF s] False
      by (fastforce simp: advance_unfold split: if_splits)
  qed
qed

lemma advance_rest:
  assumes "advanceToNextInScopeSection d = Inr d'" "bd_rest d \<noteq> []"
  shows "length (bd_rest d') < length (bd_rest d)"
  using assms advance_rest_le read_section_shrinks
  by (fastforce simp: advance_unfold split: if_splits)

text \<open>The search loop of \<open>next\<close>: \<open>None\<close> once the blob is exhausted.\<close>

function seek_entry :: "blob_decoder \<Rightarrow> blob_decoder option result" where
  "seek_entry d =
     (if bd_sectionRest d = [] then
        if bd_rest d = [] then Inr None
        else rbind (advanceToNextInScopeSection d) seek_entry
      else Inr (Some d))"
  by pat_completeness auto

termination seek_entry
  by (relation "measure (\<lambda>d. length (bd_rest d))") (auto dest: advance_rest)

declare seek_entry.simps [simp del]

text \<open>One entry's key, operation and record, and the rest of its section.\<close>

definition read_record :: "bytes \<Rightarrow> (bytes \<times> bytes) result" where
  "read_record start =
     rbind (readNative start) (\<lambda>(unpackLen :: u64, r1).
     rbind (readBytes (unat unpackLen) r1) (\<lambda>(_, r2).
     rbind (readNative r2) (\<lambda>(blobLen :: u64, r3).
     rbind (readBytes (unat blobLen) r3) (\<lambda>(_, r4).
     Inr (take (length start - length r4) start, r4)))))"

definition read_entry :: "bytes \<Rightarrow> ((bytes \<times> cdc_operation \<times> bytes) \<times> bytes) result" where
  "read_entry r =
     rbind (readNative r) (\<lambda>(keyLen :: u16, r1).
     rbind (readBytes (unat keyLen) r1) (\<lambda>(key, r2).
     rbind (readNative r2) (\<lambda>(opByte :: u8, r3).
     rbind (op_of_byte opByte) (\<lambda>op.
     if op \<noteq> OpDelete
     then rbind (read_record r3) (\<lambda>(record, r4). Inr ((key, op, record), r4))
     else Inr ((key, op, []), r3)))))"

definition blob_next :: "blob_decoder \<Rightarrow> (blob_entry \<times> blob_decoder) option result" where
  "blob_next d0 = rbind (seek_entry d0) (\<lambda>found. case found of
       None \<Rightarrow> Inr None
     | Some d \<Rightarrow> rbind (read_entry (bd_sectionRest d)) (\<lambda>((key, op, record), rest).
         Inr (Some (\<lparr>be_section = bd_currentSection d, be_entry = bd_entryOrdinal d, be_ns = bd_sectionNs d,
                     be_op = op, be_keyString = key, be_record = record\<rparr>,
                    d\<lparr>bd_sectionRest := rest, bd_entryOrdinal := bd_entryOrdinal d + 1\<rparr>))))"

lemma seek_entry_rest:
  "seek_entry d = Inr (Some d') \<Longrightarrow>
     bd_sectionRest d' \<noteq> [] \<and> (d' = d \<or> length (bd_rest d') < length (bd_rest d))"
proof (induction d rule: seek_entry.induct)
  case (1 d)
  show ?case
  proof (cases "bd_sectionRest d = [] \<and> bd_rest d \<noteq> []")
    case True
    then obtain d1 where d1: "advanceToNextInScopeSection d = Inr d1" "seek_entry d1 = Inr (Some d')"
      using "1.prems" by (auto simp: seek_entry.simps [of d])
    then show ?thesis
      using "1.IH" [OF _ _ d1(1)] True advance_rest [OF d1(1)] by auto
  next
    case False
    then show ?thesis using "1.prems" by (auto simp: seek_entry.simps [of d] split: if_splits)
  qed
qed

lemma read_record_shrinks: "read_record r = Inr (x, r') \<Longrightarrow> length r' \<le> length r"
  by (auto simp: read_record_def readNative_def readBytes_def dest!: read_le_sounds read_exact_sound)

lemma read_entry_shrinks: "read_entry r = Inr (x, r') \<Longrightarrow> length r' < length r"
  by (auto simp: read_entry_def readNative_def readBytes_def split: if_splits
      dest!: read_le_sounds read_exact_sound read_record_shrinks)

lemma blob_next_decreases:
  assumes "blob_next d = Inr (Some (e, d'))"
  shows "(d', d) \<in> measures [\<lambda>d. length (bd_rest d), \<lambda>d. length (bd_sectionRest d)]"
proof -
  obtain d1 x rest where d1: "seek_entry d = Inr (Some d1)"
    and e: "read_entry (bd_sectionRest d1) = Inr (x, rest)"
    and d': "d' = d1\<lparr>bd_sectionRest := rest, bd_entryOrdinal := bd_entryOrdinal d1 + 1\<rparr>"
    using assms by (auto simp: blob_next_def split: option.splits)
  show ?thesis
    using seek_entry_rest [OF d1] read_entry_shrinks [OF e] by (auto simp: d')
qed

text \<open>The whole walk: the entries the decoder yields until it is exhausted.\<close>

function decode_all :: "blob_decoder \<Rightarrow> blob_entry list result" where
  "decode_all d = rbind (blob_next d) (\<lambda>found. case found of
       None \<Rightarrow> Inr []
     | Some (e, d') \<Rightarrow> rbind (decode_all d') (\<lambda>es. Inr (e # es)))"
  by pat_completeness auto

termination decode_all
  by (relation "measures [\<lambda>d. length (bd_rest d), \<lambda>d. length (bd_sectionRest d)]")
    (simp, blast intro: blob_next_decreases)

declare decode_all.simps [simp del]

section \<open>What a blob holds\<close>

text \<open>
  The reference reading of a blob, with no decoder state: its sections in order, each section's
  entries in order, and the numbered entries of the sections in scope.
\<close>

function split_sections :: "bytes \<Rightarrow> blob_section list result" where
  "split_sections r = (if r = [] then Inr [] else
     rbind (read_section r) (\<lambda>(s, r'). rbind (split_sections r') (\<lambda>ss. Inr (s # ss))))"
  by pat_completeness auto

termination split_sections
  by (relation "measure length") (auto dest: read_section_shrinks)

function section_entries :: "bytes \<Rightarrow> (bytes \<times> cdc_operation \<times> bytes) list result" where
  "section_entries r = (if r = [] then Inr [] else
     rbind (read_entry r) (\<lambda>(e, r'). rbind (section_entries r') (\<lambda>es. Inr (e # es))))"
  by pat_completeness auto

termination section_entries
  by (relation "measure length") (auto dest: read_entry_shrinks)

fun number_entries :: "u32 \<Rightarrow> u32 \<Rightarrow> bytes \<Rightarrow> (bytes \<times> cdc_operation \<times> bytes) list \<Rightarrow> blob_entry list" where
  "number_entries sec n ns [] = []"
| "number_entries sec n ns ((key, op, record) # es) =
     \<lparr>be_section = sec, be_entry = n, be_ns = ns, be_op = op, be_keyString = key, be_record = record\<rparr>
       # number_entries sec (n + 1) ns es"

fun walk_sections :: "stream_scope \<Rightarrow> u32 \<Rightarrow> blob_section list \<Rightarrow> blob_entry list result" where
  "walk_sections scope n [] = Inr []"
| "walk_sections scope n (s # ss) =
     (if section_in_scope scope s then
        rbind (section_entries (bs_entries s)) (\<lambda>es.
        rbind (walk_sections scope (n + 1) ss) (\<lambda>more. Inr (number_entries n 0 (bs_name s) es @ more)))
      else walk_sections scope (n + 1) ss)"

declare split_sections.simps [simp del] section_entries.simps [simp del]

lemma blob_next_seek:
  assumes "bd_sectionRest d = []" "bd_rest d \<noteq> []"
  shows "blob_next d = rbind (advanceToNextInScopeSection d) blob_next"
  using assms by (simp add: blob_next_def [abs_def] seek_entry.simps [of d] rbind_assoc)

lemma blob_next_section:
  assumes "bd_sectionRest d = []" "bd_rest d \<noteq> []"
  shows "blob_next d = rbind (read_section (bd_rest d)) (\<lambda>(s, rest).
    blob_next (if section_in_scope (bd_scope d) s
       then d\<lparr>bd_rest := rest, bd_sectionsSeen := bd_sectionsSeen d + 1, bd_sectionNs := bs_name s,
              bd_sectionRest := bs_entries s, bd_entryOrdinal := 0, bd_currentSection := bd_sectionsSeen d\<rparr>
       else d\<lparr>bd_rest := rest, bd_sectionsSeen := bd_sectionsSeen d + 1\<rparr>))"
proof -
  have skip: "rbind (advanceToNextInScopeSection d1) blob_next = blob_next d1"
    if "bd_sectionRest d1 = []" for d1
  proof (cases "bd_rest d1 = []")
    case True
    have "d1\<lparr>bd_sectionRest := []\<rparr> = d1" using that by (cases d1) simp
    with True show ?thesis by (simp add: advance_unfold(2))
  qed (use that in \<open>simp add: blob_next_seek\<close>)
  show ?thesis
    using assms skip [of "d\<lparr>bd_rest := _, bd_sectionsSeen := bd_sectionsSeen d + 1\<rparr>"]
    by (auto simp: blob_next_seek advance_unfold(1) rbind_assoc split: prod.splits intro!: rbind_cong)
qed

lemma decode_all_section:
  assumes "bd_sectionRest d = []" "bd_rest d \<noteq> []"
  shows "decode_all d = rbind (read_section (bd_rest d)) (\<lambda>(s, rest).
    decode_all (if section_in_scope (bd_scope d) s
       then d\<lparr>bd_rest := rest, bd_sectionsSeen := bd_sectionsSeen d + 1, bd_sectionNs := bs_name s,
              bd_sectionRest := bs_entries s, bd_entryOrdinal := 0, bd_currentSection := bd_sectionsSeen d\<rparr>
       else d\<lparr>bd_rest := rest, bd_sectionsSeen := bd_sectionsSeen d + 1\<rparr>))"
proof -
  have same: "decode_all d = decode_all d1" if "blob_next d = blob_next d1" for d1
    using that by (simp add: decode_all.simps [of d] decode_all.simps [of d1])
  show ?thesis
  proof (cases "read_section (bd_rest d)")
    case (Inl e)
    then show ?thesis using assms by (simp add: decode_all.simps [of d] blob_next_section)
  next
    case (Inr x)
    then show ?thesis using blob_next_section [OF assms] by (cases x) (simp add: same)
  qed
qed

lemma decode_all_entry:
  assumes "bd_sectionRest d \<noteq> []"
  shows "decode_all d = rbind (read_entry (bd_sectionRest d)) (\<lambda>((key, op, record), rest).
    rbind (decode_all (d\<lparr>bd_sectionRest := rest, bd_entryOrdinal := bd_entryOrdinal d + 1\<rparr>)) (\<lambda>es.
    Inr (\<lparr>be_section = bd_currentSection d, be_entry = bd_entryOrdinal d, be_ns = bd_sectionNs d,
          be_op = op, be_keyString = key, be_record = record\<rparr> # es)))"
  using assms
  by (subst decode_all.simps) (auto simp: blob_next_def seek_entry.simps [of d] rbind_assoc
      intro!: rbind_cong split: prod.splits)

lemma decode_all_Nil:
  "bd_sectionRest d = [] \<Longrightarrow> bd_rest d = [] \<Longrightarrow> decode_all d = Inr []"
  by (subst decode_all.simps) (simp add: blob_next_def seek_entry.simps [of d])

definition walk_result :: "blob_decoder \<Rightarrow> blob_entry list result" where
  "walk_result d = rbind (section_entries (bd_sectionRest d)) (\<lambda>es.
     rbind (split_sections (bd_rest d)) (\<lambda>ss.
     rbind (walk_sections (bd_scope d) (bd_sectionsSeen d) ss) (\<lambda>more.
     Inr (number_entries (bd_currentSection d) (bd_entryOrdinal d) (bd_sectionNs d) es @ more))))"

lemma decode_all_walk: "decode_all d = Inr es \<longleftrightarrow> walk_result d = Inr es"
proof (induction d arbitrary: es rule: wf_induct_rule [OF wf_measures
      [of "[\<lambda>d. length (bd_rest d), \<lambda>d. length (bd_sectionRest d)]"]])
  case IH: (1 d)
  consider "bd_sectionRest d \<noteq> []" | "bd_sectionRest d = []" "bd_rest d \<noteq> []"
    | "bd_sectionRest d = []" "bd_rest d = []" by blast
  then show ?case
  proof cases
    case 1
    show ?thesis
    proof (cases "read_entry (bd_sectionRest d)")
      case (Inl e)
      with 1 show ?thesis
        by (simp add: decode_all_entry walk_result_def section_entries.simps [of "bd_sectionRest d"])
    next
      case (Inr x)
      then obtain key op rcd rest where x: "read_entry (bd_sectionRest d) = Inr ((key, op, rcd), rest)"
        by (cases x) auto
      let ?d1 = "d\<lparr>bd_sectionRest := rest, bd_entryOrdinal := bd_entryOrdinal d + 1\<rparr>"
      have "decode_all ?d1 = Inr es' \<longleftrightarrow> walk_result ?d1 = Inr es'" for es'
        using read_entry_shrinks [OF x] by (intro IH) simp
      with 1 x show ?thesis
        by (auto simp: decode_all_entry walk_result_def section_entries.simps [of "bd_sectionRest d"])
    qed
  next
    case 2
    show ?thesis
    proof (cases "read_section (bd_rest d)")
      case (Inl e)
      with 2 show ?thesis
        by (simp add: decode_all_section walk_result_def split_sections.simps [of "bd_rest d"]
            section_entries.simps [of "[]"])
    next
      case (Inr x)
      then obtain s rest where x: "read_section (bd_rest d) = Inr (s, rest)"
        by (cases x) auto
      let ?d1 = "if section_in_scope (bd_scope d) s
       then d\<lparr>bd_rest := rest, bd_sectionsSeen := bd_sectionsSeen d + 1, bd_sectionNs := bs_name s,
              bd_sectionRest := bs_entries s, bd_entryOrdinal := 0, bd_currentSection := bd_sectionsSeen d\<rparr>
       else d\<lparr>bd_rest := rest, bd_sectionsSeen := bd_sectionsSeen d + 1\<rparr>"
      have "decode_all ?d1 = Inr es \<longleftrightarrow> walk_result ?d1 = Inr es"
        using read_section_shrinks [OF x] by (intro IH) simp
      moreover have "decode_all d = decode_all ?d1"
        using 2 x by (simp add: decode_all_section)
      moreover have "walk_result ?d1 = Inr es \<longleftrightarrow> walk_result d = Inr es"
        using 2 x by (auto simp: walk_result_def split_sections.simps [of "bd_rest d"]
            section_entries.simps [of "[]"])
      ultimately show ?thesis by simp
    qed
  next
    case 3
    then show ?thesis
      by (simp add: decode_all_Nil walk_result_def section_entries.simps [of "[]"] split_sections.simps [of "[]"])
  qed
qed

section \<open>The writer's format\<close>

text \<open>
  Sections and entries as the log writer lays them out (the header comment of
  \<open>cdc_blob_decoder.h\<close>): an entry is the serialized key, the operation byte and, unless it is a
  delete, the serialized record.
\<close>

definition write_section :: "blob_section \<Rightarrow> bytes result" where
  "write_section s = Inr ([of_nat (length (bs_name s))] @ bs_name s @ [bs_engine s, bs_type s] @
     le_bytes (of_nat (length (bs_entries s)) :: u32) @ bs_entries s)"

definition section_ok :: "blob_section \<Rightarrow> bool" where
  "section_ok s \<longleftrightarrow> length (bs_name s) \<le> 255 \<and> length (bs_entries s) < 2 ^ 32"

definition write_entry :: "bytes \<times> cdc_operation \<times> bytes \<Rightarrow> bytes result" where
  "write_entry = (\<lambda>(key, op, rcd). Inr (key_Serialize (PackedKey key) @ [op_byte op] @ rcd))"

definition log_entry_ok :: "bytes \<times> cdc_operation \<times> bytes \<Rightarrow> bool" where
  "log_entry_ok = (\<lambda>(key, op, rcd). length key \<le> 65535 \<and>
     (if op = OpDelete then rcd = []
      else \<exists>r. rcd = record_Serialize r \<and> length (unpack_info r) < 2 ^ 64 \<and> length (encoded_blob r) < 2 ^ 64))"

lemmas blob_reads = readNative_def readBytes_def

lemma op_of_byte_op [simp]: "op_of_byte (op_byte op) = Inr op"
  by (cases op) (simp_all add: op_of_byte_def)

lemma op_of_byte_2 [simp]: "op_of_byte 2 = Inr OpDelete"
  by (simp add: op_of_byte_def)

lemma record_Serialize_not_Nil [simp]: "record_Serialize r \<noteq> []"
  using length_record_Serialize [of r] by (auto simp: record_SerializedLength_def)

lemma op_of_byte_Inr: "op_of_byte b = Inr op \<Longrightarrow> b = op_byte op"
proof -
  assume "op_of_byte b = Inr op"
  then have "1 \<le> b" "b \<le> 4" and op: "op = (if b = 1 then OpUpdate else if b = 2 then OpDelete
      else if b = 3 then OpInsert else OpUpsert)"
    by (auto simp: op_of_byte_def split: if_splits)
  then have "1 \<le> unat b" "unat b \<le> 4" by (simp_all add: word_le_nat_alt)
  then have "unat b = unat (1 :: u8) \<or> unat b = unat (2 :: u8) \<or> unat b = unat (3 :: u8) \<or>
      unat b = unat (4 :: u8)" by simp arith
  then have "b = 1 \<or> b = 2 \<or> b = 3 \<or> b = 4" by (simp only: word_unat_eq_iff [symmetric])
  then show ?thesis using op by auto
qed

lemma read_section_write:
  "section_ok s \<Longrightarrow> write_section s = Inr p \<Longrightarrow> read_section (p @ rest) = Inr (s, rest)"
  by (auto simp: section_ok_def write_section_def read_section_def blob_reads unat_of_nat)

lemma read_section_sound:
  assumes "read_section bs = Inr (s, rest)"
  shows "section_ok s \<and> (\<exists>p. write_section s = Inr p \<and> bs = p @ rest)"
proof -
  obtain nameLen :: u8 and r1 name r2 engine type r4 and kvLen :: u32 and r5 entries where
    "bs = nameLen # r1" "r1 = name @ r2" "length name = unat nameLen" "r2 = engine # type # r4"
    "r4 = le_bytes kvLen @ r5" "r5 = entries @ rest" "length entries = unat kvLen"
    "s = \<lparr>bs_name = name, bs_engine = engine, bs_type = type, bs_entries = entries\<rparr>"
    using assms by (auto simp: read_section_def blob_reads dest!: read_le_sounds read_exact_sound)
  moreover have "unat nameLen \<le> 255" by (rule unat_u8_le)
  moreover have "unat kvLen < 2 ^ 32" using unsigned_less [of kvLen, where 'a = nat] by simp
  ultimately show ?thesis
    by (simp add: section_ok_def write_section_def)
qed

interpretation log_section: codec_stream write_section read_section section_ok split_sections
proof unfold_locales
  show "split_sections r = (if r = [] then Inr []
      else rbind (read_section r) (\<lambda>(s, r'). rbind (split_sections r') (\<lambda>ss. Inr (s # ss))))" for r
    by (rule split_sections.simps)
qed (auto simp: read_section_write dest: read_section_sound, auto simp: write_section_def)

lemma read_record_serialize:
  assumes "length (unpack_info r) < 2 ^ 64" "length (encoded_blob r) < 2 ^ 64"
  shows "read_record (record_Serialize r @ rest) = Inr (record_Serialize r, rest)"
  using unat_length_u64 [OF assms(1)] unat_length_u64 [OF assms(2)]
  by (simp add: read_record_def record_Serialize_def blob_reads)

lemma read_record_sound:
  assumes "read_record bs = Inr (x, rest)"
  shows "\<exists>r. x = record_Serialize r \<and> length (unpack_info r) < 2 ^ 64 \<and> length (encoded_blob r) < 2 ^ 64 \<and>
    bs = x @ rest"
proof -
  obtain ul :: u64 and r1 u r2 and bl :: u64 and r3 b where
    r: "bs = le_bytes ul @ r1" "r1 = u @ r2" "length u = unat ul" "r2 = le_bytes bl @ r3"
      "r3 = b @ rest" "length b = unat bl" and x: "x = take (length bs - length rest) bs"
    using assms by (auto simp: read_record_def blob_reads dest!: read_le_sounds read_exact_sound)
  have "unat ul < 2 ^ 64" "unat bl < 2 ^ 64"
    using unsigned_less [of ul, where 'a = nat] unsigned_less [of bl, where 'a = nat] by simp_all
  moreover have "x = record_Serialize \<lparr>encoded_blob = b, unpack_info = u\<rparr>"
    using r x by (simp add: record_Serialize_def)
  ultimately show ?thesis
    using r x by (intro exI [of _ "\<lparr>encoded_blob = b, unpack_info = u\<rparr>"]) simp
qed

lemma read_entry_write:
  assumes "log_entry_ok e" "write_entry e = Inr p"
  shows "read_entry (p @ rest) = Inr (e, rest)"
  using assms
  by (auto simp: log_entry_ok_def write_entry_def read_entry_def blob_reads key_Serialize_def
      packed_key_def Let_def unat_length_u16 read_record_serialize split: if_splits)

lemma read_entry_sound:
  assumes "read_entry bs = Inr (e, rest)"
  shows "log_entry_ok e \<and> (\<exists>p. write_entry e = Inr p \<and> bs = p @ rest)"
proof -
  obtain keyLen :: u16 and r1 key r2 op r3 rcd where
    r: "bs = le_bytes keyLen @ r1" "r1 = key @ r2" "length key = unat keyLen" "r2 = op_byte op # r3"
    and e: "e = (key, op, rcd)"
    and fin: "if op = OpDelete then rcd = [] \<and> rest = r3 else read_record r3 = Inr (rcd, rest)"
    using assms
    by (auto simp: read_entry_def blob_reads split: if_splits
        dest!: read_le_sounds read_exact_sound op_of_byte_Inr)
  have "unat keyLen \<le> 65535" by (rule unat_u16_le)
  then show ?thesis
    using r e fin read_record_sound [of r3 rcd rest]
    by (auto simp: log_entry_ok_def write_entry_def key_Serialize_def packed_key_def Let_def
        split: if_splits)
qed

interpretation log_entry: codec_stream write_entry read_entry log_entry_ok section_entries
proof unfold_locales
  show "section_entries r = (if r = [] then Inr []
      else rbind (read_entry r) (\<lambda>(e, r'). rbind (section_entries r') (\<lambda>es. Inr (e # es))))" for r
    by (rule section_entries.simps)
qed (auto simp: read_entry_write dest: read_entry_sound, auto simp: write_entry_def split: prod.splits)

section \<open>Properties of the walk\<close>

lemma decode_all_make:
  "decode_all (make_decoder blob scope) = Inr es \<longleftrightarrow>
     (\<exists>ss. split_sections blob = Inr ss \<and> walk_sections scope 0 ss = Inr es)"
  by (auto simp: decode_all_walk walk_result_def make_decoder_def log_entry.read_all_Nil)

lemma number_entries_ns: "x \<in> set (number_entries n m ns es) \<Longrightarrow> be_ns x = ns \<and> be_section x = n"
  by (induction n m ns es rule: number_entries.induct) auto

lemma scope_includes_deployment: "scope_includes scope ns \<Longrightarrow> scope_includes scope_deployment ns"
  by (auto simp: scope_includes_def scope_deployment_def Let_def split: if_splits)

lemma walk_sections_scope:
  "walk_sections scope_deployment n ss = Inr es \<Longrightarrow>
     walk_sections scope n ss = Inr (filter (\<lambda>e. scope_includes scope (be_ns e)) es)"
proof (induction ss arbitrary: n es)
  case (Cons s ss)
  show ?case
  proof (cases "section_in_scope scope_deployment s")
    case True
    with Cons.prems obtain xs more where "section_entries (bs_entries s) = Inr xs"
      "walk_sections scope_deployment (n + 1) ss = Inr more"
      "es = number_entries n 0 (bs_name s) xs @ more" by auto
    moreover from this have "walk_sections scope (n + 1) ss
        = Inr (filter (\<lambda>e. scope_includes scope (be_ns e)) more)" using Cons.IH by blast
    moreover have "filter (\<lambda>e. scope_includes scope (be_ns e)) (number_entries n 0 (bs_name s) xs)
        = (if scope_includes scope (bs_name s) then number_entries n 0 (bs_name s) xs else [])"
      by (auto simp: filter_id_conv filter_empty_conv dest: number_entries_ns)
    ultimately show ?thesis using True by (auto simp: section_in_scope_def)
  next
    case False
    then have "\<not> section_in_scope scope s"
      using scope_includes_deployment by (auto simp: section_in_scope_def)
    with False Cons show ?thesis by simp
  qed
qed simp

definition position_less :: "blob_entry \<Rightarrow> blob_entry \<Rightarrow> bool" where
  "position_less a b \<longleftrightarrow> be_section a < be_section b \<or> be_section a = be_section b \<and> be_entry a < be_entry b"

lemma position_lessI: "be_section a < be_section b \<Longrightarrow> position_less a b"
  by (simp add: position_less_def)

lemma number_entries_positions:
  "unat m + length es < 2 ^ 32 \<Longrightarrow>
     sorted_wrt position_less (number_entries n m ns es) \<and>
     (\<forall>x \<in> set (number_entries n m ns es). m \<le> be_entry x)"
proof (induction n m ns es rule: number_entries.induct)
  case (2 sec m ns key op rcd es)
  then have "m \<noteq> -1" by (intro less_max_not_max) simp
  then have m: "unat (m + 1) = Suc (unat m)" by (rule unat_succ)
  then have "m < m + 1" by (simp add: word_less_nat_alt)
  with 2 m show ?case
    by (force simp: position_less_def dest: number_entries_ns)
qed simp

lemma walk_sections_positions:
  "walk_sections scope n ss = Inr es \<Longrightarrow> unat n + length ss < 2 ^ 32 \<Longrightarrow>
     list_all (\<lambda>s. length (bs_entries s) < 2 ^ 32) ss \<Longrightarrow>
     sorted_wrt position_less es \<and> (\<forall>x \<in> set es. n \<le> be_section x)"
proof (induction ss arbitrary: n es)
  case (Cons s ss)
  then have "n \<noteq> -1" by (intro less_max_not_max) simp
  then have n: "unat (n + 1) = Suc (unat n)" by (rule unat_succ)
  then have lt: "n < n + 1" by (simp add: word_less_nat_alt)
  show ?case
  proof (cases "section_in_scope scope s")
    case True
    with Cons.prems obtain xs more where xs: "section_entries (bs_entries s) = Inr xs"
      and more: "walk_sections scope (n + 1) ss = Inr more"
      and es: "es = number_entries n 0 (bs_name s) xs @ more" by auto
    have "length xs \<le> length (bs_entries s)"
      using log_entry.read_all_sound [OF xs] log_entry.write_all_length by blast
    then have "sorted_wrt position_less (number_entries n 0 (bs_name s) xs)"
      using Cons.prems(3) number_entries_positions [of 0 xs] by simp
    moreover have "sorted_wrt position_less more" "\<forall>x \<in> set more. n < be_section x"
      using Cons.IH [OF more] Cons.prems n lt less_le_trans by simp_all blast
    moreover have "\<forall>x \<in> set (number_entries n 0 (bs_name s) xs). be_section x = n"
      using number_entries_ns by blast
    ultimately show ?thesis
      by (auto simp: es sorted_wrt_append less_imp_le intro: position_lessI)
  next
    case False
    then have "sorted_wrt position_less es \<and> (\<forall>x \<in> set es. n + 1 \<le> be_section x)"
      using Cons.IH [of "n + 1" es] Cons.prems n by simp
    then show ?thesis using lt by (meson less_imp_le order_trans)
  qed
qed simp

lemma documentBson_serialized:
  assumes "be_record e = record_Serialize r" "length (unpack_info r) < 2 ^ 64" "length (encoded_blob r) < 2 ^ 64"
  shows "documentBson e = Inr (encoded_blob r)"
  using unat_length_u64 [OF assms(2)] unat_length_u64 [OF assms(3)] assms(1)
  by (simp add: documentBson_def blob_reads) (simp add: record_Serialize_def read_exact_def)

lemma number_entries_ok:
  "list_all log_entry_ok es \<Longrightarrow> x \<in> set (number_entries n m ns es) \<Longrightarrow>
     log_entry_ok (be_keyString x, be_op x, be_record x)"
  by (induction n m ns es rule: number_entries.induct) auto

lemma walk_sections_ok:
  "walk_sections scope n ss = Inr es \<Longrightarrow> x \<in> set es \<Longrightarrow>
     log_entry_ok (be_keyString x, be_op x, be_record x) \<and> scope_includes scope (be_ns x)"
proof (induction ss arbitrary: n es)
  case (Cons s ss)
  have "x \<in> set (number_entries n 0 (bs_name s) xs) \<Longrightarrow> be_ns x = bs_name s" for xs
    using number_entries_ns by blast
  with Cons show ?case
    by (auto split: if_splits dest!: log_entry.read_all_sound dest: number_entries_ok
        simp: section_in_scope_def)
qed simp

definition table_entries_ok ::
  "stream_scope \<Rightarrow> (blob_section \<times> (bytes \<times> cdc_operation \<times> bytes) list) \<Rightarrow> bool" where
  "table_entries_ok scope = (\<lambda>(s, es). section_ok s \<and> (section_in_scope scope s \<longrightarrow>
     list_all log_entry_ok es \<and> write_all write_entry es = Inr (bs_entries s)))"

fun numbered_entries ::
  "stream_scope \<Rightarrow> u32 \<Rightarrow> (blob_section \<times> (bytes \<times> cdc_operation \<times> bytes) list) list \<Rightarrow> blob_entry list" where
  "numbered_entries scope n [] = []"
| "numbered_entries scope n ((s, es) # ts) =
     (if section_in_scope scope s then number_entries n 0 (bs_name s) es else []) @
     numbered_entries scope (n + 1) ts"

lemma walk_sections_numbered:
  "list_all (table_entries_ok scope) ts \<Longrightarrow>
     walk_sections scope n (map fst ts) = Inr (numbered_entries scope n ts)"
proof (induction ts arbitrary: n)
  case (Cons t ts)
  then show ?case
    by (cases t) (auto simp: table_entries_ok_def log_entry.read_all_write)
qed simp

section \<open>Properties\<close>

text \<open>
  C11: The decoder reads back what the log writer wrote. For any sequence of table sections, whose
  sections in scope are made of well-formed entries and whose other sections hold any bytes at all,
  walking the blob yields the entries of the sections in scope, in order, each numbered by its
  section's ordinal among all sections and its own ordinal within the section.
\<close>

theorem blob_roundtrip:
  assumes "list_all (table_entries_ok scope) tables"
    and "write_all write_section (map fst tables) = Inr blob"
  shows "decode_all (make_decoder blob scope) = Inr (numbered_entries scope 0 tables)"
proof -
  have "list_all section_ok (map fst tables)"
    using assms(1) by (auto simp: list_all_iff table_entries_ok_def)
  then have "split_sections blob = Inr (map fst tables)"
    using assms(2) log_section.read_all_write by blast
  then show ?thesis
    using walk_sections_numbered [OF assms(1)] by (simp add: decode_all_make)
qed

definition sample_tables :: "(blob_section \<times> (bytes \<times> cdc_operation \<times> bytes) list) list" where
  "sample_tables =
     [(\<lparr>bs_name = bstr ''x'', bs_engine = 1, bs_type = 0, bs_entries = [7, 7]\<rparr>, []),
      (\<lparr>bs_name = bstr ''d.c'', bs_engine = 3, bs_type = 0, bs_entries = [1, 0, 9, 2, 0, 0, 2]\<rparr>,
        [([9], OpDelete, []), ([], OpDelete, [])])]"

definition sample_blob :: bytes where
  "sample_blob = [1, 120, 1, 0, 2, 0, 0, 0, 7, 7, 3, 100, 46, 99, 3, 0, 7, 0, 0, 0, 1, 0, 9, 2, 0, 0, 2]"

definition sample_entries :: "blob_entry list" where
  "sample_entries =
     [\<lparr>be_section = 1, be_entry = 0, be_ns = bstr ''d.c'', be_op = OpDelete, be_keyString = [9], be_record = []\<rparr>,
      \<lparr>be_section = 1, be_entry = 1, be_ns = bstr ''d.c'', be_op = OpDelete, be_keyString = [], be_record = []\<rparr>]"

lemma sample_tables_ok: "list_all (table_entries_ok scope_deployment) sample_tables"
  by (simp add: sample_tables_def table_entries_ok_def section_ok_def log_entry_ok_def write_all_def
      write_entry_def key_Serialize_def packed_key_def le_bytes_def be_bytes_def bstr_def
      section_in_scope_def kTableEngineEloqDoc_def)

lemma sample_blob_written: "write_all write_section (map fst sample_tables) = Inr sample_blob"
  by (simp add: sample_tables_def sample_blob_def write_all_def write_section_def le_bytes_def be_bytes_def
      bstr_def)

lemma sample_numbered: "numbered_entries scope_deployment 0 sample_tables = sample_entries"
  by (simp add: sample_tables_def sample_entries_def section_in_scope_def kTableEngineEloqDoc_def
      kTableTypePrimary_def scope_includes_def scope_deployment_def databaseOf_def isExcludedDatabase_def
      bstr_def)

lemma sample_decoded: "decode_all (make_decoder sample_blob scope_deployment) = Inr sample_entries"
proof -
  have "list_all section_ok (map fst sample_tables)"
    using sample_tables_ok by (auto simp: list_all_iff table_entries_ok_def)
  then show ?thesis
    using log_section.read_all_write [OF _ sample_blob_written] walk_sections_numbered [OF sample_tables_ok, of 0]
    by (simp add: decode_all_make sample_numbered)
qed

theorem blob_roundtrip_witness:
  "list_all (table_entries_ok scope_deployment) sample_tables \<and>
   decode_all (make_decoder sample_blob scope_deployment) = Inr sample_entries"
  using blob_roundtrip [OF sample_tables_ok sample_blob_written] sample_tables_ok
  by (simp add: sample_numbered)

text \<open>
  C12: A position means the same to every stream. Whenever a blob decodes for the whole deployment,
  it decodes for any narrower scope, and the narrower walk yields exactly the deployment's entries
  whose namespace the scope includes, with the same section and entry ordinals.
\<close>

theorem blob_scope_independent_positions:
  assumes "decode_all (make_decoder blob scope_deployment) = Inr es"
  shows "decode_all (make_decoder blob scope) = Inr (filter (\<lambda>e. scope_includes scope (be_ns e)) es)"
  using assms walk_sections_scope by (auto simp: decode_all_make)

theorem blob_scope_independent_positions_witness:
  "decode_all (make_decoder sample_blob (scope_database (bstr ''d''))) = Inr sample_entries \<and>
   decode_all (make_decoder sample_blob (scope_collection (bstr ''d.e''))) = Inr []"
  using blob_scope_independent_positions [OF sample_decoded, of "scope_database (bstr ''d'')"]
    blob_scope_independent_positions [OF sample_decoded, of "scope_collection (bstr ''d.e'')"]
  by (simp add: sample_entries_def scope_includes_def scope_database_def scope_collection_def
      databaseOf_def isExcludedDatabase_def bstr_def)

text \<open>
  C37: Positions identify entries and grow along the walk: in a blob shorter than 4 GiB the
  (section, entry) pairs the decoder yields are strictly increasing, so the 32-bit ordinals never
  wrap and a position in a resume token names one entry.
\<close>

theorem blob_positions_increase:
  assumes "decode_all (make_decoder blob scope) = Inr es" and "length blob < 2 ^ 32"
  shows "sorted_wrt position_less es"
proof -
  obtain ss where ss: "split_sections blob = Inr ss" and es: "walk_sections scope 0 ss = Inr es"
    using assms(1) by (auto simp: decode_all_make)
  have "list_all section_ok ss" "length ss \<le> length blob"
    using log_section.read_all_sound [OF ss] log_section.write_all_length by blast+
  then show ?thesis
    using walk_sections_positions [OF es] assms(2) by (simp add: section_ok_def list_all_iff)
qed

theorem blob_positions_increase_witness:
  "length sample_blob < 2 ^ 32 \<and> sorted_wrt position_less sample_entries"
  using blob_positions_increase [OF sample_decoded] by (simp add: sample_blob_def)



end
