(* ===== verification/Bson_Model.thy ===== *)
theory Bson_Model
  imports Eloq_Prelude
begin

text \<open>
  BSON values as the components below handle them: the element types of
  \<open>mongo/bson/bsontypes.h\<close>, objects as the sequence of their named elements in stored order
  (duplicates allowed, as in the wire form), and the operations of \<open>BSONObj\<close> and
  \<open>BSONElement\<close> the program calls: lookup of the first element with a name, the field count,
  field removal and the encoded size. A \<open>NumberDouble\<close> is its 64 IEEE bits and a
  \<open>NumberDecimal\<close> the low and high word of its \<open>Decimal128::Value\<close>; a date is the 64 bits of
  its millisecond count and a timestamp its 64-bit value.
\<close>

type_synonym dec128 = "u64 \<times> u64"

datatype bson =
    BMinKey
  | BMaxKey
  | BDouble u64
  | BString bytes
  | BObject "(bytes \<times> bson) list"
  | BArray "(bytes \<times> bson) list"
  | BBinData u8 bytes
  | BUndefined
  | BOid bytes
  | BBool bool
  | BDate u64
  | BNull
  | BRegEx bytes bytes
  | BDBRef bytes bytes
  | BCode bytes
  | BSymbol bytes
  | BCodeWScope bytes "(bytes \<times> bson) list"
  | BInt u32
  | BTimestamp u64
  | BLong u64
  | BDecimal dec128

type_synonym bson_obj = "(bytes \<times> bson) list"

fun getField :: "bson_obj \<Rightarrow> bytes \<Rightarrow> bson option" where
  "getField [] name = None"
| "getField ((n, v) # fs) name = (if name = n then Some v else getField fs name)"

definition nFields :: "bson_obj \<Rightarrow> nat" where
  "nFields obj = length obj"

fun removeField :: "bson_obj \<Rightarrow> bytes \<Rightarrow> bson_obj" where
  "removeField [] name = []"
| "removeField ((n, v) # fs) name = (if name \<noteq> n then (n, v) # removeField fs name else removeField fs name)"

fun isABSONObj :: "bson \<Rightarrow> bool" where
  "isABSONObj (BObject fs) = True"
| "isABSONObj (BArray fs) = True"
| "isABSONObj v = False"

text \<open>\<open>BSONElement::Obj\<close>: the fields of an object or array; anything else is refused.\<close>

fun embeddedObject :: "bson \<Rightarrow> bson_obj result" where
  "embeddedObject (BObject fs) = Inr fs"
| "embeddedObject (BArray fs) = Inr fs"
| "embeddedObject v = Inl (Location 10065)"

text \<open>\<open>BSONElement::str\<close>: the empty string unless the element is a string.\<close>

fun elem_str :: "bson option \<Rightarrow> bytes" where
  "elem_str (Some (BString s)) = s"
| "elem_str v = []"

text \<open>
  The encoded size. \<open>value_size\<close> is what \<open>BSONElement::computeSize\<close> adds for the value, the
  type byte included and the field name's bytes and terminator (\<open>fieldNameSize\<close>) not.
\<close>

fun value_size :: "bson \<Rightarrow> nat" and fields_size :: "bson_obj \<Rightarrow> nat" where
  "value_size BMinKey = 1"
| "value_size BMaxKey = 1"
| "value_size (BDouble d) = 9"
| "value_size (BString s) = 5 + (length s + 1)"
| "value_size (BObject fs) = 1 + (fields_size fs + 5)"
| "value_size (BArray fs) = 1 + (fields_size fs + 5)"
| "value_size (BBinData t bs) = 6 + length bs"
| "value_size BUndefined = 1"
| "value_size (BOid bs) = 13"
| "value_size (BBool b) = 2"
| "value_size (BDate d) = 9"
| "value_size BNull = 1"
| "value_size (BRegEx p f) = length p + 1 + (length f + 1) + 1"
| "value_size (BDBRef ns oid) = 17 + (length ns + 1)"
| "value_size (BCode s) = 5 + (length s + 1)"
| "value_size (BSymbol s) = 5 + (length s + 1)"
| "value_size (BCodeWScope c fs) = 1 + (4 + 4 + (length c + 1) + (fields_size fs + 5))"
| "value_size (BInt i) = 5"
| "value_size (BTimestamp t) = 9"
| "value_size (BLong l) = 9"
| "value_size (BDecimal d) = 17"
| "fields_size [] = 0"
| "fields_size ((n, v) # fs) = value_size v + (length n + 1) + fields_size fs"

definition objsize :: "bson_obj \<Rightarrow> nat" where
  "objsize obj = fields_size obj + 5"

text \<open>\<open>BSONObjMaxUserSize\<close>, the largest document a client may be given.\<close>

definition BSONObjMaxUserSize :: nat where
  "BSONObjMaxUserSize = 16 * 1024 * 1024"

text \<open>\<open>BSONObjBuilder::numStr\<close>: the decimal digits of an array index.\<close>

fun numStr :: "nat \<Rightarrow> bytes" where
  "numStr n = (if n < 10 then [of_nat (48 + n)] else numStr (n div 10) @ [of_nat (48 + n mod 10)])"

declare numStr.simps [simp del]

text \<open>\<open>BSONArrayBuilder\<close>: the elements named by their index.\<close>

fun array_from :: "nat \<Rightarrow> bson list \<Rightarrow> bson_obj" where
  "array_from i [] = []"
| "array_from i (v # vs) = (numStr i, v) # array_from (i + 1) vs"

lemma getField_eq_map_of: "getField obj name = map_of obj name"
  by (induction obj name rule: getField.induct) simp_all

lemma removeField_eq_filter: "removeField obj name = filter (\<lambda>(n, v). n \<noteq> name) obj"
  by (induction obj name rule: removeField.induct) auto

lemma getField_removeField:
  "getField (removeField obj name) k = (if k = name then None else getField obj k)"
  by (induction obj name rule: removeField.induct) auto

lemma fields_size_append [simp]: "fields_size (xs @ ys) = fields_size xs + fields_size ys"
  by (induction xs) (auto simp: split: prod.splits)

lemma objsize_pos: "5 \<le> objsize obj"
  by (simp add: objsize_def)

end
