(* ===== verification/Log_Model.thy ===== *)
theory Log_Model
  imports Blob_Decoder Bson_Model
begin

text \<open>
  The messages of the log service's scan call and the contract a change stream relies on
  (\<open>docs/cdc-change-stream.md\<close>, sections 4.1 and 4.2). The log service is not part of this
  repository; its messages are modelled by the fields the program reads, and its behaviour is the
  locale \<open>log_service\<close> below: a group's records are one sequence merged by timestamp, a page is
  the next stretch of that sequence after the position asked for, its continuation is the position
  after it, and a page that is not cut leaves nothing at or below the bound it reports.
\<close>

section \<open>Messages\<close>

record data_record =
  dr_commit_ts :: u64
  dr_cc_ng_id :: u32
  dr_txn_number :: u64
  dr_blob :: bytes

datatype table_engine = TableEngineEloqDoc | TableEngineOther nat

record schema_op =
  so_table_engine :: table_engine
  so_has_table_op :: bool
  so_table_name_str :: bytes
  so_op_type :: nat
  so_rolled_back :: bool
  so_old_catalog_blob :: bytes
  so_new_catalog_blob :: bytes

record ddl_record =
  dd_ddl_ts :: u64
  dd_catalog_ts :: u64
  dd_txn_number :: u64
  dd_schema_op :: schema_op

datatype scan_start = StartNone | StartContinuation bytes | StartFromTs u64

record scan_request =
  rq_log_group_id :: u32
  rq_start :: scan_start
  rq_max_bytes :: u32
  rq_wait_ms :: u32

datatype scan_status = ScanSuccess | ScanNotLeader | ScanPositionTruncated | ScanOther

record scan_response =
  rs_status :: scan_status
  rs_redirect :: bytes
  rs_data :: "data_record list"
  rs_ddl :: "ddl_record list"
  rs_arrival_complete_ts :: u64
  rs_continuation :: bytes
  rs_has_more :: bool

section \<open>Records in stream order\<close>

datatype log_item = DataItem data_record | DdlItem ddl_record

primrec item_ts :: "log_item \<Rightarrow> u64" where
  "item_ts (DataItem d) = dr_commit_ts d"
| "item_ts (DdlItem d) = dd_ddl_ts d"

text \<open>A data record's key in the log's data store, and a DDL record's position in its history.\<close>

definition dataKey :: "data_record \<Rightarrow> bytes" where
  "dataKey d = be_bytes_n 8 (dr_commit_ts d) @ be_bytes_n 4 (dr_cc_ng_id d) @ be_bytes_n 8 (dr_txn_number d)"

definition ddlKey :: "ddl_record \<Rightarrow> bytes" where
  "ddlKey d = be_bytes_n 8 (dd_ddl_ts d) @ be_bytes_n 8 (dd_txn_number d)"

text \<open>The two streams of a page merged by timestamp, data first at one timestamp.\<close>

fun merge_streams :: "data_record list \<Rightarrow> ddl_record list \<Rightarrow> log_item list" where
  "merge_streams [] es = map DdlItem es"
| "merge_streams ds [] = map DataItem ds"
| "merge_streams (d # ds) (e # es) =
     (if dr_commit_ts d \<le> dd_ddl_ts e then DataItem d # merge_streams ds (e # es)
      else DdlItem e # merge_streams (d # ds) es)"

definition page_items :: "scan_response \<Rightarrow> log_item list" where
  "page_items r = merge_streams (rs_data r) (rs_ddl r)"

lemma merge_streams_Nil2 [simp]: "merge_streams ds [] = map DataItem ds"
  by (cases ds) simp_all

lemma length_merge_streams [simp]: "length (merge_streams ds es) = length ds + length es"
  by (induction ds es rule: merge_streams.induct) auto

lemma merge_streams_eq_Nil [simp]: "merge_streams ds es = [] \<longleftrightarrow> ds = [] \<and> es = []"
  using length_merge_streams [of ds es] by (metis add_is_0 length_0_conv)

lemma set_merge_streams [simp]: "set (merge_streams ds es) = DataItem ` set ds \<union> DdlItem ` set es"
  by (induction ds es rule: merge_streams.induct) auto

section \<open>What the log service promises\<close>

text \<open>
  \<open>glog g\<close> is everything group \<open>g\<close> will ever hold, in stream order; \<open>answers g req resp\<close> says that
  the service may answer \<open>req\<close> with the successful page \<open>resp\<close> at some time; \<open>cpos g c\<close> is how many
  records lie before a continuation. Timestamps are microseconds, so the largest 64-bit value is
  not one of them.
\<close>

definition start_pos :: "(u32 \<Rightarrow> log_item list) \<Rightarrow> (u32 \<Rightarrow> bytes \<Rightarrow> nat) \<Rightarrow> u32 \<Rightarrow> scan_start \<Rightarrow> nat" where
  "start_pos glog cpos g start = (case start of
       StartNone \<Rightarrow> 0
     | StartContinuation c \<Rightarrow> cpos g c
     | StartFromTs f \<Rightarrow> length (takeWhile (\<lambda>x. item_ts x < f) (glog g)))"

locale log_service =
  fixes glog :: "u32 \<Rightarrow> log_item list"
    and answers :: "u32 \<Rightarrow> scan_request \<Rightarrow> scan_response \<Rightarrow> bool"
    and cpos :: "u32 \<Rightarrow> bytes \<Rightarrow> nat"
  assumes ts_sorted: "sorted (map item_ts (glog g))"
    and page_prefix: "answers g req resp \<Longrightarrow>
      page_items resp = take (length (page_items resp)) (drop (start_pos glog cpos g (rq_start req)) (glog g))"
    and continuation_pos: "answers g req resp \<Longrightarrow>
      cpos g (rs_continuation resp) = start_pos glog cpos g (rq_start req) + length (page_items resp)"
    and exhausted: "answers g req resp \<Longrightarrow> \<not> rs_has_more resp \<Longrightarrow>
      x \<in> set (drop (cpos g (rs_continuation resp)) (glog g)) \<Longrightarrow> rs_arrival_complete_ts resp < item_ts x"
    and bound_not_max: "answers g req resp \<Longrightarrow> rs_arrival_complete_ts resp \<noteq> -1"
begin

lemma from_ts_pos:
  "set (drop (start_pos glog cpos g (StartFromTs f)) (glog g)) = {x \<in> set (glog g). f \<le> item_ts x}"
proof -
  have "sorted (map item_ts xs) \<Longrightarrow>
      set (drop (length (takeWhile (\<lambda>x. item_ts x < f) xs)) xs) = {x \<in> set xs. f \<le> item_ts x}" for xs
    by (induction xs) (auto simp: not_less)
  then show ?thesis using ts_sorted by (simp add: start_pos_def)
qed

lemma cut_page_below:
  assumes "answers g req resp"
    and "x \<in> set (drop (cpos g (rs_continuation resp)) (glog g))"
    and "y \<in> set (page_items resp)"
  shows "item_ts y \<le> item_ts x"
proof -
  let ?n = "start_pos glog cpos g (rq_start req)" and ?k = "length (page_items resp)"
  have "sorted (map item_ts (drop ?n (glog g)))"
    using ts_sorted sorted_wrt_drop by (metis drop_map)
  moreover have "drop ?n (glog g) = page_items resp @ drop (?n + ?k) (glog g)"
    using page_prefix [OF assms(1)] by (metis append_take_drop_id drop_drop add.commute)
  ultimately show ?thesis
    using assms(2,3) by (auto simp: continuation_pos [OF assms(1)] sorted_append)
qed

end

end
