(* ===== verification/Scan_Client.thy ===== *)
theory Scan_Client
  imports Log_Model
begin

text \<open>
  The scan client (\<open>cdc/cdc_scan_client.h\<close>, \<open>.cpp\<close>): one call slot per log group, shared with the
  call's completion callback, and the retry policy for a leader that cannot serve. Times are
  milliseconds as integers; each operation takes the clock readings it makes as arguments. What the
  client asks of the transport (a scan, a redirect followed, a leader refresh, a cancellation) is
  appended to \<open>cl_actions\<close>, and a wake-up of the cursor's wait object counted in
  \<open>cl_notifications\<close>. The transport's address lookup is a parameter.
\<close>

section \<open>State\<close>

datatype rpc_failure = NoMethod | OtherFailure

datatype transport_action =
    TScan u32 scan_request int
  | TFollow u32 u32
  | TRefresh u32
  | TCancel u32

record call =
  ca_completed :: bool
  ca_cancelled :: bool
  ca_failed :: "rpc_failure option"
  ca_request :: scan_request
  ca_response :: scan_response
  ca_targetNode :: "u32 option"
  ca_issuedAt :: int
  ca_completedAt :: int

record group_state =
  gs_call :: "call option"
  gs_readyAt :: int
  gs_backoff :: int
  gs_lastFollowAt :: int
  gs_scansIssued :: u64

record client_options =
  co_retryBackoffInitial :: int
  co_retryBackoffMax :: int

record scan_client =
  cl_options :: client_options
  cl_groups :: "(u32 \<times> group_state) list"
  cl_actions :: "transport_action list"
  cl_notifications :: nat

datatype completion_status = kOk | kRetry | kPositionTruncated | kUnsupported

record completion =
  cp_status :: completion_status
  cp_response :: "scan_response option"
  cp_request :: scan_request
  cp_issuedAt :: int
  cp_completedAt :: int

definition default_client_options :: client_options where
  "default_client_options = \<lparr>co_retryBackoffInitial = 50, co_retryBackoffMax = 1000\<rparr>"

definition empty_response :: scan_response where
  "empty_response = \<lparr>rs_status = ScanSuccess, rs_redirect = [], rs_data = [], rs_ddl = [],
     rs_arrival_complete_ts = 0, rs_continuation = [], rs_has_more = False\<rparr>"

definition fresh_group :: "int \<Rightarrow> group_state" where
  "fresh_group backoff = \<lparr>gs_call = None, gs_readyAt = 0, gs_backoff = backoff, gs_lastFollowAt = 0,
     gs_scansIssued = 0\<rparr>"

section \<open>Operations\<close>

definition make_client :: "u32 list \<Rightarrow> client_options \<Rightarrow> scan_client" where
  "make_client ids opts = \<lparr>cl_options = opts,
     cl_groups = fold (\<lambda>g m. om_put g (fresh_group (co_retryBackoffInitial opts)) m) ids [],
     cl_actions = [], cl_notifications = 0\<rparr>"

definition client_group :: "scan_client \<Rightarrow> u32 \<Rightarrow> group_state result" where
  "client_group cl g = (case map_of (cl_groups cl) g of None \<Rightarrow> Inl InvariantFailure | Some s \<Rightarrow> Inr s)"

definition put_group :: "u32 \<Rightarrow> group_state \<Rightarrow> scan_client \<Rightarrow> scan_client" where
  "put_group g s cl = cl\<lparr>cl_groups := om_put g s (cl_groups cl)\<rparr>"

definition act :: "transport_action \<Rightarrow> scan_client \<Rightarrow> scan_client" where
  "act a cl = cl\<lparr>cl_actions := cl_actions cl @ [a]\<rparr>"

definition inFlight :: "scan_client \<Rightarrow> u32 \<Rightarrow> bool result" where
  "inFlight cl g = rbind (client_group cl g) (\<lambda>s. Inr (gs_call s \<noteq> None))"

definition readyAt :: "scan_client \<Rightarrow> u32 \<Rightarrow> int result" where
  "readyAt cl g = rbind (client_group cl g) (\<lambda>s. Inr (gs_readyAt s))"

definition deferUntil :: "u32 \<Rightarrow> int \<Rightarrow> scan_client \<Rightarrow> scan_client result" where
  "deferUntil g t cl = rbind (client_group cl g) (\<lambda>s.
     Inr (put_group g (s\<lparr>gs_readyAt := max (gs_readyAt s) t\<rparr>) cl))"

definition issue :: "u32 \<Rightarrow> scan_request \<Rightarrow> int \<Rightarrow> int \<Rightarrow> scan_client \<Rightarrow> scan_client result" where
  "issue g request rpcTimeout now cl = rbind (client_group cl g) (\<lambda>s.
     rbind (rguard (gs_call s = None) InvariantFailure) (\<lambda>_.
     let c = \<lparr>ca_completed = False, ca_cancelled = False, ca_failed = None, ca_request = request,
              ca_response = empty_response, ca_targetNode = None, ca_issuedAt = now, ca_completedAt = 0\<rparr>
     in Inr (act (TScan g request rpcTimeout)
          (put_group g (s\<lparr>gs_call := Some c, gs_scansIssued := gs_scansIssued s + 1\<rparr>) cl))))"

text \<open>
  The callback (\<open>ScanDone::Run\<close>) with what the call came back with. It runs once per call; the model
  ignores a second run.
\<close>

record call_outcome =
  ou_failed :: "rpc_failure option"
  ou_response :: scan_response
  ou_targetNode :: "u32 option"

definition scan_done :: "u32 \<Rightarrow> call_outcome \<Rightarrow> int \<Rightarrow> scan_client \<Rightarrow> scan_client" where
  "scan_done g ou now cl = (case map_of (cl_groups cl) g of
       None \<Rightarrow> cl
     | Some s \<Rightarrow> (case gs_call s of
           None \<Rightarrow> cl
         | Some c \<Rightarrow> if ca_completed c then cl else
             (let c1 = c\<lparr>ca_completed := True, ca_completedAt := now, ca_failed := ou_failed ou,
                          ca_response := ou_response ou, ca_targetNode := ou_targetNode ou\<rparr>;
                  cl1 = put_group g (s\<lparr>gs_call := Some c1\<rparr>) cl
              in if ca_cancelled c then cl1 else cl1\<lparr>cl_notifications := cl_notifications cl1 + 1\<rparr>)))"

text \<open>\<open>_backOff\<close>: hold the group back by its current backoff, then double it up to the cap.\<close>

definition backOff :: "client_options \<Rightarrow> int \<Rightarrow> group_state \<Rightarrow> group_state" where
  "backOff opts now s = s\<lparr>gs_readyAt := max (gs_readyAt s) (now + gs_backoff s),
     gs_backoff := min (gs_backoff s * 2) (co_retryBackoffMax opts)\<rparr>"

definition make_completion :: "completion_status \<Rightarrow> call \<Rightarrow> completion" where
  "make_completion st c = \<lparr>cp_status = st,
     cp_response = (if st = kOk then Some (ca_response c) else None),
     cp_request = ca_request c, cp_issuedAt = ca_issuedAt c, cp_completedAt = ca_completedAt c\<rparr>"

text \<open>The \<open>NotLeader\<close> branch; \<open>now\<close> is read before the backoff decision, \<open>now'\<close> by the backoff.\<close>

definition takeNotLeader ::
  "(u32 \<Rightarrow> bytes \<Rightarrow> u32 option) \<Rightarrow> u32 \<Rightarrow> call \<Rightarrow> group_state \<Rightarrow> int \<Rightarrow> int \<Rightarrow> scan_client \<Rightarrow> scan_client" where
  "takeNotLeader nodeByAddress g c s now now' cl =
     (let redirect = rs_redirect (ca_response c);
          node = (if redirect = [] then None else nodeByAddress g redirect)
      in case node of
           Some n \<Rightarrow>
             if ca_targetNode c \<noteq> Some n then
               let s1 = (if now - gs_lastFollowAt s < gs_backoff s then backOff (cl_options cl) now' s
                         else s\<lparr>gs_readyAt := now\<rparr>)
               in put_group g (s1\<lparr>gs_lastFollowAt := now\<rparr>) (act (TFollow g n) cl)
             else put_group g (backOff (cl_options cl) now' s) cl
         | None \<Rightarrow>
             put_group g (backOff (cl_options cl) now' s)
               (if redirect \<noteq> [] then act (TRefresh g) cl else cl))"

definition takeCompleted ::
  "(u32 \<Rightarrow> bytes \<Rightarrow> u32 option) \<Rightarrow> u32 \<Rightarrow> int \<Rightarrow> int \<Rightarrow> scan_client
     \<Rightarrow> (completion option \<times> scan_client) result" where
  "takeCompleted nodeByAddress g now now' cl = rbind (client_group cl g) (\<lambda>s0.
     case gs_call s0 of
       None \<Rightarrow> Inr (None, cl)
     | Some c \<Rightarrow>
         if \<not> ca_completed c then Inr (None, cl) else
         (let s = s0\<lparr>gs_call := None\<rparr> in
          case ca_failed c of
            Some NoMethod \<Rightarrow> Inr (Some (make_completion kUnsupported c), put_group g s cl)
          | Some OtherFailure \<Rightarrow>
              Inr (Some (make_completion kRetry c),
                   put_group g (backOff (cl_options cl) now' s) (act (TRefresh g) cl))
          | None \<Rightarrow>
              (case rs_status (ca_response c) of
                 ScanSuccess \<Rightarrow>
                   Inr (Some (make_completion kOk c),
                        put_group g (s\<lparr>gs_backoff := co_retryBackoffInitial (cl_options cl),
                                       gs_lastFollowAt := 0\<rparr>) cl)
               | ScanNotLeader \<Rightarrow>
                   Inr (Some (make_completion kRetry c), takeNotLeader nodeByAddress g c s now now' cl)
               | ScanPositionTruncated \<Rightarrow>
                   Inr (Some (make_completion kPositionTruncated c), put_group g s cl)
               | ScanOther \<Rightarrow>
                   Inr (Some (make_completion kRetry c),
                        put_group g (backOff (cl_options cl) now' s) (act (TRefresh g) cl)))))"

definition client_scansIssued :: "scan_client \<Rightarrow> u32 \<Rightarrow> u64 result" where
  "client_scansIssued cl g = rbind (client_group cl g) (\<lambda>s. Inr (gs_scansIssued s))"

definition inFlightCount :: "scan_client \<Rightarrow> nat" where
  "inFlightCount cl = length (filter (\<lambda>(g, s). gs_call s \<noteq> None) (cl_groups cl))"

text \<open>The destructor: every call is marked cancelled, and one still running is cancelled.\<close>

definition destroy_client :: "scan_client \<Rightarrow> scan_client" where
  "destroy_client cl = cl\<lparr>
     cl_groups := map (\<lambda>(g, s). (g, s\<lparr>gs_call := map_option (\<lambda>c. c\<lparr>ca_cancelled := True\<rparr>) (gs_call s)\<rparr>))
                    (cl_groups cl),
     cl_actions := cl_actions cl @
       concat (map (\<lambda>(g, s). case gs_call s of
           Some c \<Rightarrow> if \<not> ca_completed c then [TCancel g] else [] | None \<Rightarrow> []) (cl_groups cl))\<rparr>"

section \<open>Calls and slots\<close>

text \<open>What the source sees of the client: which groups it knows, and each group's call.\<close>

definition known :: "scan_client \<Rightarrow> u32 \<Rightarrow> bool" where
  "known cl g \<longleftrightarrow> map_of (cl_groups cl) g \<noteq> None"

definition call_of :: "scan_client \<Rightarrow> u32 \<Rightarrow> call option" where
  "call_of cl g = (case map_of (cl_groups cl) g of None \<Rightarrow> None | Some s \<Rightarrow> gs_call s)"

definition usable :: "call \<Rightarrow> bool" where
  "usable c \<longleftrightarrow> ca_completed c \<and> ca_failed c = None \<and> rs_status (ca_response c) = ScanSuccess"

lemma cl_groups_act [simp]: "cl_groups (act a cl) = cl_groups cl"
  by (simp add: act_def)

lemma cl_options_act [simp]: "cl_options (act a cl) = cl_options cl"
  by (simp add: act_def)

lemma cl_actions_act [simp]: "cl_actions (act a cl) = cl_actions cl @ [a]"
  by (simp add: act_def)

lemma put_group_simps [simp]:
  "cl_groups (put_group g s cl) = om_put g s (cl_groups cl)"
  "cl_options (put_group g s cl) = cl_options cl"
  "cl_actions (put_group g s cl) = cl_actions cl"
  "cl_notifications (put_group g s cl) = cl_notifications cl"
  by (simp_all add: put_group_def)

lemma known_put_group [simp]: "known (put_group g s cl) h \<longleftrightarrow> h = g \<or> known cl h"
  by (simp add: known_def)

lemma known_act [simp]: "known (act a cl) = known cl"
  by (simp add: known_def fun_eq_iff)

lemma call_of_put_group: "call_of (put_group g s cl) h = (if h = g then gs_call s else call_of cl h)"
  by (simp add: call_of_def)

lemma call_of_act [simp]: "call_of (act a cl) = call_of cl"
  by (simp add: call_of_def fun_eq_iff)

lemma client_group_Inr: "client_group cl g = Inr s \<longleftrightarrow> map_of (cl_groups cl) g = Some s"
  by (simp add: client_group_def split: option.splits)

lemma client_group_known: "known cl g \<Longrightarrow> \<exists>s. client_group cl g = Inr s"
  by (auto simp: client_group_def known_def)

lemma gs_call_backOff [simp]: "gs_call (backOff opts now s) = gs_call s"
  by (simp add: backOff_def)

lemma inFlight_call: "known cl g \<Longrightarrow> inFlight cl g = Inr (call_of cl g \<noteq> None)"
  by (auto simp: inFlight_def client_group_def known_def call_of_def)

lemma readyAt_known: "known cl g \<Longrightarrow> \<exists>t. readyAt cl g = Inr t"
  by (auto simp: readyAt_def client_group_def known_def)

lemma deferUntil_known: "known cl g \<Longrightarrow> \<exists>cl'. deferUntil g t cl = Inr cl'"
  by (auto simp: deferUntil_def client_group_def known_def)

lemma deferUntil_frame:
  "deferUntil g t cl = Inr cl' \<Longrightarrow> known cl' = known cl \<and> call_of cl' = call_of cl"
  by (auto simp: deferUntil_def client_group_Inr fun_eq_iff call_of_put_group known_def call_of_def
      split: if_splits)

lemma issue_known:
  "known cl g \<Longrightarrow> call_of cl g = None \<Longrightarrow> \<exists>cl'. issue g rq t now cl = Inr cl'"
  by (auto simp: issue_def client_group_def known_def call_of_def Let_def)

lemma issue_frame:
  assumes "issue g rq t now cl = Inr cl'"
  shows "known cl' = known cl \<and> call_of cl g = None \<and>
    (\<exists>c. ca_request c = rq \<and> \<not> ca_completed c \<and> call_of cl' = (call_of cl)(g \<mapsto> c))"
  using assms
  by (auto simp: issue_def client_group_Inr fun_eq_iff call_of_put_group known_def call_of_def Let_def
      split: if_splits)

lemma scan_done_frame:
  "known (scan_done g ou now cl) = known cl \<and>
   (call_of (scan_done g ou now cl) = call_of cl \<or>
    (\<exists>c c'. call_of cl g = Some c \<and> \<not> ca_completed c \<and> ca_request c' = ca_request c \<and> ca_completed c' \<and>
       ca_failed c' = ou_failed ou \<and> ca_response c' = ou_response ou \<and>
       call_of (scan_done g ou now cl) = (call_of cl)(g \<mapsto> c')))"
  by (auto simp: scan_done_def Let_def fun_eq_iff known_def call_of_def split: option.splits)

lemma takeNotLeader_groups:
  "\<exists>s'. map_of (cl_groups (takeNotLeader nba g c s now now' cl)) = (map_of (cl_groups cl))(g \<mapsto> s') \<and>
     gs_call s' = gs_call s"
  by (auto simp: takeNotLeader_def Let_def split: option.splits)

lemma takeCompleted_known:
  "known cl g \<Longrightarrow> \<exists>x. takeCompleted nba g now now' cl = Inr x"
  by (auto simp: takeCompleted_def client_group_def known_def Let_def
      split: option.splits rpc_failure.splits scan_status.splits)

lemma takeCompleted_None:
  assumes "takeCompleted nba g now now' cl = Inr (None, cl')"
  shows "cl' = cl"
proof -
  obtain s where s: "client_group cl g = Inr s"
    using assms by (auto simp: takeCompleted_def)
  show ?thesis
  proof (cases "gs_call s")
    case (Some c)
    then show ?thesis
      using assms s
      by (cases "ca_completed c"; cases "ca_failed c"; cases "the (ca_failed c)"; cases "rs_status (ca_response c)")
        (auto simp: takeCompleted_def Let_def)
  qed (use assms s in \<open>simp add: takeCompleted_def\<close>)
qed

lemma takeCompleted_Some:
  assumes "takeCompleted nba g now now' cl = Inr (Some cmpl, cl')"
  shows "known cl' = known cl \<and> call_of cl' = (call_of cl)(g := None) \<and>
    (\<exists>c. call_of cl g = Some c \<and> ca_completed c \<and> cp_request cmpl = ca_request c \<and>
       (cp_status cmpl = kOk \<longleftrightarrow> usable c) \<and>
       (cp_status cmpl = kOk \<longrightarrow> cp_response cmpl = Some (ca_response c)))"
proof -
  obtain s where sg: "map_of (cl_groups cl) g = Some s"
    using assms by (auto simp: takeCompleted_def client_group_Inr)
  moreover obtain c where "gs_call s = Some c" "ca_completed c"
    using assms sg by (cases "gs_call s") (auto simp: takeCompleted_def client_group_def split: if_splits)
  ultimately have s: "map_of (cl_groups cl) g = Some s" "gs_call s = Some c" "ca_completed c"
    by simp_all
  obtain s' where s': "map_of (cl_groups (takeNotLeader nba g c (s\<lparr>gs_call := None\<rparr>) now now' cl))
      = (map_of (cl_groups cl))(g \<mapsto> s')" "gs_call s' = None"
    using takeNotLeader_groups [of nba g c "s\<lparr>gs_call := None\<rparr>" now now' cl] by auto
  have "\<exists>s''. map_of (cl_groups cl') = (map_of (cl_groups cl))(g \<mapsto> s'') \<and> gs_call s'' = None"
    using assms s s'
    by (cases "ca_failed c"; cases "the (ca_failed c)"; cases "rs_status (ca_response c)")
      (auto simp: takeCompleted_def client_group_def Let_def)
  then have "known cl' = known cl \<and> call_of cl' = (call_of cl)(g := None)"
    using s(1) by (auto simp: known_def call_of_def fun_eq_iff split: if_splits)
  moreover have "call_of cl g = Some c"
    using s by (simp add: call_of_def)
  moreover have "cp_request cmpl = ca_request c \<and> (cp_status cmpl = kOk \<longleftrightarrow> usable c) \<and>
      (cp_status cmpl = kOk \<longrightarrow> cp_response cmpl = Some (ca_response c))"
    using assms s
    by (cases "ca_failed c"; cases "the (ca_failed c)"; cases "rs_status (ca_response c)")
      (auto simp: takeCompleted_def client_group_def Let_def make_completion_def usable_def)
  ultimately show ?thesis using s(3) by blast
qed

section \<open>The retry policy\<close>

definition client_inv :: "scan_client \<Rightarrow> bool" where
  "client_inv cl \<longleftrightarrow> om_inv (cl_groups cl) \<and> 0 < co_retryBackoffInitial (cl_options cl) \<and>
     co_retryBackoffInitial (cl_options cl) \<le> co_retryBackoffMax (cl_options cl) \<and>
     (\<forall>g s. map_of (cl_groups cl) g = Some s \<longrightarrow>
        co_retryBackoffInitial (cl_options cl) \<le> gs_backoff s \<and> gs_backoff s \<le> co_retryBackoffMax (cl_options cl))"

lemma client_inv_put:
  assumes "client_inv cl" "cl_options cl' = cl_options cl" "cl_groups cl' = om_put g s (cl_groups cl)"
    and "co_retryBackoffInitial (cl_options cl) \<le> gs_backoff s" "gs_backoff s \<le> co_retryBackoffMax (cl_options cl)"
  shows "client_inv cl'"
  using assms by (auto simp: client_inv_def om_inv_om_put split: if_splits)

lemma make_client_groups:
  "map_of (cl_groups (make_client ids opts)) g =
     (if g \<in> set ids then Some (fresh_group (co_retryBackoffInitial opts)) else None)"
proof -
  have "map_of (fold (\<lambda>g. om_put g (fresh_group (co_retryBackoffInitial opts))) ids m) g =
     (if g \<in> set ids then Some (fresh_group (co_retryBackoffInitial opts)) else map_of m g)" for m
    by (induction ids arbitrary: m) auto
  then show ?thesis by (simp add: make_client_def)
qed

lemma make_client_inv:
  assumes "0 < co_retryBackoffInitial opts" "co_retryBackoffInitial opts \<le> co_retryBackoffMax opts"
  shows "client_inv (make_client ids opts)"
proof -
  have "om_inv (fold (\<lambda>g. om_put g v) ids m)" if "om_inv m" for m and v :: group_state
    using that by (induction ids arbitrary: m) (auto simp: om_inv_om_put)
  then have "om_inv (cl_groups (make_client ids opts))"
    by (simp add: make_client_def om_inv_def)
  moreover have "cl_options (make_client ids opts) = opts"
    by (simp add: make_client_def)
  ultimately show ?thesis
    using assms by (auto simp: client_inv_def make_client_groups fresh_group_def split: if_splits)
qed

text \<open>How a call that came back without a page leaves its group: held back, or following a redirect.\<close>

definition backed_off :: "client_options \<Rightarrow> int \<Rightarrow> group_state \<Rightarrow> group_state \<Rightarrow> bool" where
  "backed_off opts now' s s' \<longleftrightarrow> now' + gs_backoff s \<le> gs_readyAt s' \<and>
     gs_backoff s' = min (gs_backoff s * 2) (co_retryBackoffMax opts)"

definition followed :: "int \<Rightarrow> u32 \<Rightarrow> call \<Rightarrow> group_state \<Rightarrow> group_state \<Rightarrow> transport_action list \<Rightarrow> bool" where
  "followed now g c s s' actions \<longleftrightarrow> (\<exists>n. actions = [TFollow g n] \<and> ca_targetNode c \<noteq> Some n) \<and>
     gs_backoff s \<le> now - gs_lastFollowAt s \<and> gs_readyAt s' = now \<and> gs_lastFollowAt s' = now \<and>
     gs_backoff s' = gs_backoff s"

lemma takeNotLeader_policy:
  "\<exists>s' acts. cl_groups (takeNotLeader nba g c s now now' cl) = om_put g s' (cl_groups cl) \<and>
     cl_options (takeNotLeader nba g c s now now' cl) = cl_options cl \<and>
     cl_actions (takeNotLeader nba g c s now now' cl) = cl_actions cl @ acts \<and> gs_call s' = gs_call s \<and>
     (backed_off (cl_options cl) now' s s' \<or> followed now g c s s' acts)"
  by (auto simp: takeNotLeader_def Let_def backOff_def backed_off_def followed_def split: option.splits)

lemma takeCompleted_policy:
  assumes "map_of (cl_groups cl) g = Some s0" "gs_call s0 = Some c" "ca_completed c"
  shows "\<exists>cmpl cl' s' acts. takeCompleted nba g now now' cl = Inr (Some cmpl, cl') \<and>
    cl_groups cl' = om_put g s' (cl_groups cl) \<and> cl_options cl' = cl_options cl \<and>
    cl_actions cl' = cl_actions cl @ acts \<and> gs_call s' = None \<and> cp_request cmpl = ca_request c \<and>
    (case cp_status cmpl of
       kOk \<Rightarrow> usable c \<and> cp_response cmpl = Some (ca_response c) \<and>
         gs_backoff s' = co_retryBackoffInitial (cl_options cl) \<and> acts = []
     | kRetry \<Rightarrow> \<not> usable c \<and> (backed_off (cl_options cl) now' s0 s' \<or> followed now g c s0 s' acts)
     | kPositionTruncated \<Rightarrow> ca_failed c = None \<and> rs_status (ca_response c) = ScanPositionTruncated \<and>
         gs_backoff s' = gs_backoff s0
     | kUnsupported \<Rightarrow> ca_failed c = Some NoMethod \<and> gs_backoff s' = gs_backoff s0)"
proof -
  let ?s = "s0\<lparr>gs_call := None\<rparr>"
  have nl: "\<exists>s' acts. cl_groups (takeNotLeader nba g c ?s now now' cl) = om_put g s' (cl_groups cl) \<and>
     cl_options (takeNotLeader nba g c ?s now now' cl) = cl_options cl \<and>
     cl_actions (takeNotLeader nba g c ?s now now' cl) = cl_actions cl @ acts \<and> gs_call s' = None \<and>
     (backed_off (cl_options cl) now' s0 s' \<or> followed now g c s0 s' acts)"
    using takeNotLeader_policy [of nba g c ?s now now' cl] by (simp add: backed_off_def followed_def)
  show ?thesis
    using assms nl
    by (cases "ca_failed c"; cases "the (ca_failed c)"; cases "rs_status (ca_response c)")
      (simp_all add: takeCompleted_def client_group_def Let_def make_completion_def usable_def
        backOff_def backed_off_def, fastforce+)
qed

lemma all_cancelled_scan_done:
  assumes "\<forall>g c. call_of cl g = Some c \<longrightarrow> ca_cancelled c"
  shows "cl_notifications (scan_done g ou now cl) = cl_notifications cl \<and>
    (\<forall>h c. call_of (scan_done g ou now cl) h = Some c \<longrightarrow> ca_cancelled c)"
  using assms
  by (auto simp: scan_done_def Let_def call_of_def split: option.splits if_splits)

lemma all_cancelled_arrivals:
  assumes "\<forall>g c. call_of cl g = Some c \<longrightarrow> ca_cancelled c"
  shows "cl_notifications (fold (\<lambda>(g, ou, now). scan_done g ou now) arr cl) = cl_notifications cl"
  using assms
proof (induction arr arbitrary: cl)
  case (Cons a arr)
  then show ?case
    using all_cancelled_scan_done [OF Cons.prems] by (cases a) auto
qed simp

lemma map_of_destroy:
  "map_of (cl_groups (destroy_client cl)) g =
     map_option (\<lambda>s. s\<lparr>gs_call := map_option (\<lambda>c. c\<lparr>ca_cancelled := True\<rparr>) (gs_call s)\<rparr>) (map_of (cl_groups cl) g)"
proof -
  have "map_of (map (\<lambda>(g, s). (g, f s)) m) g = map_option f (map_of m g)"
    for f :: "group_state \<Rightarrow> group_state" and m
    by (induction m) auto
  then show ?thesis by (simp add: destroy_client_def)
qed

section \<open>Properties\<close>


definition sample_request :: scan_request where
  "sample_request = \<lparr>rq_log_group_id = 0, rq_start = StartFromTs 5, rq_max_bytes = 100, rq_wait_ms = 0\<rparr>"

definition sample_call :: call where
  "sample_call = \<lparr>ca_completed = True, ca_cancelled = False, ca_failed = None, ca_request = sample_request,
     ca_response = empty_response\<lparr>rs_status := ScanNotLeader, rs_redirect := [1]\<rparr>, ca_targetNode = Some 0,
     ca_issuedAt = 1000, ca_completedAt = 1001\<rparr>"

definition sample_client :: scan_client where
  "sample_client = put_group 0 (fresh_group 50\<lparr>gs_call := Some sample_call\<rparr>) (make_client [0, 1] default_client_options)"

lemma sample_client_inv: "client_inv sample_client"
  unfolding sample_client_def
  by (rule client_inv_put [OF make_client_inv [of default_client_options "[0, 1]"],
        where g = 0 and s = "fresh_group 50\<lparr>gs_call := Some sample_call\<rparr>"])
    (simp_all add: default_client_options_def make_client_def fresh_group_def)



end
