(* ===== verification/Scan_Source.thy ===== *)
theory Scan_Source
  imports Scan_Client
begin

text \<open>
  The scan source (\<open>cdc/cdc_scan_source.h\<close>, \<open>.cpp\<close>): fetches every log group's records through the
  scan client and releases them one at a time, merged by timestamp under the emission rule.

  The source waits on its wait object between passes of its two loops (\<open>fixStart\<close> and \<open>next\<close>),
  while callbacks complete calls. A pass is a function; a run is a sequence of inputs, each a pass
  with its clock readings or a callback. \<open>bsz\<close> is the protobuf size of a page and \<open>nba\<close> the
  transport's address lookup. The clock is read once per phase of a pass.
\<close>

section \<open>State\<close>

record source_options =
  sp_bufferBytes :: int
  sp_maxBytesPerScan :: u32
  sp_maxWait :: int
  sp_rpcSlack :: int
  sp_idleBackoffInitial :: int
  sp_idleBackoffMax :: int
  sp_client :: client_options

definition default_source_options :: source_options where
  "default_source_options = \<lparr>sp_bufferBytes = 64 * 1024 * 1024, sp_maxBytesPerScan = 4 * 1024 * 1024,
     sp_maxWait = 30000, sp_rpcSlack = 5000, sp_idleBackoffInitial = 100, sp_idleBackoffMax = 1000,
     sp_client = default_client_options\<rparr>"

definition kShortestLongPoll :: int where
  "kShortestLongPoll = 20"

record source_record =
  sr_logGroupId :: u32
  sr_item :: log_item

definition sr_timestamp :: "source_record \<Rightarrow> u64" where
  "sr_timestamp r = item_ts (sr_item r)"

record scan_page =
  pg_response :: scan_response
  pg_dataIndex :: nat
  pg_ddlIndex :: nat
  pg_bytes :: int

record source_group =
  sg_id :: u32
  sg_started :: bool
  sg_haveContinuation :: bool
  sg_continuation :: bytes
  sg_fromTs :: u64
  sg_arrivalCompleteTs :: u64
  sg_scannedTs :: u64
  sg_pages :: "scan_page list"
  sg_idleBackoff :: int

record scan_source =
  ss_options :: source_options
  ss_groups :: "source_group list"
  ss_client :: scan_client
  ss_bufferedBytes :: int
  ss_drained :: bool

datatype stream_kind = StreamData | StreamDdl

definition make_source :: "u32 list \<Rightarrow> source_options \<Rightarrow> scan_source result" where
  "make_source ids opts = rbind (rguard (ids \<noteq> []) InvariantFailure) (\<lambda>_. Inr
     \<lparr>ss_options = opts,
      ss_groups = map (\<lambda>g. \<lparr>sg_id = g, sg_started = False, sg_haveContinuation = False, sg_continuation = [],
        sg_fromTs = 0, sg_arrivalCompleteTs = 0, sg_scannedTs = 0, sg_pages = [],
        sg_idleBackoff = sp_idleBackoffInitial opts\<rparr>) ids,
      ss_client = make_client ids (sp_client opts), ss_bufferedBytes = 0, ss_drained = False\<rparr>)"

section \<open>Starting\<close>

definition start_group :: "u64 \<Rightarrow> source_group \<Rightarrow> source_group" where
  "start_group fromTs g = g\<lparr>sg_started := True, sg_haveContinuation := False, sg_continuation := [],
     sg_fromTs := fromTs, sg_scannedTs := fromTs - 1\<rparr>"

text \<open>\<open>startAt\<close>; the first group with the id is the one started, and an unknown id is unreachable code.\<close>

fun start_in :: "u32 \<Rightarrow> u64 \<Rightarrow> source_group list \<Rightarrow> source_group list result" where
  "start_in gid fromTs [] = Inl InvariantFailure"
| "start_in gid fromTs (g # gs) =
     (if sg_id g = gid then
        rbind (rguard (sg_pages g = []) InvariantFailure) (\<lambda>_. Inr (start_group fromTs g # gs))
      else rbind (start_in gid fromTs gs) (\<lambda>gs'. Inr (g # gs')))"

definition startAt :: "u32 \<Rightarrow> u64 \<Rightarrow> scan_source \<Rightarrow> scan_source result" where
  "startAt gid fromTs st = rbind (rguard (fromTs \<ge> 1) InvariantFailure) (\<lambda>_.
     rbind (start_in gid fromTs (ss_groups st)) (\<lambda>gs. Inr (st\<lparr>ss_groups := gs\<rparr>)))"

definition startAllAt :: "u64 \<Rightarrow> scan_source \<Rightarrow> scan_source result" where
  "startAllAt fromTs st = foldl (\<lambda>r gid. rbind r (startAt gid fromTs)) (Inr st) (map sg_id (ss_groups st))"

definition emitBound :: "scan_source \<Rightarrow> u64" where
  "emitBound st = foldl (\<lambda>b g. min b (sg_scannedTs g)) (-1) (ss_groups st)"

section \<open>Buffered records\<close>

definition page_haveData :: "scan_page \<Rightarrow> bool" where
  "page_haveData p \<longleftrightarrow> pg_dataIndex p < length (rs_data (pg_response p))"

definition page_haveDdl :: "scan_page \<Rightarrow> bool" where
  "page_haveDdl p \<longleftrightarrow> pg_ddlIndex p < length (rs_ddl (pg_response p))"

text \<open>The loop of \<open>_head\<close> that drops released pages; the second component is the bytes freed.\<close>

fun drop_released :: "scan_page list \<Rightarrow> scan_page list \<times> int" where
  "drop_released [] = ([], 0)"
| "drop_released (p # ps) =
     (if \<not> page_haveData p \<and> \<not> page_haveDdl p
      then (let (ps', freed) = drop_released ps in (ps', freed + pg_bytes p))
      else (p # ps, 0))"

definition page_head :: "scan_page \<Rightarrow> u64 \<times> stream_kind" where
  "page_head p =
     (let dataTs = (if page_haveData p then dr_commit_ts (rs_data (pg_response p) ! pg_dataIndex p) else -1);
          ddlTs = (if page_haveDdl p then dd_ddl_ts (rs_ddl (pg_response p) ! pg_ddlIndex p) else -1)
      in if page_haveData p \<and> dataTs \<le> ddlTs then (dataTs, StreamData) else (ddlTs, StreamDdl))"

text \<open>\<open>_head\<close>: the head, the group without its released pages, and the bytes freed.\<close>

definition source_head :: "source_group \<Rightarrow> (u64 \<times> stream_kind) option \<times> source_group \<times> int" where
  "source_head g = (case drop_released (sg_pages g) of
       ([], freed) \<Rightarrow> (None, g\<lparr>sg_pages := []\<rparr>, freed)
     | (p # ps, freed) \<Rightarrow> (Some (page_head p), g\<lparr>sg_pages := p # ps\<rparr>, freed))"

text \<open>\<open>_head\<close> run over every group in order, as both callers do.\<close>

definition heads :: "scan_source \<Rightarrow> (u64 \<times> stream_kind) option list \<times> scan_source" where
  "heads st = (let hs = map source_head (ss_groups st) in
     (map fst hs, st\<lparr>ss_groups := map (fst \<circ> snd) hs,
                     ss_bufferedBytes := ss_bufferedBytes st - sum_list (map (snd \<circ> snd) hs)\<rparr>))"

text \<open>The strictly lowest head; a tie goes to the earlier group.\<close>

fun choose_head :: "(u64 \<times> stream_kind) option list \<Rightarrow> nat \<Rightarrow> (nat \<times> u64 \<times> stream_kind) option
    \<Rightarrow> (nat \<times> u64 \<times> stream_kind) option" where
  "choose_head [] i best = best"
| "choose_head (None # hs) i best = choose_head hs (Suc i) best"
| "choose_head (Some (ts, k) # hs) i best =
     (case best of
        None \<Rightarrow> choose_head hs (Suc i) (Some (i, ts, k))
      | Some (j, bts, bk) \<Rightarrow> choose_head hs (Suc i) (if ts < bts then Some (i, ts, k) else best))"

definition release_from :: "source_group \<Rightarrow> scan_page \<Rightarrow> scan_page list \<Rightarrow> stream_kind \<Rightarrow> source_record \<times> source_group" where
  "release_from g p ps k =
     (if k = StreamData then
        (\<lparr>sr_logGroupId = sg_id g, sr_item = DataItem (rs_data (pg_response p) ! pg_dataIndex p)\<rparr>,
         g\<lparr>sg_pages := p\<lparr>pg_dataIndex := pg_dataIndex p + 1\<rparr> # ps\<rparr>)
      else
        (\<lparr>sr_logGroupId = sg_id g, sr_item = DdlItem (rs_ddl (pg_response p) ! pg_ddlIndex p)\<rparr>,
         g\<lparr>sg_pages := p\<lparr>pg_ddlIndex := pg_ddlIndex p + 1\<rparr> # ps\<rparr>))"

definition emission_blocked :: "source_group list \<Rightarrow> nat \<Rightarrow> u64 \<Rightarrow> bool" where
  "emission_blocked gs i ts \<longleftrightarrow>
     list_ex (\<lambda>(j, g). j \<noteq> i \<and> sg_scannedTs g + 1 < ts) (zip [0..<length gs] gs)"

text \<open>The chosen group has a head, so its deque is not empty; the first case is not reached.\<close>

definition pickReleasable :: "scan_source \<Rightarrow> source_record option \<times> scan_source" where
  "pickReleasable st0 = (let (hs, st) = heads st0 in
     case choose_head hs 0 None of
       None \<Rightarrow> (None, st)
     | Some (i, ts, k) \<Rightarrow>
         if emission_blocked (ss_groups st) i ts then (None, st)
         else (case sg_pages (ss_groups st ! i) of
             [] \<Rightarrow> (None, st)
           | p # ps \<Rightarrow> (let (r, g') = release_from (ss_groups st ! i) p ps k
               in (Some r, st\<lparr>ss_groups := (ss_groups st)[i := g']\<rparr>))))"

section \<open>Completed scans\<close>

definition pauseIfIdleEarly ::
  "source_options \<Rightarrow> completion \<Rightarrow> scan_response \<Rightarrow> u64 \<Rightarrow> int \<Rightarrow> source_group \<Rightarrow> scan_client
     \<Rightarrow> (source_group \<times> scan_client) result" where
  "pauseIfIdleEarly opts cmpl resp previousBound now g cl =
     (let isEmpty = (rs_data resp = [] \<and> rs_ddl resp = []) in
      if \<not> isEmpty \<or> rs_has_more resp \<or> sg_arrivalCompleteTs g > previousBound
      then Inr (g\<lparr>sg_idleBackoff := sp_idleBackoffInitial opts\<rparr>, cl)
      else (let asked = uint (rq_wait_ms (cp_request cmpl));
                waited = cp_completedAt cmpl - cp_issuedAt cmpl
            in if asked \<ge> kShortestLongPoll \<and> waited * 2 \<ge> asked then Inr (g, cl)
               else rbind (deferUntil (sg_id g) (now + sg_idleBackoff g) cl) (\<lambda>cl'.
                 Inr (g\<lparr>sg_idleBackoff := min (sg_idleBackoff g * 2) (sp_idleBackoffMax opts)\<rparr>, cl'))))"

definition page_lastTs :: "scan_response \<Rightarrow> u64" where
  "page_lastTs resp =
     (let lastTs = (if rs_data resp \<noteq> [] then dr_commit_ts (last (rs_data resp)) else 0)
      in if rs_ddl resp \<noteq> [] then max lastTs (dd_ddl_ts (last (rs_ddl resp))) else lastTs)"

definition admit_scanned :: "scan_response \<Rightarrow> u64 \<Rightarrow> u64" where
  "admit_scanned resp scannedTs =
     (if rs_has_more resp then
        (if page_lastTs resp > 0 then max scannedTs (page_lastTs resp - 1) else scannedTs)
      else max scannedTs (rs_arrival_complete_ts resp))"

definition admit ::
  "(scan_response \<Rightarrow> int) \<Rightarrow> source_options \<Rightarrow> completion \<Rightarrow> scan_response \<Rightarrow> int \<Rightarrow> source_group
     \<Rightarrow> scan_client \<Rightarrow> int \<Rightarrow> (source_group \<times> scan_client \<times> int) result" where
  "admit bsz opts cmpl resp now g cl buffered =
     (let previousBound = sg_arrivalCompleteTs g;
          g1 = g\<lparr>sg_arrivalCompleteTs := max previousBound (rs_arrival_complete_ts resp),
                 sg_continuation := rs_continuation resp, sg_haveContinuation := True,
                 sg_scannedTs := admit_scanned resp (sg_scannedTs g)\<rparr>;
          nonempty = (rs_data resp \<noteq> [] \<or> rs_ddl resp \<noteq> []);
          g2 = (if nonempty then g1\<lparr>sg_pages := sg_pages g1 @
                  [\<lparr>pg_response = resp, pg_dataIndex = 0, pg_ddlIndex = 0, pg_bytes = bsz resp\<rparr>]\<rparr> else g1);
          buffered' = (if nonempty then buffered + bsz resp else buffered)
      in rbind (pauseIfIdleEarly opts cmpl resp previousBound now g2 cl) (\<lambda>(g3, cl').
         Inr (g3, cl', buffered')))"

fun collect_groups ::
  "(u32 \<Rightarrow> bytes \<Rightarrow> u32 option) \<Rightarrow> (scan_response \<Rightarrow> int) \<Rightarrow> source_options \<Rightarrow> int \<Rightarrow> source_group list
     \<Rightarrow> scan_client \<Rightarrow> int \<Rightarrow> (source_group list \<times> scan_client \<times> int) result" where
  "collect_groups nba bsz opts now [] cl buffered = Inr ([], cl, buffered)"
| "collect_groups nba bsz opts now (g # gs) cl buffered =
     rbind (takeCompleted nba (sg_id g) now now cl) (\<lambda>(taken, cl1).
     rbind (case taken of
         None \<Rightarrow> Inr (g, cl1, buffered)
       | Some cmpl \<Rightarrow> (case cp_status cmpl of
             kOk \<Rightarrow> (case cp_response cmpl of
                 Some resp \<Rightarrow> admit bsz opts cmpl resp now g cl1 buffered
               | None \<Rightarrow> Inl InvariantFailure)
           | kRetry \<Rightarrow> Inr (g, cl1, buffered)
           | kPositionTruncated \<Rightarrow> Inl ChangeStreamHistoryLost
           | kUnsupported \<Rightarrow> Inl CommandNotSupported)) (\<lambda>(g', cl2, buffered2).
     rbind (collect_groups nba bsz opts now gs cl2 buffered2) (\<lambda>(gs', cl3, buffered3).
     Inr (g' # gs', cl3, buffered3))))"

definition collectCompletions ::
  "(u32 \<Rightarrow> bytes \<Rightarrow> u32 option) \<Rightarrow> (scan_response \<Rightarrow> int) \<Rightarrow> int \<Rightarrow> scan_source \<Rightarrow> scan_source result" where
  "collectCompletions nba bsz now st =
     rbind (collect_groups nba bsz (ss_options st) now (ss_groups st) (ss_client st) (ss_bufferedBytes st))
       (\<lambda>(gs, cl, buffered). Inr (st\<lparr>ss_groups := gs, ss_client := cl, ss_bufferedBytes := buffered\<rparr>))"

section \<open>Issuing scans\<close>

definition waitMs :: "source_options \<Rightarrow> int \<Rightarrow> int \<Rightarrow> u32" where
  "waitMs opts deadline now =
     (let remaining = deadline - now in
      if remaining \<le> 0 then 0 else of_int (min remaining (sp_maxWait opts)))"

definition scanRequest :: "source_options \<Rightarrow> source_group \<Rightarrow> int \<Rightarrow> int \<Rightarrow> scan_request" where
  "scanRequest opts g deadline now = \<lparr>rq_log_group_id = sg_id g,
     rq_start = (if sg_haveContinuation g then StartContinuation (sg_continuation g)
                 else StartFromTs (sg_fromTs g)),
     rq_max_bytes = sp_maxBytesPerScan opts, rq_wait_ms = waitMs opts deadline now\<rparr>"

definition lowest_buffered :: "(u64 \<times> stream_kind) option list \<Rightarrow> u64 option" where
  "lowest_buffered hs = foldl (\<lambda>low h. case h of None \<Rightarrow> low
     | Some (ts, k) \<Rightarrow> Some (case low of None \<Rightarrow> ts | Some l \<Rightarrow> min l ts)) None hs"

definition group_lagging :: "u64 option \<Rightarrow> source_group \<Rightarrow> bool" where
  "group_lagging low g \<longleftrightarrow> (case low of None \<Rightarrow> False | Some l \<Rightarrow> sg_scannedTs g + 1 < l)"

fun issue_groups ::
  "source_options \<Rightarrow> int \<Rightarrow> int \<Rightarrow> u64 option \<Rightarrow> int \<Rightarrow> (source_group \<times> bool) list \<Rightarrow> scan_client
     \<Rightarrow> scan_client result" where
  "issue_groups opts deadline now low buffered [] cl = Inr cl"
| "issue_groups opts deadline now low buffered ((g, haveBuffered) # gs) cl =
     rbind (inFlight cl (sg_id g)) (\<lambda>busy. rbind (readyAt cl (sg_id g)) (\<lambda>ready.
     rbind
       (if busy \<or> ready > now then Inr cl
        else if haveBuffered \<and> \<not> group_lagging low g then Inr cl
        else if \<not> group_lagging low g \<and>
            buffered + int (inFlightCount cl) * uint (sp_maxBytesPerScan opts) \<ge> sp_bufferBytes opts
          then Inr cl
        else (let request = scanRequest opts g deadline now
              in issue (sg_id g) request (uint (rq_wait_ms request) + sp_rpcSlack opts) now cl))
       (issue_groups opts deadline now low buffered gs)))"

definition issueScans :: "int \<Rightarrow> int \<Rightarrow> scan_source \<Rightarrow> scan_source result" where
  "issueScans deadline now st0 = (let (hs, st) = heads st0 in
     rbind (issue_groups (ss_options st) deadline now (lowest_buffered hs) (ss_bufferedBytes st)
              (zip (ss_groups st) (map (\<lambda>h. h \<noteq> None) hs)) (ss_client st)) (\<lambda>cl.
     Inr (st\<lparr>ss_client := cl\<rparr>)))"

text \<open>\<open>Date_t::max()\<close> stands for no deferred group.\<close>

definition date_max :: int where
  "date_max = 9223372036854775807"

definition earliestDeferredReady :: "int \<Rightarrow> scan_source \<Rightarrow> int result" where
  "earliestDeferredReady now st = foldl (\<lambda>r g. rbind r (\<lambda>earliest.
     rbind (readyAt (ss_client st) (sg_id g)) (\<lambda>ready.
     rbind (inFlight (ss_client st) (sg_id g)) (\<lambda>busy.
     Inr (if \<not> busy \<and> ready > now then min earliest ready else earliest))))) (Inr date_max) (ss_groups st)"

section \<open>One pass of next\<close>

datatype pass_result = Released source_record | Drained | WaitUntil int

text \<open>Callbacks that run before an operation looks at the calls.\<close>

type_synonym arrivals = "(u32 \<times> call_outcome \<times> int) list"

definition arrive :: "arrivals \<Rightarrow> scan_source \<Rightarrow> scan_source" where
  "arrive arr st = st\<lparr>ss_client := fold (\<lambda>(g, ou, now). scan_done g ou now) arr (ss_client st)\<rparr>"

definition try_release :: "scan_source \<Rightarrow> source_record option \<times> scan_source" where
  "try_release st = (case pickReleasable st of
       (Some r, st') \<Rightarrow> (Some r, st'\<lparr>ss_drained := False\<rparr>)
     | (None, st') \<Rightarrow> (None, st'))"

text \<open>
  One turn of the loop in \<open>next\<close>: \<open>now1\<close> to \<open>now4\<close> are the clock at the first collection, when the
  scans are issued, at the second collection and at the deadline check; \<open>arr\<close> are the callbacks that
  run while the scans are issued.
\<close>

definition next_pass ::
  "(u32 \<Rightarrow> bytes \<Rightarrow> u32 option) \<Rightarrow> (scan_response \<Rightarrow> int) \<Rightarrow> bool \<Rightarrow> int \<Rightarrow> int \<times> int \<times> int \<times> int \<Rightarrow> arrivals
     \<Rightarrow> scan_source \<Rightarrow> (pass_result \<times> scan_source) result" where
  "next_pass nba bsz first deadline = (\<lambda>(now1, now2, now3, now4) arr st0.
     rbind (rguard (list_all sg_started (ss_groups st0)) InvariantFailure) (\<lambda>_.
     rbind (collectCompletions nba bsz now1 st0) (\<lambda>st1.
     case try_release st1 of
       (Some r, st2) \<Rightarrow> Inr (Released r, st2)
     | (None, st2) \<Rightarrow>
         rbind (if first \<or> deadline - now2 > kShortestLongPoll then
                  rbind (issueScans deadline now2 st2) (\<lambda>st3.
                  rbind (collectCompletions nba bsz now3 (arrive arr st3)) (\<lambda>st4.
                  Inr (try_release st4)))
                else Inr (None, st2)) (\<lambda>(released, st5).
         case released of
           Some r \<Rightarrow> Inr (Released r, st5)
         | None \<Rightarrow>
             if now4 \<ge> deadline then Inr (Drained, st5\<lparr>ss_drained := True\<rparr>)
             else rbind (earliestDeferredReady now4 st5) (\<lambda>ready.
               Inr (WaitUntil (min deadline ready), st5))))))"

section \<open>One pass of fixStart\<close>

text \<open>
  \<open>fixStart\<close> fixes where a stream without a token starts: every group is probed from the maximum
  timestamp until each has reported a bound. \<open>zeros\<close> is \<open>answeredZero\<close>.
\<close>

datatype fix_result = Fixed u64 | GaveUp | FixWait int

definition probe_request :: "source_options \<Rightarrow> u32 \<Rightarrow> bool \<Rightarrow> int \<Rightarrow> int \<Rightarrow> scan_request" where
  "probe_request opts gid answeredZero deadline now = \<lparr>rq_log_group_id = gid, rq_start = StartFromTs (-1),
     rq_max_bytes = 1, rq_wait_ms = (if answeredZero then waitMs opts deadline now else 0)\<rparr>"

fun probe_groups ::
  "source_options \<Rightarrow> bool \<Rightarrow> int \<Rightarrow> int \<Rightarrow> (source_group \<times> bool) list \<Rightarrow> scan_client \<Rightarrow> scan_client result" where
  "probe_groups opts first deadline now [] cl = Inr cl"
| "probe_groups opts first deadline now ((g, zero) # gs) cl =
     rbind (inFlight cl (sg_id g)) (\<lambda>busy. rbind (readyAt cl (sg_id g)) (\<lambda>ready.
     rbind
       (if (\<not> first \<and> deadline - now \<le> kShortestLongPoll) \<or> sg_arrivalCompleteTs g \<noteq> 0 \<or> busy \<or> ready > now
        then Inr cl
        else (let probe = probe_request opts (sg_id g) zero deadline now
              in issue (sg_id g) probe (uint (rq_wait_ms probe) + sp_rpcSlack opts) now cl))
       (probe_groups opts first deadline now gs)))"

fun take_probes ::
  "(u32 \<Rightarrow> bytes \<Rightarrow> u32 option) \<Rightarrow> source_options \<Rightarrow> int \<Rightarrow> (source_group \<times> bool) list \<Rightarrow> scan_client
     \<Rightarrow> ((source_group \<times> bool) list \<times> scan_client) result" where
  "take_probes nba opts now [] cl = Inr ([], cl)"
| "take_probes nba opts now ((g, zero) # gs) cl =
     rbind (takeCompleted nba (sg_id g) now now cl) (\<lambda>(taken, cl1).
     rbind (case taken of
         None \<Rightarrow> Inr ((g, zero), cl1)
       | Some cmpl \<Rightarrow>
           if cp_status cmpl = kUnsupported then Inl CommandNotSupported
           else if cp_status cmpl \<noteq> kOk then Inr ((g, zero), cl1)
           else (case cp_response cmpl of
               None \<Rightarrow> Inl InvariantFailure
             | Some resp \<Rightarrow>
                 (let previousBound = sg_arrivalCompleteTs g;
                      g1 = g\<lparr>sg_arrivalCompleteTs := max previousBound (rs_arrival_complete_ts resp)\<rparr>
                  in rbind (pauseIfIdleEarly opts cmpl resp previousBound now g1 cl1) (\<lambda>(g2, cl2).
                     Inr ((g2, sg_arrivalCompleteTs g1 = 0), cl2))))) (\<lambda>(gz, cl2).
     rbind (take_probes nba opts now gs cl2) (\<lambda>(rest, cl3). Inr (gz # rest, cl3))))"

definition lowest_bound :: "source_group list \<Rightarrow> u64" where
  "lowest_bound gs = foldl (\<lambda>b g. min b (sg_arrivalCompleteTs g)) (-1) gs"

definition probe_wakeAt :: "int \<Rightarrow> source_group list \<Rightarrow> scan_client \<Rightarrow> int result" where
  "probe_wakeAt deadline gs cl = foldl (\<lambda>r g. rbind r (\<lambda>wake.
     rbind (inFlight cl (sg_id g)) (\<lambda>busy. rbind (readyAt cl (sg_id g)) (\<lambda>ready.
     Inr (if sg_arrivalCompleteTs g = 0 \<and> \<not> busy then min wake ready else wake))))) (Inr deadline) gs"

definition fixStart_pass ::
  "(u32 \<Rightarrow> bytes \<Rightarrow> u32 option) \<Rightarrow> bool \<Rightarrow> int \<Rightarrow> int \<times> int \<times> int \<Rightarrow> arrivals \<Rightarrow> bool list \<Rightarrow> scan_source
     \<Rightarrow> (fix_result \<times> bool list \<times> scan_source) result" where
  "fixStart_pass nba first deadline = (\<lambda>(now1, now2, now3) arr zeros st0.
     rbind (rguard (list_all (\<lambda>g. \<not> sg_started g) (ss_groups st0)) InvariantFailure) (\<lambda>_.
     rbind (probe_groups (ss_options st0) first deadline now1 (zip (ss_groups st0) zeros) (ss_client st0)) (\<lambda>cl1.
     let st1 = arrive arr (st0\<lparr>ss_client := cl1\<rparr>) in
     rbind (take_probes nba (ss_options st1) now2 (zip (ss_groups st1) zeros) (ss_client st1)) (\<lambda>(gzs, cl2).
     let st2 = st1\<lparr>ss_groups := map fst gzs, ss_client := cl2\<rparr>;
         start = lowest_bound (ss_groups st2)
     in if start \<noteq> 0 then rbind (startAllAt (start + 1) st2) (\<lambda>st3. Inr (Fixed start, map snd gzs, st3))
        else if now3 \<ge> deadline then Inr (GaveUp, map snd gzs, st2)
        else rbind (probe_wakeAt deadline (ss_groups st2) cl2) (\<lambda>wake.
          Inr (FixWait wake, map snd gzs, st2))))))"

section \<open>Starting every group\<close>

lemma start_in_middle:
  "sg_id g \<notin> sg_id ` set pre \<Longrightarrow> sg_pages g = [] \<Longrightarrow>
     start_in (sg_id g) f (pre @ g # post) = Inr (pre @ start_group f g # post)"
  by (induction pre) auto

lemma startAllAt_groups:
  assumes "distinct (map sg_id gs)" "\<forall>g \<in> set gs. sg_pages g = []" "1 \<le> f" "ss_groups st = gs"
  shows "startAllAt f st = Inr (st\<lparr>ss_groups := map (start_group f) gs\<rparr>)"
proof -
  have "foldl (\<lambda>r gid. rbind r (startAt gid f)) (Inr (st\<lparr>ss_groups := map (start_group f) pre @ post\<rparr>)) (map sg_id post)
      = Inr (st\<lparr>ss_groups := map (start_group f) (pre @ post)\<rparr>)" if "gs = pre @ post" for pre post
    using that
  proof (induction post arbitrary: pre)
    case (Cons g post)
    have "sg_id g \<notin> sg_id ` set (map (start_group f) pre)"
      using assms(1) Cons.prems by (auto simp: start_group_def)
    from start_in_middle [OF this, of f post] have
      "startAt (sg_id g) f (st\<lparr>ss_groups := map (start_group f) pre @ g # post\<rparr>)
        = Inr (st\<lparr>ss_groups := map (start_group f) (pre @ [g]) @ post\<rparr>)"
      using assms(2,3) Cons.prems by (simp add: startAt_def rguard_def)
    then show ?case using Cons.IH [of "pre @ [g]"] Cons.prems by simp
  qed simp
  moreover have "st\<lparr>ss_groups := gs\<rparr> = st" using assms(4) by (cases st) simp
  ultimately show ?thesis using assms(4) by (metis append_Nil list.map(1) startAllAt_def)
qed

section \<open>Buffered records in order\<close>

definition page_rest :: "scan_page \<Rightarrow> log_item list" where
  "page_rest p = merge_streams (drop (pg_dataIndex p) (rs_data (pg_response p)))
     (drop (pg_ddlIndex p) (rs_ddl (pg_response p)))"

definition buffered :: "source_group \<Rightarrow> log_item list" where
  "buffered g = concat (map page_rest (sg_pages g))"

lemma page_rest_Nil: "page_rest p = [] \<longleftrightarrow> \<not> page_haveData p \<and> \<not> page_haveDdl p"
  by (auto simp: page_rest_def page_haveData_def page_haveDdl_def)

lemma drop_released_rest:
  "drop_released ps = (ps', freed) \<Longrightarrow>
     concat (map page_rest ps') = concat (map page_rest ps) \<and>
     freed = sum_list (map pg_bytes ps) - sum_list (map pg_bytes ps') \<and>
     (case ps' of [] \<Rightarrow> True | p # _ \<Rightarrow> page_rest p \<noteq> [])"
proof (induction ps arbitrary: ps' freed)
  case (Cons p ps)
  show ?case
  proof (cases "page_rest p = []")
    case True
    then show ?thesis
      using Cons by (fastforce simp: page_rest_Nil [of p, symmetric] split: prod.splits list.splits)
  next
    case False
    then show ?thesis
      using Cons.prems by (auto simp: page_rest_Nil [of p, symmetric] split: if_splits)
  qed
qed simp

text \<open>The head of a page is the first of its unreleased records, and releasing it leaves the others.\<close>

lemma merge_streams_data:
  "(\<And>e es'. es = e # es' \<Longrightarrow> dr_commit_ts d \<le> dd_ddl_ts e) \<Longrightarrow>
     merge_streams (d # ds) es = DataItem d # merge_streams ds es"
  by (cases es) simp_all

lemma merge_streams_ddl:
  "(\<And>d ds'. ds = d # ds' \<Longrightarrow> \<not> dr_commit_ts d \<le> dd_ddl_ts e) \<Longrightarrow>
     merge_streams ds (e # es) = DdlItem e # merge_streams ds es"
  by (cases ds) simp_all

lemma release_page:
  assumes "page_rest p \<noteq> []" "page_head p = (ts, k)"
  shows "\<exists>x g'. release_from g p ps k = (\<lparr>sr_logGroupId = sg_id g, sr_item = x\<rparr>, g') \<and> item_ts x = ts \<and>
    (\<exists>p'. g' = g\<lparr>sg_pages := p' # ps\<rparr> \<and> page_rest p = x # page_rest p' \<and> pg_bytes p' = pg_bytes p)"
proof -
  let ?data = "rs_data (pg_response p)" and ?ddl = "rs_ddl (pg_response p)"
  let ?i = "pg_dataIndex p" and ?j = "pg_ddlIndex p"
  have some: "page_haveData p \<or> page_haveDdl p"
    using assms(1) by (auto simp: page_rest_Nil)
  have ds: "page_haveData p \<Longrightarrow> drop ?i ?data = ?data ! ?i # drop (Suc ?i) ?data"
    by (simp add: page_haveData_def Cons_nth_drop_Suc)
  have es: "page_haveDdl p \<Longrightarrow> drop ?j ?ddl = ?ddl ! ?j # drop (Suc ?j) ?ddl"
    by (simp add: page_haveDdl_def Cons_nth_drop_Suc)
  show ?thesis
  proof (cases k)
    case StreamData
    then have d: "page_haveData p" "ts = dr_commit_ts (?data ! ?i)"
      and le: "page_haveDdl p \<Longrightarrow> dr_commit_ts (?data ! ?i) \<le> dd_ddl_ts (?ddl ! ?j)"
      using assms(2) by (auto simp: page_head_def Let_def split: if_splits)
    have "page_rest p = DataItem (?data ! ?i) # merge_streams (drop (Suc ?i) ?data) (drop ?j ?ddl)"
      unfolding page_rest_def ds [OF d(1)]
      by (rule merge_streams_data) (use le es in \<open>force simp: page_haveDdl_def\<close>)
    then show ?thesis
      using StreamData d(2)
      by (intro exI [of _ "DataItem (?data ! ?i)"] exI [of _ "g\<lparr>sg_pages := p\<lparr>pg_dataIndex := ?i + 1\<rparr> # ps\<rparr>"]
          conjI exI [of _ "p\<lparr>pg_dataIndex := ?i + 1\<rparr>"]) (simp_all add: release_from_def page_rest_def)
  next
    case StreamDdl
    then have d: "page_haveDdl p" "ts = dd_ddl_ts (?ddl ! ?j)"
      and le: "page_haveData p \<Longrightarrow> \<not> dr_commit_ts (?data ! ?i) \<le> dd_ddl_ts (?ddl ! ?j)"
      using assms(2) some by (auto simp: page_head_def Let_def split: if_splits)
    have "page_rest p = DdlItem (?ddl ! ?j) # merge_streams (drop ?i ?data) (drop (Suc ?j) ?ddl)"
      unfolding page_rest_def es [OF d(1)]
      by (rule merge_streams_ddl) (use le ds in \<open>force simp: page_haveData_def\<close>)
    then show ?thesis
      using StreamDdl d(2)
      by (intro exI [of _ "DdlItem (?ddl ! ?j)"] exI [of _ "g\<lparr>sg_pages := p\<lparr>pg_ddlIndex := ?j + 1\<rparr> # ps\<rparr>"]
          conjI exI [of _ "p\<lparr>pg_ddlIndex := ?j + 1\<rparr>"]) (simp_all add: release_from_def page_rest_def)
  qed
qed

lemma source_head_cases:
  assumes "source_head g = (h, g', freed)"
  shows "buffered g' = buffered g \<and> freed = sum_list (map pg_bytes (sg_pages g)) - sum_list (map pg_bytes (sg_pages g')) \<and>
    g' = g\<lparr>sg_pages := sg_pages g'\<rparr> \<and>
    (case h of
       None \<Rightarrow> sg_pages g' = []
     | Some hk \<Rightarrow> \<exists>p ps. sg_pages g' = p # ps \<and> page_rest p \<noteq> [] \<and> page_head p = hk)"
proof -
  obtain ps' fr where d: "drop_released (sg_pages g) = (ps', fr)" by (cases "drop_released (sg_pages g)")
  from drop_released_rest [OF d] show ?thesis
    using assms d by (auto simp: source_head_def buffered_def split: list.splits)
qed

lemma choose_head_best:
  "choose_head hs i best = Some (j, ts, k) \<Longrightarrow>
     (best = Some (j, ts, k) \<or> (\<exists>n. j = i + n \<and> n < length hs \<and> hs ! n = Some (ts, k))) \<and>
     (\<forall>n t k'. n < length hs \<longrightarrow> hs ! n = Some (t, k') \<longrightarrow> ts \<le> t) \<and>
     (\<forall>b t k'. best = Some (b, t, k') \<longrightarrow> ts \<le> t)"
proof (induction hs arbitrary: i best)
  case (Cons h hs)
  show ?case
  proof (cases h)
    case None
    with Cons.IH [of "Suc i" best] Cons.prems show ?thesis
      by (fastforce simp: less_Suc_eq_0_disj)
  next
    case (Some hk)
    obtain t k' where h: "h = Some (t, k')" using Some by (cases hk) auto
    show ?thesis
    proof (cases best)
      case None
      with Cons.IH [of "Suc i" "Some (i, t, k')"] Cons.prems h show ?thesis
        by (fastforce simp: less_Suc_eq_0_disj)
    next
      case (Some b)
      obtain j' bt bk where b: "best = Some (j', bt, bk)" using Some by (cases b) auto
      with Cons.IH [of "Suc i" "if t < bt then Some (i, t, k') else best"] Cons.prems h show ?thesis
        by (fastforce simp: less_Suc_eq_0_disj split: if_splits)
    qed
  qed
qed simp

lemma choose_head_None: "choose_head hs i best = None \<longleftrightarrow> best = None \<and> list_all (\<lambda>h. h = None) hs"
  by (induction hs i best rule: choose_head.induct) (auto split: option.splits)

end
