(* ===== verification/Source_Merge.thy ===== *)
theory Source_Merge
  imports Scan_Source
begin

text \<open>
  Correctness of the scan source against the log service's contract: per group the records released
  are exactly a prefix of the group's log from the start position, across groups they come out in
  timestamp order with nothing below a released record still to come, and once the source reports
  itself drained everything at or below \<open>emitBound\<close> has been released. The source is a transition
  system: its own operations, in any order, and the callbacks of its calls.
\<close>

section \<open>The source as a transition system\<close>

text \<open>A callback may bring back any failure, any refusal, or a page the log service may answer with.\<close>

definition arrival_ok ::
  "(u32 \<Rightarrow> scan_request \<Rightarrow> scan_response \<Rightarrow> bool) \<Rightarrow> scan_client \<Rightarrow> u32 \<Rightarrow> call_outcome \<Rightarrow> bool" where
  "arrival_ok answers cl g ou \<longleftrightarrow> (\<forall>c. call_of cl g = Some c \<longrightarrow> \<not> ca_completed c \<longrightarrow>
     ou_failed ou = None \<longrightarrow> rs_status (ou_response ou) = ScanSuccess \<longrightarrow>
     answers g (ca_request c) (ou_response ou))"

inductive source_step ::
  "(u32 \<Rightarrow> scan_request \<Rightarrow> scan_response \<Rightarrow> bool) \<Rightarrow> scan_source \<Rightarrow> source_record list \<Rightarrow> scan_source \<Rightarrow> bool"
  for answers where
  step_arrive: "arrival_ok answers (ss_client st) g ou \<Longrightarrow> source_step answers st [] (arrive [(g, ou, now)] st)"
| step_collect: "collectCompletions nba bsz now st = Inr st' \<Longrightarrow> source_step answers st [] st'"
| step_release: "try_release st = (Some r, st') \<Longrightarrow> source_step answers st [r] st'"
| step_no_release: "try_release st = (None, st') \<Longrightarrow> source_step answers st [] st'"
| step_issue: "issueScans deadline now st = Inr st' \<Longrightarrow> source_step answers st [] st'"
| step_drained: "source_step answers st [] (st\<lparr>ss_drained := True\<rparr>)"

text \<open>A source whose groups have all been started and that has fetched nothing yet.\<close>

definition source_ready :: "scan_source \<Rightarrow> bool" where
  "source_ready st \<longleftrightarrow> distinct (map sg_id (ss_groups st)) \<and> ss_bufferedBytes st = 0 \<and>
     list_all (\<lambda>g. sg_started g \<and> 1 \<le> sg_fromTs g \<and> sg_scannedTs g = sg_fromTs g - 1 \<and>
       \<not> sg_haveContinuation g \<and> sg_pages g = [] \<and> known (ss_client st) (sg_id g) \<and>
       call_of (ss_client st) (sg_id g) = None) (ss_groups st)"

inductive source_run ::
  "(u32 \<Rightarrow> scan_request \<Rightarrow> scan_response \<Rightarrow> bool) \<Rightarrow> scan_source \<Rightarrow> source_record list \<Rightarrow> scan_source \<Rightarrow> bool"
  for answers st0 where
  run_start: "source_run answers st0 [] st0"
| run_step: "source_run answers st0 rel st \<Longrightarrow> source_step answers st out st' \<Longrightarrow>
     source_run answers st0 (rel @ out) st'"

text \<open>The callbacks of one pass of \<open>next\<close>, each a step on the client as the pass leaves it.\<close>

fun arrivals_ok ::
  "(u32 \<Rightarrow> scan_request \<Rightarrow> scan_response \<Rightarrow> bool) \<Rightarrow> arrivals \<Rightarrow> scan_client \<Rightarrow> bool" where
  "arrivals_ok answers [] cl = True"
| "arrivals_ok answers ((g, ou, now) # arr) cl =
     (arrival_ok answers cl g ou \<and> arrivals_ok answers arr (scan_done g ou now cl))"

definition pass_arrivals_ok ::
  "(u32 \<Rightarrow> scan_request \<Rightarrow> scan_response \<Rightarrow> bool) \<Rightarrow> (u32 \<Rightarrow> bytes \<Rightarrow> u32 option) \<Rightarrow> (scan_response \<Rightarrow> int)
     \<Rightarrow> int \<Rightarrow> int \<times> int \<times> int \<times> int \<Rightarrow> arrivals \<Rightarrow> scan_source \<Rightarrow> bool" where
  "pass_arrivals_ok answers nba bsz deadline = (\<lambda>(now1, now2, now3, now4) arr st.
     case collectCompletions nba bsz now1 st of
       Inl e \<Rightarrow> True
     | Inr st1 \<Rightarrow> (case issueScans deadline now2 (snd (try_release st1)) of
           Inl e \<Rightarrow> True
         | Inr st3 \<Rightarrow> arrivals_ok answers arr (ss_client st3)))"

definition pass_released :: "pass_result \<Rightarrow> source_record list" where
  "pass_released res = (case res of Released r \<Rightarrow> [r] | Drained \<Rightarrow> [] | WaitUntil t \<Rightarrow> [])"

section \<open>The invariant\<close>

definition released_of :: "source_record list \<Rightarrow> source_group \<Rightarrow> log_item list" where
  "released_of rel g = map sr_item (filter (\<lambda>r. sr_logGroupId r = sg_id g) rel)"

definition log_base :: "(u32 \<Rightarrow> log_item list) \<Rightarrow> source_group \<Rightarrow> nat" where
  "log_base glog g = length (takeWhile (\<lambda>x. item_ts x < sg_fromTs g) (glog (sg_id g)))"

text \<open>The group's records from its start position that have not been released.\<close>

definition pending :: "(u32 \<Rightarrow> log_item list) \<Rightarrow> source_record list \<Rightarrow> source_group \<Rightarrow> log_item list" where
  "pending glog rel g = drop (log_base glog g + length (released_of rel g)) (glog (sg_id g))"

definition fetched :: "(u32 \<Rightarrow> log_item list) \<Rightarrow> source_record list \<Rightarrow> source_group \<Rightarrow> nat" where
  "fetched glog rel g = log_base glog g + length (released_of rel g) + length (buffered g)"

definition group_start :: "source_group \<Rightarrow> scan_start" where
  "group_start g = (if sg_haveContinuation g then StartContinuation (sg_continuation g)
     else StartFromTs (sg_fromTs g))"

definition group_ok ::
  "(u32 \<Rightarrow> log_item list) \<Rightarrow> (u32 \<Rightarrow> scan_request \<Rightarrow> scan_response \<Rightarrow> bool) \<Rightarrow> (u32 \<Rightarrow> bytes \<Rightarrow> nat)
     \<Rightarrow> source_record list \<Rightarrow> scan_client \<Rightarrow> source_group \<Rightarrow> bool" where
  "group_ok glog answers cpos rel cl g \<longleftrightarrow>
     sg_started g \<and> known cl (sg_id g) \<and> sg_scannedTs g \<noteq> -1 \<and>
     released_of rel g @ buffered g
       = take (length (released_of rel g) + length (buffered g)) (drop (log_base glog g) (glog (sg_id g))) \<and>
     start_pos glog cpos (sg_id g) (group_start g) = fetched glog rel g \<and>
     (\<forall>x \<in> set (drop (fetched glog rel g) (glog (sg_id g))). sg_scannedTs g < item_ts x) \<and>
     (\<forall>c. call_of cl (sg_id g) = Some c \<longrightarrow> rq_start (ca_request c) = group_start g \<and>
        (usable c \<longrightarrow> answers (sg_id g) (ca_request c) (ca_response c)))"

definition order_ok :: "(u32 \<Rightarrow> log_item list) \<Rightarrow> source_record list \<Rightarrow> source_group list \<Rightarrow> bool" where
  "order_ok glog rel gs \<longleftrightarrow> sorted (map sr_timestamp rel) \<and>
     (\<forall>r \<in> set rel. \<forall>g \<in> set gs. \<forall>x \<in> set (pending glog rel g). sr_timestamp r \<le> item_ts x)"

definition source_ok ::
  "(u32 \<Rightarrow> log_item list) \<Rightarrow> (u32 \<Rightarrow> scan_request \<Rightarrow> scan_response \<Rightarrow> bool) \<Rightarrow> (u32 \<Rightarrow> bytes \<Rightarrow> nat)
     \<Rightarrow> source_record list \<Rightarrow> scan_source \<Rightarrow> bool" where
  "source_ok glog answers cpos rel st \<longleftrightarrow> distinct (map sg_id (ss_groups st)) \<and>
     list_all (group_ok glog answers cpos rel (ss_client st)) (ss_groups st) \<and>
     order_ok glog rel (ss_groups st) \<and> sr_logGroupId ` set rel \<subseteq> sg_id ` set (ss_groups st)"

text \<open>What a group looks like to the order invariant.\<close>

definition same_log :: "source_group \<Rightarrow> source_group \<Rightarrow> bool" where
  "same_log g g' \<longleftrightarrow> sg_id g' = sg_id g \<and> sg_fromTs g' = sg_fromTs g"

lemma pending_cong: "same_log g g' \<Longrightarrow> pending glog rel g' = pending glog rel g"
  by (simp add: same_log_def pending_def log_base_def released_of_def)

lemma order_ok_cong:
  assumes "list_all2 same_log gs gs'" "order_ok glog rel gs"
  shows "order_ok glog rel gs'"
proof -
  have "\<exists>g \<in> set gs. pending glog rel g = pending glog rel g'" if "g' \<in> set gs'" for g'
    using assms(1) that pending_cong by (fastforce simp: list_all2_conv_all_nth in_set_conv_nth)
  then show ?thesis using assms(2) by (fastforce simp: order_ok_def)
qed

lemma same_log_ids: "list_all2 same_log gs gs' \<Longrightarrow> map sg_id gs' = map sg_id gs"
  by (auto simp: list_all2_conv_all_nth same_log_def list_eq_iff_nth_eq)

text \<open>A step that keeps every group's place in its log, and its invariant, keeps the source's.\<close>

lemma source_ok_same_log:
  assumes "source_ok glog answers cpos rel st" "list_all2 same_log (ss_groups st) (ss_groups st')"
    and "list_all (group_ok glog answers cpos rel (ss_client st')) (ss_groups st')"
  shows "source_ok glog answers cpos rel st'"
proof -
  have "sg_id ` set (ss_groups st') = sg_id ` set (ss_groups st)"
    using same_log_ids [OF assms(2)] by (metis image_set)
  then show ?thesis
    using assms same_log_ids [OF assms(2)] order_ok_cong [OF assms(2)] by (simp add: source_ok_def)
qed

lemma group_ok_client:
  assumes "group_ok glog answers cpos rel cl g" "known cl' (sg_id g)"
    and "\<And>c. call_of cl' (sg_id g) = Some c \<Longrightarrow> rq_start (ca_request c) = group_start g \<and>
        (usable c \<longrightarrow> answers (sg_id g) (ca_request c) (ca_response c))"
  shows "group_ok glog answers cpos rel cl' g"
  using assms by (simp add: group_ok_def)

lemma group_ok_same_client:
  assumes "group_ok glog answers cpos rel cl g" "known cl' = known cl"
    and "call_of cl' (sg_id g) = call_of cl (sg_id g)"
  shows "group_ok glog answers cpos rel cl' g"
  using assms by (simp add: group_ok_def)

section \<open>Every operation keeps the invariant\<close>

lemma sr_fields: "sr_item \<lparr>sr_logGroupId = g, sr_item = x\<rparr> = x" "sr_logGroupId \<lparr>sr_logGroupId = g, sr_item = x\<rparr> = g"
  by simp_all

text \<open>Looking at the heads.\<close>

lemma source_head_group_ok:
  assumes "group_ok glog answers cpos rel cl g" "source_head g = (h, g', freed)"
  shows "group_ok glog answers cpos rel cl g' \<and> same_log g g'"
proof -
  have g': "buffered g' = buffered g" "g' = g\<lparr>sg_pages := sg_pages g'\<rparr>"
    using source_head_cases [OF assms(2)] by simp_all
  have f: "sg_id g' = sg_id g" "sg_fromTs g' = sg_fromTs g" "sg_started g' = sg_started g"
    "sg_scannedTs g' = sg_scannedTs g" "sg_haveContinuation g' = sg_haveContinuation g"
    "sg_continuation g' = sg_continuation g"
    by (subst g'(2), simp)+
  then have "released_of rel g' = released_of rel g" "log_base glog g' = log_base glog g"
    "fetched glog rel g' = fetched glog rel g" "group_start g' = group_start g"
    using g'(1) by (simp_all add: released_of_def log_base_def fetched_def group_start_def)
  then show ?thesis
    using assms(1) f g'(1) by (simp add: group_ok_def same_log_def)
qed

lemma heads_cases:
  assumes "heads st = (hs, st')"
  shows "ss_client st' = ss_client st" "ss_options st' = ss_options st" "length hs = length (ss_groups st)"
    "list_all2 (\<lambda>g g'. \<exists>freed h. source_head g = (h, g', freed)) (ss_groups st) (ss_groups st')"
    "\<And>i. i < length hs \<Longrightarrow> \<exists>freed. source_head (ss_groups st ! i) = (hs ! i, ss_groups st' ! i, freed)"
proof -
  have e: "hs = map (fst \<circ> source_head) (ss_groups st)"
    "ss_groups st' = map (fst \<circ> snd \<circ> source_head) (ss_groups st)"
    using assms by (auto simp: heads_def Let_def)
  show "ss_client st' = ss_client st" "ss_options st' = ss_options st" "length hs = length (ss_groups st)"
    using assms by (auto simp: heads_def Let_def)
  have "\<exists>freed. source_head g = (fst (source_head g), fst (snd (source_head g)), freed)" for g
    by (metis prod.collapse)
  then show "list_all2 (\<lambda>g g'. \<exists>freed h. source_head g = (h, g', freed)) (ss_groups st) (ss_groups st')"
    "\<And>i. i < length hs \<Longrightarrow> \<exists>freed. source_head (ss_groups st ! i) = (hs ! i, ss_groups st' ! i, freed)"
    by (auto simp: e list_all2_conv_all_nth) blast
qed

lemma heads_source_ok:
  assumes "source_ok glog answers cpos rel st" "heads st = (hs, st')"
  shows "source_ok glog answers cpos rel st'"
proof (rule source_ok_same_log [OF assms(1)])
  note h = heads_cases [OF assms(2)]
  have ok: "\<forall>g \<in> set (ss_groups st). group_ok glog answers cpos rel (ss_client st) g"
    using assms(1) by (simp add: source_ok_def list_all_iff)
  have *: "same_log (ss_groups st ! i) (ss_groups st' ! i) \<and>
      group_ok glog answers cpos rel (ss_client st) (ss_groups st' ! i)" if "i < length (ss_groups st)" for i
  proof -
    obtain freed where "source_head (ss_groups st ! i) = (hs ! i, ss_groups st' ! i, freed)"
      using h(3,5) \<open>i < _\<close> by auto
    then show ?thesis using source_head_group_ok ok \<open>i < _\<close> by (metis nth_mem)
  qed
  have len: "length (ss_groups st') = length (ss_groups st)"
    using h(4) by (simp add: list_all2_lengthD)
  show "list_all2 same_log (ss_groups st) (ss_groups st')"
    using * len by (simp add: list_all2_conv_all_nth)
  show "list_all (group_ok glog answers cpos rel (ss_client st')) (ss_groups st')"
    using * len h(1) by (auto simp: list_all_length)
qed

text \<open>A callback.\<close>

lemma arrive_source_ok:
  assumes "source_ok glog answers cpos rel st" "arrival_ok answers (ss_client st) g ou"
  shows "source_ok glog answers cpos rel (arrive [(g, ou, now)] st)"
proof (rule source_ok_same_log [OF assms(1)])
  let ?cl = "ss_client st" and ?cl' = "scan_done g ou now (ss_client st)"
  show "list_all2 same_log (ss_groups st) (ss_groups (arrive [(g, ou, now)] st))"
    by (simp add: arrive_def list_all2_same same_log_def)
  have "group_ok glog answers cpos rel ?cl' x" if ok: "group_ok glog answers cpos rel ?cl x" for x
  proof (rule group_ok_client [OF ok])
    show "known ?cl' (sg_id x)"
      using ok scan_done_frame [of g ou now ?cl] by (auto simp: group_ok_def)
    fix c assume c: "call_of ?cl' (sg_id x) = Some c"
    show "rq_start (ca_request c) = group_start x \<and> (usable c \<longrightarrow> answers (sg_id x) (ca_request c) (ca_response c))"
      using scan_done_frame [of g ou now ?cl] c ok assms(2)
      by (auto simp: group_ok_def arrival_ok_def usable_def split: if_splits)
  qed
  then show "list_all (group_ok glog answers cpos rel (ss_client (arrive [(g, ou, now)] st)))
      (ss_groups (arrive [(g, ou, now)] st))"
    using assms(1) by (auto simp: arrive_def source_ok_def list_all_iff)
qed

text \<open>Issuing scans.\<close>

lemma issue_groups_frame:
  "issue_groups opts deadline now low bytes gzs cl = Inr cl' \<Longrightarrow>
     known cl' = known cl \<and>
     (\<forall>h. call_of cl' h = call_of cl h \<or>
        (\<exists>g \<in> fst ` set gzs. sg_id g = h \<and>
           (\<exists>c. call_of cl' h = Some c \<and> rq_start (ca_request c) = group_start g \<and> \<not> ca_completed c)))"
proof (induction gzs arbitrary: cl)
  case (Cons gz gzs)
  obtain g hb where gz: "gz = (g, hb)" by (cases gz)
  let ?rq = "scanRequest opts g deadline now"
  obtain cl1 where step: "cl1 = cl \<or> issue (sg_id g) ?rq (uint (rq_wait_ms ?rq) + sp_rpcSlack opts) now cl = Inr cl1"
    and rest: "issue_groups opts deadline now low bytes gzs cl1 = Inr cl'"
    using Cons.prems by (auto simp: gz Let_def split: if_splits)
  have "known cl1 = known cl \<and> (\<forall>h. call_of cl1 h = call_of cl h \<or> h = sg_id g \<and>
      (\<exists>c. call_of cl1 h = Some c \<and> rq_start (ca_request c) = group_start g \<and> \<not> ca_completed c))"
    using step
  proof
    assume "issue (sg_id g) ?rq (uint (rq_wait_ms ?rq) + sp_rpcSlack opts) now cl = Inr cl1"
    from issue_frame [OF this] show ?thesis
      by (auto simp: scanRequest_def group_start_def split: if_splits)
  qed simp
  then show ?case using Cons.IH [OF rest] by (auto simp: gz) metis+
qed simp

lemma issueScans_source_ok:
  assumes ok: "source_ok glog answers cpos rel st" and "issueScans deadline now st = Inr st'"
  shows "source_ok glog answers cpos rel st'"
proof -
  obtain hs st1 cl where h: "heads st = (hs, st1)"
    and i: "issue_groups (ss_options st1) deadline now (lowest_buffered hs) (ss_bufferedBytes st1)
              (zip (ss_groups st1) (map (\<lambda>h. h \<noteq> None) hs)) (ss_client st1) = Inr cl"
    and st': "st' = st1\<lparr>ss_client := cl\<rparr>"
    using assms(2) by (auto simp: issueScans_def split: prod.splits)
  have ok1: "source_ok glog answers cpos rel st1" using heads_source_ok [OF ok h] .
  have "group_ok glog answers cpos rel cl g" if g: "g \<in> set (ss_groups st1)" for g
  proof -
    have gok: "group_ok glog answers cpos rel (ss_client st1) g"
      using ok1 g by (simp add: source_ok_def list_all_iff)
    have uniq: "x = g" if "x \<in> set (ss_groups st1)" "sg_id x = sg_id g" for x
      using ok1 g that by (auto simp: source_ok_def distinct_map dest: inj_onD)
    show ?thesis
    proof (rule group_ok_client [OF gok])
      show "known cl (sg_id g)" using issue_groups_frame [OF i] gok by (simp add: group_ok_def)
      fix c assume c: "call_of cl (sg_id g) = Some c"
      consider "call_of (ss_client st1) (sg_id g) = Some c" | "rq_start (ca_request c) = group_start g" "\<not> ca_completed c"
      proof -
        have "fst ` set (zip (ss_groups st1) (map (\<lambda>h. h \<noteq> None) hs)) \<subseteq> set (ss_groups st1)"
          by (auto dest: set_zip_leftD)
        moreover note issue_groups_frame [OF i, THEN conjunct2, THEN spec, of "sg_id g"]
        ultimately consider "call_of cl (sg_id g) = call_of (ss_client st1) (sg_id g)"
          | x c' where "x \<in> set (ss_groups st1)" "sg_id x = sg_id g" "call_of cl (sg_id g) = Some c'"
            "rq_start (ca_request c') = group_start x" "\<not> ca_completed c'"
          by blast
        then show thesis
        proof cases
          case 1
          then show ?thesis using c that(1) by simp
        next
          case 2
          then show ?thesis using c that(2) uniq by auto
        qed
      qed
      then show "rq_start (ca_request c) = group_start g \<and> (usable c \<longrightarrow> answers (sg_id g) (ca_request c) (ca_response c))"
        using gok by cases (auto simp: group_ok_def usable_def)
    qed
  qed
  then show ?thesis
    using ok1 by (intro source_ok_same_log [OF ok1])
      (auto simp: st' list_all_iff list_all2_same same_log_def)
qed

text \<open>Folding a page into its group.\<close>

lemma pauseIfIdleEarly_frame:
  assumes "pauseIfIdleEarly opts cmpl resp bound now g cl = Inr (g', cl')"
  shows "(\<exists>b. g' = g\<lparr>sg_idleBackoff := b\<rparr>) \<and> known cl' = known cl \<and> call_of cl' = call_of cl"
proof (cases "\<not> (rs_data resp = [] \<and> rs_ddl resp = []) \<or> rs_has_more resp \<or> sg_arrivalCompleteTs g > bound")
  case True
  then show ?thesis using assms by (auto simp: pauseIfIdleEarly_def)
next
  case notIdle: False
  show ?thesis
  proof (cases "uint (rq_wait_ms (cp_request cmpl)) \<ge> kShortestLongPoll \<and>
      (cp_completedAt cmpl - cp_issuedAt cmpl) * 2 \<ge> uint (rq_wait_ms (cp_request cmpl))")
    case True
    then have "g' = g\<lparr>sg_idleBackoff := sg_idleBackoff g\<rparr> \<and> cl' = cl"
      using assms notIdle by (simp add: pauseIfIdleEarly_def)
    then show ?thesis by blast
  next
    case False
    then have "deferUntil (sg_id g) (now + sg_idleBackoff g) cl = Inr cl' \<and>
        g' = g\<lparr>sg_idleBackoff := min (sg_idleBackoff g * 2) (sp_idleBackoffMax opts)\<rparr>"
      using assms notIdle unfolding pauseIfIdleEarly_def Let_def by (simp split: if_splits)
    then show ?thesis using deferUntil_frame by blast
  qed
qed

lemma pauseIfIdleEarly_known:
  "known cl (sg_id g) \<Longrightarrow> \<exists>x. pauseIfIdleEarly opts cmpl resp bound now g cl = Inr x"
  using deferUntil_known [of cl "sg_id g" "now + sg_idleBackoff g"]
  by (clarsimp simp: pauseIfIdleEarly_def Let_def)

lemma page_lastTs_in:
  "0 < page_lastTs resp \<Longrightarrow> \<exists>y \<in> set (page_items resp). item_ts y = page_lastTs resp"
  by (auto simp: page_lastTs_def page_items_def Let_def max_def split: if_splits)
    (metis UnI1 UnI2 image_eqI item_ts.simps last_in_set)+

lemma group_ok_idle:
  "group_ok glog answers cpos rel cl (g\<lparr>sg_idleBackoff := b\<rparr>) = group_ok glog answers cpos rel cl g"
  by (simp add: group_ok_def released_of_def buffered_def log_base_def fetched_def group_start_def)

context log_service
begin

lemma admit_scanned_sound:
  assumes "answers g req resp" "x \<in> set (drop (cpos g (rs_continuation resp)) (glog g))"
    and "scanned < item_ts x"
  shows "admit_scanned resp scanned < item_ts x"
proof (cases "rs_has_more resp")
  case True
  show ?thesis
  proof (cases "0 < page_lastTs resp")
    case pos: True
    obtain y where y: "y \<in> set (page_items resp)" "item_ts y = page_lastTs resp"
      using page_lastTs_in [OF pos] by blast
    then have "page_lastTs resp \<le> item_ts x"
      using cut_page_below [OF assms(1,2) y(1)] by simp
    moreover have "page_lastTs resp \<noteq> 0" using pos by auto
    then have "page_lastTs resp - 1 < page_lastTs resp"
      using unat_minus_one [of "page_lastTs resp"] by (simp add: word_less_nat_alt unat_gt_0)
    ultimately show ?thesis
      using True pos assms(3) by (simp add: admit_scanned_def)
  qed (use True assms(3) in \<open>simp add: admit_scanned_def\<close>)
next
  case False
  then show ?thesis
    using exhausted [OF assms(1) False assms(2)] assms(3) by (simp add: admit_scanned_def)
qed

lemma admit_scanned_not_max:
  assumes "answers g req resp" "scanned \<noteq> -1"
  shows "admit_scanned resp scanned \<noteq> -1"
proof -
  have "page_lastTs resp - 1 \<noteq> -1" if "0 < page_lastTs resp" using that by auto
  then show ?thesis
    using assms(2) bound_not_max [OF assms(1)] by (auto simp: admit_scanned_def max_def)
qed

text \<open>A usable page, taken and folded in, extends what the group has fetched by exactly its records.\<close>

lemma admit_group_ok:
  assumes ok: "group_ok glog answers cpos rel cl0 g"
    and call: "call_of cl0 (sg_id g) = Some c" "usable c" "resp = ca_response c"
    and cl: "known cl = known cl0" "call_of cl = (call_of cl0)(sg_id g := None)"
    and adm: "admit bsz opts cmpl resp now g cl bytes = Inr (g', cl', bytes')"
  shows "group_ok glog answers cpos rel cl' g' \<and> same_log g g' \<and> known cl' = known cl \<and> call_of cl' = call_of cl"
proof -
  let ?L = "glog (sg_id g)" and ?b = "log_base glog g" and ?r = "released_of rel g"
  let ?n = "fetched glog rel g" and ?k = "length (page_items resp)"
  define g2 where "g2 = (let g1 = g\<lparr>sg_arrivalCompleteTs := max (sg_arrivalCompleteTs g) (rs_arrival_complete_ts resp),
                 sg_continuation := rs_continuation resp, sg_haveContinuation := True,
                 sg_scannedTs := admit_scanned resp (sg_scannedTs g)\<rparr>
    in if rs_data resp \<noteq> [] \<or> rs_ddl resp \<noteq> [] then g1\<lparr>sg_pages := sg_pages g1 @
                  [\<lparr>pg_response = resp, pg_dataIndex = 0, pg_ddlIndex = 0, pg_bytes = bsz resp\<rparr>]\<rparr> else g1)"
  have p: "pauseIfIdleEarly opts cmpl resp (sg_arrivalCompleteTs g) now g2 cl = Inr (g', cl')"
    using adm by (auto simp: admit_def g2_def Let_def)
  have ans: "answers (sg_id g) (ca_request c) resp" "rq_start (ca_request c) = group_start g"
    using ok call by (auto simp: group_ok_def)
  have sp: "start_pos glog cpos (sg_id g) (rq_start (ca_request c)) = ?n"
    using ok ans(2) by (simp add: group_ok_def)
  have g2: "sg_id g2 = sg_id g" "sg_fromTs g2 = sg_fromTs g" "sg_started g2 = sg_started g"
    "sg_scannedTs g2 = admit_scanned resp (sg_scannedTs g)" "group_start g2 = StartContinuation (rs_continuation resp)"
    by (simp_all add: g2_def group_start_def Let_def)
  have buf: "buffered g2 = buffered g @ page_items resp"
    by (auto simp: g2_def buffered_def Let_def page_rest_def page_items_def)
  have r2: "released_of rel g2 = ?r" "log_base glog g2 = ?b" "fetched glog rel g2 = ?n + ?k"
    using g2 buf by (simp_all add: released_of_def log_base_def fetched_def)
  have cpos: "cpos (sg_id g) (rs_continuation resp) = ?n + ?k"
    using continuation_pos [OF ans(1)] sp by simp
  have "page_items resp = take ?k (drop ?n ?L)"
    using page_prefix [OF ans(1)] sp by simp
  moreover have "?r @ buffered g = take (length ?r + length (buffered g)) (drop ?b ?L)"
    using ok by (simp add: group_ok_def)
  ultimately have pre: "?r @ buffered g2 = take (length ?r + length (buffered g2)) (drop ?b ?L)"
    by (simp add: buf take_add fetched_def add.assoc [symmetric]) (simp add: ac_simps)
  have "admit_scanned resp (sg_scannedTs g) < item_ts x" if x: "x \<in> set (drop (?n + ?k) ?L)" for x
  proof -
    have "x \<in> set (drop ?n ?L)" using x by (metis add.commute drop_drop in_set_dropD)
    then have "sg_scannedTs g < item_ts x" using ok by (simp add: group_ok_def)
    then show ?thesis using admit_scanned_sound [OF ans(1)] x cpos by simp
  qed
  moreover have "admit_scanned resp (sg_scannedTs g) \<noteq> -1"
    using admit_scanned_not_max [OF ans(1)] ok by (simp add: group_ok_def)
  ultimately have "group_ok glog answers cpos rel cl g2"
    using ok cl g2 r2 pre cpos by (simp add: group_ok_def start_pos_def)
  then show ?thesis
    using pauseIfIdleEarly_frame [OF p] g2 group_ok_same_client
    by (auto simp: group_ok_idle same_log_def)
qed

end

text \<open>Taking one group's completed call.\<close>

definition collect_one ::
  "(u32 \<Rightarrow> bytes \<Rightarrow> u32 option) \<Rightarrow> (scan_response \<Rightarrow> int) \<Rightarrow> source_options \<Rightarrow> int \<Rightarrow> source_group
     \<Rightarrow> scan_client \<Rightarrow> int \<Rightarrow> (source_group \<times> scan_client \<times> int) result" where
  "collect_one nba bsz opts now g cl bytes =
     rbind (takeCompleted nba (sg_id g) now now cl) (\<lambda>(taken, cl1).
     case taken of
         None \<Rightarrow> Inr (g, cl1, bytes)
       | Some cmpl \<Rightarrow> (case cp_status cmpl of
             kOk \<Rightarrow> (case cp_response cmpl of
                 Some resp \<Rightarrow> admit bsz opts cmpl resp now g cl1 bytes
               | None \<Rightarrow> Inl InvariantFailure)
           | kRetry \<Rightarrow> Inr (g, cl1, bytes)
           | kPositionTruncated \<Rightarrow> Inl ChangeStreamHistoryLost
           | kUnsupported \<Rightarrow> Inl CommandNotSupported))"

lemma collect_groups_Cons:
  "collect_groups nba bsz opts now (g # gs) cl bytes =
     rbind (collect_one nba bsz opts now g cl bytes) (\<lambda>(g', cl2, bytes2).
     rbind (collect_groups nba bsz opts now gs cl2 bytes2) (\<lambda>(gs', cl3, bytes3). Inr (g' # gs', cl3, bytes3)))"
  by (simp add: collect_one_def rbind_assoc case_prod_unfold)

declare collect_groups.simps(2) [simp del]

context log_service
begin

lemma collect_one_ok:
  assumes ok: "group_ok glog answers cpos rel cl g"
    and col: "collect_one nba bsz opts now g cl bytes = Inr (g', cl', bytes')"
  shows "group_ok glog answers cpos rel cl' g' \<and> same_log g g' \<and> known cl' = known cl \<and>
    (\<forall>h. h \<noteq> sg_id g \<longrightarrow> call_of cl' h = call_of cl h)"
proof -
  obtain taken cl1 where t: "takeCompleted nba (sg_id g) now now cl = Inr (taken, cl1)"
    using col by (auto simp: collect_one_def)
  show ?thesis
  proof (cases taken)
    case None
    then show ?thesis
      using t col ok takeCompleted_None [of nba "sg_id g" now now cl cl1]
      by (simp add: collect_one_def same_log_def)
  next
    case (Some cmpl)
    then obtain c where k: "known cl1 = known cl" "call_of cl1 = (call_of cl)(sg_id g := None)"
      and c: "call_of cl (sg_id g) = Some c" "cp_status cmpl = kOk \<longleftrightarrow> usable c"
        "cp_status cmpl = kOk \<Longrightarrow> cp_response cmpl = Some (ca_response c)"
      using t takeCompleted_Some by blast
    show ?thesis
    proof (cases "cp_status cmpl")
      case kOk
      then have "admit bsz opts cmpl (ca_response c) now g cl1 bytes = Inr (g', cl', bytes')"
        using t Some col c by (simp add: collect_one_def)
      from admit_group_ok [OF ok c(1) _ refl k this] show ?thesis
        using kOk c(2) k by auto
    next
      case kRetry
      then have "g' = g" "cl' = cl1"
        using t Some col by (simp_all add: collect_one_def)
      moreover have "group_ok glog answers cpos rel cl1 g"
        using k ok by (intro group_ok_client [OF ok]) (auto simp: group_ok_def)
      ultimately show ?thesis using k by (simp add: same_log_def)
    qed (use t Some col in \<open>simp_all add: collect_one_def\<close>)
  qed
qed

lemma collect_groups_ok:
  assumes "distinct (map sg_id gs)" "list_all (group_ok glog answers cpos rel cl) gs"
    and "collect_groups nba bsz opts now gs cl bytes = Inr (gs', cl', bytes')"
  shows "list_all (group_ok glog answers cpos rel cl') gs' \<and> list_all2 same_log gs gs' \<and> known cl' = known cl \<and>
    (\<forall>h. h \<notin> sg_id ` set gs \<longrightarrow> call_of cl' h = call_of cl h)"
  using assms
proof (induction gs arbitrary: cl bytes gs')
  case (Cons g gs)
  obtain g1 cl2 bytes2 gs1 where
    one: "collect_one nba bsz opts now g cl bytes = Inr (g1, cl2, bytes2)" and
    rest: "collect_groups nba bsz opts now gs cl2 bytes2 = Inr (gs1, cl', bytes')" and gs': "gs' = g1 # gs1"
    using Cons.prems(3) by (auto simp: collect_groups_Cons)
  have o: "group_ok glog answers cpos rel cl2 g1" "same_log g g1" "known cl2 = known cl"
    "\<And>h. h \<noteq> sg_id g \<Longrightarrow> call_of cl2 h = call_of cl h"
    using collect_one_ok [OF _ one] Cons.prems(2) by auto
  have "group_ok glog answers cpos rel cl2 x" if x: "x \<in> set gs" for x
  proof (rule group_ok_same_client [OF _ o(3)])
    show "group_ok glog answers cpos rel cl x" using Cons.prems(2) x by (simp add: list_all_iff)
    show "call_of cl2 (sg_id x) = call_of cl (sg_id x)" using Cons.prems(1) x by (intro o(4)) (metis distinct.simps(2) image_eqI image_set list.simps(9))
  qed
  then have "list_all (group_ok glog answers cpos rel cl2) gs" by (simp add: list_all_iff)
  then have r: "list_all (group_ok glog answers cpos rel cl') gs1" "list_all2 same_log gs gs1" "known cl' = known cl2"
    "\<And>h. h \<notin> sg_id ` set gs \<Longrightarrow> call_of cl' h = call_of cl2 h"
    using Cons.IH [OF _ _ rest] Cons.prems(1) by auto
  have "sg_id g1 \<notin> sg_id ` set gs" using Cons.prems(1) o(2) by (simp add: same_log_def)
  then have "group_ok glog answers cpos rel cl' g1"
    by (intro group_ok_same_client [OF o(1) r(3)] r(4))
  then show ?case using o r by (simp add: gs')
qed simp

lemma collect_source_ok:
  assumes "source_ok glog answers cpos rel st" "collectCompletions nba bsz now st = Inr st'"
  shows "source_ok glog answers cpos rel st'"
proof -
  obtain gs cl bytes where c: "collect_groups nba bsz (ss_options st) now (ss_groups st) (ss_client st)
      (ss_bufferedBytes st) = Inr (gs, cl, bytes)"
    and st': "st' = st\<lparr>ss_groups := gs, ss_client := cl, ss_bufferedBytes := bytes\<rparr>"
    using assms(2) by (auto simp: collectCompletions_def)
  show ?thesis
    using collect_groups_ok [OF _ _ c] assms(1)
    by (intro source_ok_same_log [OF assms(1)]) (auto simp: st' source_ok_def)
qed

text \<open>Releasing a record.\<close>

lemma pending_split:
  assumes "group_ok glog answers cpos rel cl g"
  shows "pending glog rel g = buffered g @ drop (fetched glog rel g) (glog (sg_id g))"
proof -
  let ?r = "released_of rel g" and ?d = "drop (log_base glog g) (glog (sg_id g))"
  have "?r @ buffered g = take (length ?r + length (buffered g)) ?d"
    using assms by (simp add: group_ok_def)
  then have "?d = (?r @ buffered g) @ drop (length ?r + length (buffered g)) ?d"
    by (metis append_take_drop_id)
  then have "drop (length ?r) ?d = buffered g @ drop (length ?r + length (buffered g)) ?d"
    by (metis append.assoc append_eq_conv_conj)
  then show ?thesis
    by (simp add: pending_def fetched_def ac_simps)
qed

lemma pending_sorted: "sorted (map item_ts (pending glog rel g))"
  using ts_sorted sorted_wrt_drop unfolding pending_def by (metis drop_map)

lemma head_is_first:
  assumes "source_head g = (h, g', freed)"
  shows "case h of None \<Rightarrow> buffered g = [] | Some (t, k) \<Rightarrow> (\<exists>x xs. buffered g = x # xs \<and> item_ts x = t)"
proof (cases h)
  case None
  then have "buffered g = buffered g'" "sg_pages g' = []"
    using source_head_cases [OF assms] by simp_all
  then show ?thesis using None by (simp add: buffered_def)
next
  case (Some hk)
  obtain t k where hk: "hk = (t, k)" by (cases hk)
  obtain p ps where "sg_pages g' = p # ps" "page_rest p \<noteq> []" "page_head p = (t, k)" "buffered g' = buffered g"
    using source_head_cases [OF assms] Some hk by auto
  moreover from this obtain x p' where "page_rest p = x # page_rest p'" "item_ts x = t"
    using release_page [of p t k g' ps] by auto
  ultimately have "buffered g = x # page_rest p' @ concat (map page_rest ps)"
    by (metis append_Cons buffered_def concat.simps(2) list.simps(9))
  then show ?thesis using Some hk \<open>item_ts x = t\<close> by simp
qed

lemma chosen_is_lowest:
  assumes ok: "source_ok glog answers cpos rel st" and h: "heads st = (hs, st1)"
    and ch: "choose_head hs 0 None = Some (i, ts, k)" and nb: "\<not> emission_blocked (ss_groups st1) i ts"
    and j: "j < length (ss_groups st)" and y: "y \<in> set (pending glog rel (ss_groups st ! j))"
  shows "ts \<le> item_ts y"
proof -
  let ?g = "ss_groups st ! j"
  obtain freed where sh: "source_head ?g = (hs ! j, ss_groups st1 ! j, freed)"
    using heads_cases [OF h] j by auto
  have gok: "group_ok glog answers cpos rel (ss_client st) ?g"
    using ok j by (simp add: source_ok_def list_all_length)
  have best: "hs ! j = Some (t, k') \<Longrightarrow> ts \<le> t" for t k'
    using choose_head_best [OF ch] j heads_cases(3) [OF h] by simp
  show ?thesis
  proof (cases "buffered ?g = []")
    case False
    then obtain t k' where t: "hs ! j = Some (t, k')"
      using head_is_first [OF sh] by (cases "hs ! j") auto
    then obtain x xs where x: "buffered ?g = x # xs" "item_ts x = t"
      using head_is_first [OF sh] by auto
    then have "pending glog rel ?g = x # xs @ drop (fetched glog rel ?g) (glog (sg_id ?g))"
      using pending_split [OF gok] by simp
    then have "item_ts x \<le> item_ts y"
      using y pending_sorted [of rel ?g] by auto
    then show ?thesis using best [OF t] x(2) by simp
  next
    case True
    then have none: "hs ! j = None"
      using head_is_first [OF sh] by (cases "hs ! j") auto
    then have "j \<noteq> i"
      using choose_head_best [OF ch] by auto
    moreover have "sg_scannedTs (ss_groups st1 ! j) = sg_scannedTs ?g"
    proof -
      have "ss_groups st1 ! j = ?g\<lparr>sg_pages := sg_pages (ss_groups st1 ! j)\<rparr>"
        using source_head_cases [OF sh] by simp
      then show ?thesis by (metis source_group.select_convs(7) source_group.surjective source_group.update_convs(8))
    qed
    moreover have "j < length (ss_groups st1)"
      using heads_cases(4) [OF h] j by (simp add: list_all2_lengthD)
    ultimately have "\<not> sg_scannedTs ?g + 1 < ts"
      using nb by (auto simp: emission_blocked_def list_ex_length)
    moreover have "sg_scannedTs ?g < item_ts y"
      using gok y True pending_split [OF gok] by (simp add: group_ok_def)
    moreover have "sg_scannedTs ?g + 1 \<le> item_ts y"
      using calculation(2) gok unat_succ [of "sg_scannedTs ?g"]
      by (simp add: group_ok_def word_less_nat_alt word_le_nat_alt)
    ultimately show ?thesis by simp
  qed
qed

end

lemma pickReleasable_Some:
  assumes "pickReleasable st = (Some r, st')"
  obtains hs st1 i ts k p ps p' x where "heads st = (hs, st1)" "choose_head hs 0 None = Some (i, ts, k)"
    "\<not> emission_blocked (ss_groups st1) i ts" "i < length (ss_groups st1)"
    "sg_pages (ss_groups st1 ! i) = p # ps" "page_rest p = x # page_rest p'" "item_ts x = ts" "pg_bytes p' = pg_bytes p"
    "r = \<lparr>sr_logGroupId = sg_id (ss_groups st1 ! i), sr_item = x\<rparr>"
    "st' = st1\<lparr>ss_groups := (ss_groups st1)[i := (ss_groups st1 ! i)\<lparr>sg_pages := p' # ps\<rparr>]\<rparr>"
proof -
  obtain hs st1 where h: "heads st = (hs, st1)" by (cases "heads st")
  obtain i ts k where ch: "choose_head hs 0 None = Some (i, ts, k)"
    using assms h by (auto simp: pickReleasable_def split: option.splits)
  have nb: "\<not> emission_blocked (ss_groups st1) i ts"
    using assms h ch by (auto simp: pickReleasable_def split: if_splits)
  have i: "i < length hs" "hs ! i = Some (ts, k)"
    using choose_head_best [OF ch] by auto
  then obtain freed where sh: "source_head (ss_groups st ! i) = (Some (ts, k), ss_groups st1 ! i, freed)"
    using heads_cases(5) [OF h] by metis
  then obtain p ps where p: "sg_pages (ss_groups st1 ! i) = p # ps" "page_rest p \<noteq> []" "page_head p = (ts, k)"
    using source_head_cases [OF sh] by auto
  obtain x p' where x: "release_from (ss_groups st1 ! i) p ps k
      = (\<lparr>sr_logGroupId = sg_id (ss_groups st1 ! i), sr_item = x\<rparr>, (ss_groups st1 ! i)\<lparr>sg_pages := p' # ps\<rparr>)"
    "item_ts x = ts" "page_rest p = x # page_rest p'" "pg_bytes p' = pg_bytes p"
    using release_page [OF p(2,3), of "ss_groups st1 ! i" ps] by blast
  have "r = \<lparr>sr_logGroupId = sg_id (ss_groups st1 ! i), sr_item = x\<rparr>"
    "st' = st1\<lparr>ss_groups := (ss_groups st1)[i := (ss_groups st1 ! i)\<lparr>sg_pages := p' # ps\<rparr>]\<rparr>"
    using assms h ch nb p(1) x(1) by (simp_all add: pickReleasable_def)
  moreover have "i < length (ss_groups st1)"
    using i(1) heads_cases(3,4) [OF h] by (simp add: list_all2_lengthD)
  ultimately show thesis using that h ch nb p(1) x(2,3,4) by blast
qed

context log_service
begin

lemma released_of_snoc:
  "released_of (rel @ [r]) g = released_of rel g @ (if sr_logGroupId r = sg_id g then [sr_item r] else [])"
  by (simp add: released_of_def)

lemma group_ok_other:
  assumes "group_ok glog answers cpos rel cl g" "sr_logGroupId r \<noteq> sg_id g"
  shows "group_ok glog answers cpos (rel @ [r]) cl g \<and> pending glog (rel @ [r]) g = pending glog rel g"
  using assms by (simp add: group_ok_def released_of_snoc fetched_def pending_def)

lemma group_ok_released:
  assumes "group_ok glog answers cpos rel cl g" "buffered g = sr_item r # buffered g'"
    and "sr_logGroupId r = sg_id g" "g' = g\<lparr>sg_pages := ps\<rparr>"
  shows "group_ok glog answers cpos (rel @ [r]) cl g' \<and> pending glog rel g = sr_item r # pending glog (rel @ [r]) g'"
proof -
  have f: "sg_id g' = sg_id g" "released_of rel g' = released_of rel g" "log_base glog g' = log_base glog g"
    "group_start g' = group_start g" "sg_started g' = sg_started g" "sg_scannedTs g' = sg_scannedTs g"
    by (simp_all add: assms(4) released_of_def log_base_def group_start_def)
  then have "released_of (rel @ [r]) g' = released_of rel g @ [sr_item r]"
    "fetched glog (rel @ [r]) g' = fetched glog rel g"
    using assms(2,3) by (simp_all add: released_of_snoc fetched_def)
  then have ok': "group_ok glog answers cpos (rel @ [r]) cl g'"
    using assms(1,2) f by (simp add: group_ok_def)
  have "pending glog rel g = sr_item r # buffered g' @ drop (fetched glog rel g) (glog (sg_id g))"
    using pending_split [OF assms(1)] assms(2) by simp
  also have "\<dots> = sr_item r # pending glog (rel @ [r]) g'"
    using pending_split [OF ok'] f(1) \<open>fetched glog (rel @ [r]) g' = _\<close> by simp
  finally show ?thesis using ok' by simp
qed

lemma pick_release_ok:
  assumes ok: "source_ok glog answers cpos rel st" and pick: "pickReleasable st = (Some r, st')"
  shows "source_ok glog answers cpos (rel @ [r]) st' \<and>
    (\<forall>g \<in> set (ss_groups st'). \<forall>y \<in> set (pending glog (rel @ [r]) g). sr_timestamp r \<le> item_ts y)"
proof -
  from pick obtain hs st1 i ts k p ps p' x where h: "heads st = (hs, st1)"
    and ch: "choose_head hs 0 None = Some (i, ts, k)" "\<not> emission_blocked (ss_groups st1) i ts"
    and i: "i < length (ss_groups st1)" and p: "sg_pages (ss_groups st1 ! i) = p # ps" "page_rest p = x # page_rest p'"
      "item_ts x = ts" and r: "r = \<lparr>sr_logGroupId = sg_id (ss_groups st1 ! i), sr_item = x\<rparr>"
    and st': "st' = st1\<lparr>ss_groups := (ss_groups st1)[i := (ss_groups st1 ! i)\<lparr>sg_pages := p' # ps\<rparr>]\<rparr>"
    by (rule pickReleasable_Some)
  let ?gs = "ss_groups st1" and ?g = "ss_groups st1 ! i"
  let ?g' = "?g\<lparr>sg_pages := p' # ps\<rparr>"
  have ok1: "source_ok glog answers cpos rel st1" using heads_source_ok [OF ok h] .
  have same: "list_all2 same_log (ss_groups st) ?gs"
    using heads_cases(4) [OF h] ok source_head_group_ok
    by (fastforce simp: source_ok_def list_all2_conv_all_nth list_all_length)
  have low: "ts \<le> item_ts y" if "g \<in> set ?gs" "y \<in> set (pending glog rel g)" for g y
  proof -
    obtain j where j: "j < length ?gs" "g = ?gs ! j" using \<open>g \<in> _\<close> by (auto simp: in_set_conv_nth)
    then have "pending glog rel (ss_groups st ! j) = pending glog rel g"
      using same pending_cong by (metis list_all2_conv_all_nth)
    then show ?thesis
      using chosen_is_lowest [OF ok h ch, of j y] j that(2) same by (simp add: list_all2_lengthD)
  qed
  have gok: "group_ok glog answers cpos rel (ss_client st1) g" if "g \<in> set ?gs" for g
    using ok1 that by (simp add: source_ok_def list_all_iff)
  have rel_i: "group_ok glog answers cpos (rel @ [r]) (ss_client st1) ?g'"
    "pending glog rel ?g = x # pending glog (rel @ [r]) ?g'"
    using group_ok_released [OF gok, of ?g r ?g' "p' # ps"] i p(1,2) by (simp_all add: r buffered_def)
  have other: "group_ok glog answers cpos (rel @ [r]) (ss_client st1) (?gs ! j)"
    "pending glog (rel @ [r]) (?gs ! j) = pending glog rel (?gs ! j)" if "j < length ?gs" "j \<noteq> i" for j
  proof -
    have "sg_id ?g \<noteq> sg_id (?gs ! j)"
      using ok1 that i by (auto simp: source_ok_def distinct_conv_nth)
    then show "group_ok glog answers cpos (rel @ [r]) (ss_client st1) (?gs ! j)"
      "pending glog (rel @ [r]) (?gs ! j) = pending glog rel (?gs ! j)"
      using group_ok_other [OF gok, of "?gs ! j" r] that(1) by (simp_all add: r)
  qed
  have sub: "set (pending glog (rel @ [r]) (?gs[i := ?g'] ! j)) \<subseteq> set (pending glog rel (?gs ! j))"
    if "j < length ?gs" for j
    using that rel_i(2) other(2) by (cases "j = i") auto
  have groups: "list_all (group_ok glog answers cpos (rel @ [r]) (ss_client st1)) (?gs[i := ?g'])"
  proof -
    have "group_ok glog answers cpos (rel @ [r]) (ss_client st1) (?gs[i := ?g'] ! n)" if "n < length ?gs" for n
      using rel_i(1) other(1) [of n] that by (cases "n = i") simp_all
    then show ?thesis by (simp add: list_all_length)
  qed
  have ts: "sr_timestamp r = ts" by (simp add: r sr_timestamp_def p(3))
  have was: "\<exists>j < length ?gs. y \<in> set (pending glog rel (?gs ! j))"
    if "g \<in> set (?gs[i := ?g'])" "y \<in> set (pending glog (rel @ [r]) g)" for g y
  proof -
    from that(1) obtain j where "j < length ?gs" "g = ?gs[i := ?g'] ! j"
      by (metis in_set_conv_nth length_list_update)
    then show ?thesis using sub that(2) by blast
  qed
  have new: "ts \<le> item_ts y" if "g \<in> set (?gs[i := ?g'])" "y \<in> set (pending glog (rel @ [r]) g)" for g y
    using was [OF that] low nth_mem by blast
  have old: "sr_timestamp q \<le> item_ts y" if "q \<in> set rel" "g \<in> set (?gs[i := ?g'])"
    "y \<in> set (pending glog (rel @ [r]) g)" for q g y
    using was [OF that(2,3)] ok1 that(1) nth_mem unfolding source_ok_def order_ok_def by blast
  have "sr_timestamp q \<le> ts" if "q \<in> set rel" for q
  proof -
    have "x \<in> set (pending glog rel ?g)" "?g \<in> set ?gs" using rel_i(2) i by simp_all
    then show ?thesis using ok1 that p(3) unfolding source_ok_def order_ok_def by blast
  qed
  then have "order_ok glog (rel @ [r]) (?gs[i := ?g'])"
    using ok1 new old ts by (auto simp: order_ok_def source_ok_def sorted_append)
  moreover have "map sg_id (?gs[i := ?g']) = map sg_id ?gs"
    by (simp add: map_update list_update_same_conv i)
  moreover from this have "sg_id ` set (?gs[i := ?g']) = sg_id ` set ?gs"
    by (metis image_set)
  moreover have "sr_logGroupId r \<in> sg_id ` set ?gs" using i by (simp add: r)
  ultimately show ?thesis
    using ok1 groups new ts by (simp add: st' source_ok_def)
qed

section \<open>Runs\<close>

lemma source_ok_drained [simp]:
  "source_ok glog answers cpos rel (st\<lparr>ss_drained := b\<rparr>) = source_ok glog answers cpos rel st"
  by (simp add: source_ok_def)

lemma pick_none_ok:
  assumes "source_ok glog answers cpos rel st" "pickReleasable st = (None, st')"
  shows "source_ok glog answers cpos rel st'"
proof -
  obtain hs st1 where h: "heads st = (hs, st1)" by (cases "heads st")
  then have "st' = st1"
    using assms(2)
    by (auto simp: pickReleasable_def split: option.splits list.splits if_splits prod.splits)
  then show ?thesis using heads_source_ok [OF assms(1) h] by simp
qed

lemma try_release_cases:
  "try_release st = (Some r, st') \<Longrightarrow> \<exists>st1. pickReleasable st = (Some r, st1) \<and> st' = st1\<lparr>ss_drained := False\<rparr>"
  "try_release st = (None, st') \<Longrightarrow> pickReleasable st = (None, st')"
  by (auto simp: try_release_def split: prod.splits option.splits)

lemma step_source_ok:
  assumes "source_step answers st out st'" "source_ok glog answers cpos rel st"
  shows "source_ok glog answers cpos (rel @ out) st'"
  using assms
proof (induction rule: source_step.induct)
  case (step_release st r st')
  then show ?case using try_release_cases(1) [of st r st'] pick_release_ok [of rel st r] by auto
next
  case (step_no_release st st')
  then show ?case using try_release_cases(2) [of st st'] pick_none_ok [of rel st st'] by auto
next
  case (step_arrive st g ou now)
  then show ?case using arrive_source_ok [of glog answers cpos rel st g ou now] by simp
next
  case (step_collect nba bsz now st st')
  then show ?case using collect_source_ok [of rel st nba bsz now st'] by simp
next
  case (step_issue deadline now st st')
  then show ?case using issueScans_source_ok [of glog answers cpos rel st deadline now st'] by simp
qed simp

lemma ready_source_ok:
  assumes "source_ready st"
  shows "source_ok glog answers cpos [] st"
proof -
  have "group_ok glog answers cpos [] (ss_client st) g" if "g \<in> set (ss_groups st)" for g
  proof -
    have g: "sg_started g" "1 \<le> sg_fromTs g" "sg_scannedTs g = sg_fromTs g - 1" "\<not> sg_haveContinuation g"
      "sg_pages g = []" "known (ss_client st) (sg_id g)" "call_of (ss_client st) (sg_id g) = None"
      using assms that by (auto simp: source_ready_def list_all_iff)
    have n: "fetched glog [] g = start_pos glog cpos (sg_id g) (StartFromTs (sg_fromTs g))"
      using g(5) by (simp add: fetched_def released_of_def buffered_def log_base_def start_pos_def)
    have "sg_fromTs g \<noteq> 0" using g(2) by auto
    then have "sg_fromTs g - 1 < sg_fromTs g" "sg_fromTs g - 1 \<noteq> -1"
      using unat_minus_one [of "sg_fromTs g"] by (auto simp: word_less_nat_alt unat_gt_0)
    then show ?thesis
      using g n from_ts_pos [of "sg_id g" "sg_fromTs g"]
      by (auto simp: group_ok_def released_of_def buffered_def group_start_def)
  qed
  then show ?thesis
    using assms by (simp add: source_ok_def source_ready_def order_ok_def list_all_iff)
qed

lemma run_source_ok:
  assumes "source_run answers st0 rel st" "source_ready st0"
  shows "source_ok glog answers cpos rel st"
  using assms by (induction rule: source_run.induct) (auto simp: ready_source_ok step_source_ok)

text \<open>What a group has released is a prefix of its log from the start timestamp.\<close>

lemma filter_from_ts:
  "sorted (map item_ts xs) \<Longrightarrow>
     filter (\<lambda>x. f \<le> item_ts x) xs = drop (length (takeWhile (\<lambda>x. item_ts x < f) xs)) xs"
proof (induction xs)
  case (Cons a xs)
  show ?case
  proof (cases "item_ts a < f")
    case False
    then have "\<forall>x \<in> set xs. f \<le> item_ts x" using Cons.prems by (auto simp: not_less)
    then have "filter (\<lambda>x. f \<le> item_ts x) xs = xs" by (simp add: filter_id_conv)
    then show ?thesis using False by simp
  qed (use Cons in \<open>auto\<close>)
qed simp

lemma prefix_of_take:
  assumes "r @ b = take (length r + length b) xs"
  shows "r = take (length r) xs"
proof -
  have "length (r @ b) \<le> length xs" using assms by (metis length_take min.cobounded1)
  then have "length r = length (take (length r) xs)" by simp
  then show ?thesis using assms by (simp add: take_add)
qed

lemma released_prefix:
  assumes "group_ok glog answers cpos rel cl g"
  shows "filter (\<lambda>x. sg_fromTs g \<le> item_ts x) (glog (sg_id g)) = released_of rel g @ pending glog rel g"
proof -
  let ?L = "glog (sg_id g)" and ?r = "released_of rel g"
  have f: "filter (\<lambda>x. sg_fromTs g \<le> item_ts x) ?L = drop (log_base glog g) ?L"
    using ts_sorted by (simp add: log_base_def filter_from_ts)
  have "?r @ buffered g = take (length ?r + length (buffered g)) (drop (log_base glog g) ?L)"
    using assms by (simp add: group_ok_def)
  from prefix_of_take [OF this] have "?r = take (length ?r) (drop (log_base glog g) ?L)" .
  moreover have "pending glog rel g = drop (length ?r) (drop (log_base glog g) ?L)"
    by (simp add: pending_def add.commute)
  ultimately show ?thesis by (metis f append_take_drop_id)
qed

text \<open>When nothing can be released, nothing at or below \<open>emitBound\<close> is left.\<close>

lemma foldl_min_le:
  "foldl (\<lambda>b g. min b (f g)) b gs \<le> (b :: 'a :: linorder) \<and> (\<forall>g \<in> set gs. foldl (\<lambda>b g. min b (f g)) b gs \<le> f g)"
proof (induction gs arbitrary: b)
  case (Cons g gs)
  show ?case using Cons.IH [of "min b (f g)"] by auto
qed simp

lemma emitBound_le: "g \<in> set (ss_groups st) \<Longrightarrow> emitBound st \<le> sg_scannedTs g"
  using foldl_min_le [of sg_scannedTs "-1" "ss_groups st"] by (simp add: emitBound_def)

lemma pick_none_blocked:
  assumes ok: "source_ok glog answers cpos rel st" and none: "pickReleasable st = (None, st')"
  obtains hs where "heads st = (hs, st')"
    "\<And>j t k. j < length hs \<Longrightarrow> hs ! j = Some (t, k) \<Longrightarrow> emitBound st' < t"
proof -
  obtain hs st1 where h: "heads st = (hs, st1)" by (cases "heads st")
  show thesis
  proof (cases "choose_head hs 0 None")
    case None
    then have "\<forall>j < length hs. hs ! j = None" by (simp add: choose_head_None list_all_length)
    moreover have "st' = st1" using none h None by (simp add: pickReleasable_def)
    ultimately show thesis using that [of hs] h by simp
  next
    case (Some best)
    obtain i ts k where b: "best = (i, ts, k)" by (cases best)
    then have ch: "choose_head hs 0 None = Some (i, ts, k)" using Some by simp
    note best = choose_head_best [OF ch]
    have i: "i < length hs" "hs ! i = Some (ts, k)" using best by auto
    then obtain freed where "source_head (ss_groups st ! i) = (Some (ts, k), ss_groups st1 ! i, freed)"
      using heads_cases(5) [OF h, of i] by auto
    then have "sg_pages (ss_groups st1 ! i) \<noteq> []" using source_head_cases by fastforce
    then have blocked: "emission_blocked (ss_groups st1) i ts" and st': "st' = st1"
      using none h ch by (auto simp: pickReleasable_def split: if_splits list.splits prod.splits)
    obtain j where j: "j < length (ss_groups st1)" "sg_scannedTs (ss_groups st1 ! j) + 1 < ts"
      using blocked by (auto simp: emission_blocked_def list_ex_iff set_zip)
    have "group_ok glog answers cpos rel (ss_client st1) (ss_groups st1 ! j)"
      using heads_source_ok [OF ok h] j(1) by (simp add: source_ok_def list_all_length)
    then have "sg_scannedTs (ss_groups st1 ! j) < sg_scannedTs (ss_groups st1 ! j) + 1"
      by (simp add: group_ok_def succ_pos unat_succ word_less_nat_alt)
    then have "emitBound st' < ts"
      using j(2) st' emitBound_le [of "ss_groups st1 ! j" st1] j(1) by (meson le_less_trans less_trans nth_mem)
    then show thesis
      using that [of hs] h st' best by (meson less_le_trans)
  qed
qed

lemma pick_none_drained:
  assumes ok: "source_ok glog answers cpos rel st" and none: "pickReleasable st = (None, st')"
    and g: "g \<in> set (ss_groups st')" and y: "y \<in> set (pending glog rel g)"
  shows "emitBound st' < item_ts y"
proof -
  obtain hs where h: "heads st = (hs, st')"
    and low: "\<And>j t k. j < length hs \<Longrightarrow> hs ! j = Some (t, k) \<Longrightarrow> emitBound st' < t"
    using pick_none_blocked [OF ok none] by metis
  have ok': "source_ok glog answers cpos rel st'" using heads_source_ok [OF ok h] .
  then have gok: "group_ok glog answers cpos rel (ss_client st') g"
    using g by (simp add: source_ok_def list_all_iff)
  obtain j where j: "j < length (ss_groups st')" "g = ss_groups st' ! j"
    using g by (auto simp: in_set_conv_nth)
  have len: "length hs = length (ss_groups st')"
    using heads_cases(3,4) [OF h] by (simp add: list_all2_lengthD)
  obtain freed where sh: "source_head (ss_groups st ! j) = (hs ! j, g, freed)"
    using heads_cases(5) [OF h, of j] j len by auto
  have same: "buffered g = buffered (ss_groups st ! j)" using source_head_cases [OF sh] by simp
  show ?thesis
  proof (cases "hs ! j")
    case None
    then have "buffered g = []" using head_is_first [OF sh] same by simp
    then have "y \<in> set (drop (fetched glog rel g) (glog (sg_id g)))" using y pending_split [OF gok] by simp
    then show ?thesis using gok emitBound_le [OF g] by (auto simp: group_ok_def)
  next
    case (Some hk)
    obtain t k where hk: "hk = (t, k)" by (cases hk)
    then obtain x xs where "buffered g = x # xs" "item_ts x = t"
      using head_is_first [OF sh] same Some by auto
    then have "t \<le> item_ts y"
      using y pending_split [OF gok] pending_sorted [of rel g] by auto
    then show ?thesis using low [of j t k] Some hk j len by simp
  qed
qed

end

section \<open>A pass of next is a run\<close>

lemma run_arrive:
  "source_run answers st0 rel st \<Longrightarrow> arrivals_ok answers arr (ss_client st) \<Longrightarrow>
     source_run answers st0 rel (arrive arr st)"
proof (induction answers arr "ss_client st" arbitrary: st rule: arrivals_ok.induct)
  case (2 answers g ou now arr)
  have "source_run answers st0 rel (arrive [(g, ou, now)] st)"
    using run_step [OF 2(2) step_arrive [of answers st g ou now]] 2(3) by simp
  from 2(1) [OF _ this] show ?case using 2(3) by (simp add: arrive_def)
qed (simp add: arrive_def)

lemma run_quiet: "source_run answers st0 rel st \<Longrightarrow> source_step answers st [] st' \<Longrightarrow> source_run answers st0 rel st'"
  using run_step [of answers st0 rel st "[]" st'] by simp

lemma next_pass_cases:
  assumes run: "source_run answers st0 rel st"
    and arr: "pass_arrivals_ok answers nba bsz deadline (now1, now2, now3, now4) arr st"
    and pass: "next_pass nba bsz first deadline (now1, now2, now3, now4) arr st = Inr (res, st')"
  obtains st4 o4 st5 where "source_run answers st0 rel st4" "try_release st4 = (o4, st5)"
    "case res of Released r \<Rightarrow> o4 = Some r \<and> st' = st5
       | Drained \<Rightarrow> o4 = None \<and> st' = st5\<lparr>ss_drained := True\<rparr> \<and> deadline \<le> now4
       | WaitUntil t \<Rightarrow> o4 = None \<and> st' = st5 \<and> now4 < deadline \<and> t \<le> deadline"
proof -
  obtain st1 where c1: "collectCompletions nba bsz now1 st = Inr st1"
    using pass by (auto simp: next_pass_def)
  have run1: "source_run answers st0 rel st1" using run_quiet [OF run step_collect [OF c1]] .
  obtain o2 st2 where t2: "try_release st1 = (o2, st2)" by (cases "try_release st1")
  show thesis
  proof (cases o2)
    case (Some r)
    then have "res = Released r \<and> st' = st2" using pass c1 t2 by (auto simp: next_pass_def)
    then show thesis using that [OF run1 t2] Some by simp
  next
    case None
    have run2: "source_run answers st0 rel st2"
      using run_quiet [OF run1 step_no_release] t2 None by simp
    show thesis
    proof (cases "first \<or> deadline - now2 > kShortestLongPoll")
      case False
      then show thesis
        using that [OF run1 t2] pass c1 t2 None by (auto simp: next_pass_def split: if_splits)
    next
      case True
      then obtain st3 where i3: "issueScans deadline now2 st2 = Inr st3"
        using pass c1 t2 None by (auto simp: next_pass_def)
      then obtain st4 where c4: "collectCompletions nba bsz now3 (arrive arr st3) = Inr st4"
        using pass c1 t2 None True by (auto simp: next_pass_def)
      have run3: "source_run answers st0 rel st3" using run_quiet [OF run2 step_issue [OF i3]] .
      have "arrivals_ok answers arr (ss_client st3)"
        using arr c1 t2 i3 by (simp add: pass_arrivals_ok_def)
      then have run4: "source_run answers st0 rel st4"
        using run_quiet [OF run_arrive [OF run3] step_collect [OF c4]] by simp
      obtain o5 st5 where t5: "try_release st4 = (o5, st5)" by (cases "try_release st4")
      show thesis
        using that [OF run4 t5] pass c1 t2 None True i3 c4 t5
        by (cases o5) (auto simp: next_pass_def split: if_splits)
    qed
  qed
qed

lemma next_pass_run:
  assumes "source_run answers st0 rel st"
    and "pass_arrivals_ok answers nba bsz deadline nows arr st"
    and "next_pass nba bsz first deadline nows arr st = Inr (res, st')"
  shows "source_run answers st0 (rel @ pass_released res) st'"
proof -
  obtain now1 now2 now3 now4 where n: "nows = (now1, now2, now3, now4)" by (cases nows)
  obtain st4 o4 st5 where r: "source_run answers st0 rel st4" and t: "try_release st4 = (o4, st5)"
    and c: "case res of Released r \<Rightarrow> o4 = Some r \<and> st' = st5
       | Drained \<Rightarrow> o4 = None \<and> st' = st5\<lparr>ss_drained := True\<rparr> \<and> deadline \<le> now4
       | WaitUntil t \<Rightarrow> o4 = None \<and> st' = st5 \<and> now4 < deadline \<and> t \<le> deadline"
    using next_pass_cases [OF assms(1) assms(2) [unfolded n] assms(3) [unfolded n]] by metis
  show ?thesis
  proof (cases res)
    case (Released x)
    then show ?thesis using run_step [OF r step_release] t c by (simp add: pass_released_def)
  next
    case Drained
    then show ?thesis
      using run_quiet [OF run_quiet [OF r step_no_release] step_drained] t c by (simp add: pass_released_def)
  next
    case (WaitUntil w)
    then show ?thesis using run_quiet [OF r step_no_release] t c by (simp add: pass_released_def)
  qed
qed

end
