(* ===== verification/Source_Accounting.thy ===== *)
theory Source_Accounting
  imports Source_Merge
begin

text \<open>
  What the scan source keeps whatever the log service answers: its byte budget counts exactly the
  pages it holds, its groups stay started and known to the client, a pass fails only with the two
  errors a stream reports, and a pass never leaves a group that blocks emission without a call.
\<close>

section \<open>The invariant\<close>

definition group_bytes :: "source_group \<Rightarrow> int" where
  "group_bytes g = sum_list (map pg_bytes (sg_pages g))"

definition source_wf :: "scan_source \<Rightarrow> bool" where
  "source_wf st \<longleftrightarrow> ss_bufferedBytes st = sum_list (map group_bytes (ss_groups st)) \<and>
     list_all (\<lambda>g. sg_started g \<and> known (ss_client st) (sg_id g)) (ss_groups st)"

lemma ready_source_wf: "source_ready st \<Longrightarrow> source_wf st"
proof -
  assume r: "source_ready st"
  have "map group_bytes (ss_groups st) = map (\<lambda>g. 0) (ss_groups st)"
    using r by (auto simp: source_ready_def list_all_iff group_bytes_def)
  then have "sum_list (map group_bytes (ss_groups st)) = 0" by (simp only: sum_list_0)
  then show ?thesis using r by (auto simp: source_ready_def source_wf_def list_all_iff)
qed

lemma source_head_bytes:
  "source_head g = (h, g', freed) \<Longrightarrow>
     group_bytes g' = group_bytes g - freed \<and> sg_started g' = sg_started g \<and> sg_id g' = sg_id g"
  using source_head_cases [of g h g' freed] unfolding group_bytes_def
  by (metis (no_types, lifting) diff_diff_eq2 add_diff_cancel_left' source_group.select_convs source_group.surjective
      source_group.update_convs(8))

lemma heads_source_wf:
  assumes "source_wf st" "heads st = (hs, st')"
  shows "source_wf st'"
proof -
  have b: "group_bytes (fst (snd (source_head g))) = group_bytes g - snd (snd (source_head g)) \<and>
      sg_started (fst (snd (source_head g))) = sg_started g \<and> sg_id (fst (snd (source_head g))) = sg_id g" for g
    using source_head_bytes [of g "fst (source_head g)" "fst (snd (source_head g))" "snd (snd (source_head g))"]
    by simp
  have "sum_list (map (group_bytes \<circ> (fst \<circ> snd) \<circ> source_head) gs) =
      sum_list (map group_bytes gs) - sum_list (map (snd \<circ> snd \<circ> source_head) gs)" for gs
    by (induction gs) (simp_all add: b)
  then show ?thesis
    using assms b by (auto simp: source_wf_def heads_def Let_def list_all_iff comp_assoc)
qed

lemma sum_list_group_update:
  "i < length gs \<Longrightarrow> group_bytes g' = group_bytes (gs ! i) \<Longrightarrow>
     sum_list (map group_bytes (gs[i := g'])) = sum_list (map group_bytes gs)"
  by (metis list_update_id map_update)

lemma pick_source_wf:
  assumes wf: "source_wf st" and pick: "pickReleasable st = (r, st')"
  shows "source_wf st'"
proof (cases r)
  case None
  obtain hs st1 where h: "heads st = (hs, st1)" by (cases "heads st")
  then have "st' = st1"
    using pick None by (auto simp: pickReleasable_def split: option.splits list.splits if_splits prod.splits)
  then show ?thesis using heads_source_wf [OF wf h] by simp
next
  case (Some x)
  with pick have "pickReleasable st = (Some x, st')" by simp
  then obtain hs st1 i p ps p' where h: "heads st = (hs, st1)" and i: "i < length (ss_groups st1)"
    and p: "sg_pages (ss_groups st1 ! i) = p # ps" "pg_bytes p' = pg_bytes p"
    and st': "st' = st1\<lparr>ss_groups := (ss_groups st1)[i := (ss_groups st1 ! i)\<lparr>sg_pages := p' # ps\<rparr>]\<rparr>"
    by (rule pickReleasable_Some)
  have wf1: "source_wf st1" using heads_source_wf [OF wf h] .
  have "group_bytes ((ss_groups st1 ! i)\<lparr>sg_pages := p' # ps\<rparr>) = group_bytes (ss_groups st1 ! i)"
    using p by (simp add: group_bytes_def)
  moreover have "list_all (\<lambda>g. sg_started g \<and> known (ss_client st1) (sg_id g))
      ((ss_groups st1)[i := (ss_groups st1 ! i)\<lparr>sg_pages := p' # ps\<rparr>])"
    using wf1 i by (auto simp: source_wf_def list_all_length nth_list_update)
  ultimately show ?thesis
    using wf1 i st' sum_list_group_update by (simp add: source_wf_def)
qed

section \<open>Collecting\<close>

lemma admit_frame:
  assumes "admit bsz opts cmpl resp now g cl bytes = Inr (g', cl', bytes')"
  shows "known cl' = known cl \<and> sg_id g' = sg_id g \<and> sg_started g' = sg_started g \<and>
    bytes' - bytes = group_bytes g' - group_bytes g"
proof -
  define n where "n \<longleftrightarrow> rs_data resp \<noteq> [] \<or> rs_ddl resp \<noteq> []"
  define g1 where "g1 = g\<lparr>sg_arrivalCompleteTs := max (sg_arrivalCompleteTs g) (rs_arrival_complete_ts resp),
    sg_continuation := rs_continuation resp, sg_haveContinuation := True,
    sg_scannedTs := admit_scanned resp (sg_scannedTs g)\<rparr>"
  define g2 where "g2 = (if n then g1\<lparr>sg_pages := sg_pages g1 @
    [\<lparr>pg_response = resp, pg_dataIndex = 0, pg_ddlIndex = 0, pg_bytes = bsz resp\<rparr>]\<rparr> else g1)"
  have p: "pauseIfIdleEarly opts cmpl resp (sg_arrivalCompleteTs g) now g2 cl = Inr (g', cl')"
    and b: "bytes' = (if n then bytes + bsz resp else bytes)"
    using assms by (auto simp: admit_def Let_def n_def g1_def g2_def)
  obtain w where "g' = g2\<lparr>sg_idleBackoff := w\<rparr>" "known cl' = known cl"
    using pauseIfIdleEarly_frame [OF p] by blast
  then show ?thesis using b by (simp add: g1_def g2_def group_bytes_def)
qed

lemma collect_one_frame:
  assumes "collect_one nba bsz opts now g cl bytes = Inr (g', cl', bytes')"
  shows "known cl' = known cl \<and> sg_id g' = sg_id g \<and> sg_started g' = sg_started g \<and>
    bytes' - bytes = group_bytes g' - group_bytes g"
proof -
  obtain taken cl1 where t: "takeCompleted nba (sg_id g) now now cl = Inr (taken, cl1)"
    using assms by (auto simp: collect_one_def)
  show ?thesis
  proof (cases taken)
    case None
    then show ?thesis
      using t assms takeCompleted_None [of nba "sg_id g" now now cl cl1] by (simp add: collect_one_def)
  next
    case (Some cmpl)
    then have k: "known cl1 = known cl" using t takeCompleted_Some by blast
    show ?thesis
    proof (cases "cp_status cmpl")
      case kOk
      then obtain resp where "admit bsz opts cmpl resp now g cl1 bytes = Inr (g', cl', bytes')"
        using assms t Some by (cases "cp_response cmpl") (auto simp: collect_one_def)
      then show ?thesis using admit_frame k by metis
    qed (use assms t Some k in \<open>simp_all add: collect_one_def\<close>)
  qed
qed

lemma collect_groups_frame:
  "collect_groups nba bsz opts now gs cl bytes = Inr (gs', cl', bytes') \<Longrightarrow>
     known cl' = known cl \<and> map sg_id gs' = map sg_id gs \<and> map sg_started gs' = map sg_started gs \<and>
     bytes' - bytes = sum_list (map group_bytes gs') - sum_list (map group_bytes gs)"
proof (induction gs arbitrary: cl bytes gs' cl' bytes')
  case (Cons g gs)
  obtain g1 cl1 b1 where c: "collect_one nba bsz opts now g cl bytes = Inr (g1, cl1, b1)"
    using Cons.prems by (auto simp: collect_groups_Cons)
  obtain gs1 where r: "collect_groups nba bsz opts now gs cl1 b1 = Inr (gs1, cl', bytes')" "gs' = g1 # gs1"
    using Cons.prems c by (auto simp: collect_groups_Cons)
  show ?case using Cons.IH [OF r(1)] collect_one_frame [OF c] r(2) by simp
qed simp

lemma list_all_fields:
  assumes "map sg_id gs' = map sg_id gs" "map sg_started gs' = map sg_started gs"
  shows "list_all (\<lambda>g. sg_started g \<and> P (sg_id g)) gs' = list_all (\<lambda>g. sg_started g \<and> P (sg_id g)) gs"
proof -
  have l: "length gs' = length gs" using assms(1) by (metis length_map)
  have "sg_id (gs' ! i) = sg_id (gs ! i) \<and> sg_started (gs' ! i) = sg_started (gs ! i)" if "i < length gs" for i
    using assms l that by (metis nth_map)
  then show ?thesis using l by (simp add: list_all_length)
qed

lemma collect_source_wf:
  assumes "source_wf st" "collectCompletions nba bsz now st = Inr st'"
  shows "source_wf st'"
proof -
  obtain gs cl b where c: "collect_groups nba bsz (ss_options st) now (ss_groups st) (ss_client st)
      (ss_bufferedBytes st) = Inr (gs, cl, b)"
    and st': "st' = st\<lparr>ss_groups := gs, ss_client := cl, ss_bufferedBytes := b\<rparr>"
    using assms(2) by (auto simp: collectCompletions_def)
  show ?thesis
    using assms(1) collect_groups_frame [OF c] list_all_fields [of gs "ss_groups st" "known (ss_client st)"] st'
    by (simp add: source_wf_def)
qed

section \<open>Issuing and runs\<close>

lemma issueScans_source_wf:
  assumes "source_wf st" "issueScans deadline now st = Inr st'"
  shows "source_wf st'"
proof -
  obtain hs st1 where h: "heads st = (hs, st1)" by (cases "heads st")
  obtain cl where i: "issue_groups (ss_options st1) deadline now (lowest_buffered hs) (ss_bufferedBytes st1)
              (zip (ss_groups st1) (map (\<lambda>h. h \<noteq> None) hs)) (ss_client st1) = Inr cl"
    and st': "st' = st1\<lparr>ss_client := cl\<rparr>"
    using assms(2) h by (auto simp: issueScans_def)
  show ?thesis
    using heads_source_wf [OF assms(1) h] issue_groups_frame [OF i] st' by (simp add: source_wf_def)
qed

lemma step_source_wf: "source_step answers st out st' \<Longrightarrow> source_wf st \<Longrightarrow> source_wf st'"
proof (induction rule: source_step.induct)
  case (step_arrive st g ou now)
  then show ?case
    using scan_done_frame [of g ou now "ss_client st"] by (simp add: source_wf_def arrive_def)
next
  case (step_release st r st')
  then obtain st1 where "pickReleasable st = (Some r, st1)" "st' = st1\<lparr>ss_drained := False\<rparr>"
    by (auto simp: try_release_def split: prod.splits option.splits)
  then show ?case using pick_source_wf [of st "Some r" st1] step_release by (simp add: source_wf_def)
next
  case (step_no_release st st')
  then have "pickReleasable st = (None, st')"
    by (auto simp: try_release_def split: prod.splits option.splits)
  then show ?case using pick_source_wf step_no_release by blast
next
  case (step_collect nba bsz now st st')
  then show ?case using collect_source_wf [of st nba bsz now st'] by simp
next
  case (step_issue deadline now st st')
  then show ?case using issueScans_source_wf [of st deadline now st'] by simp
qed (simp add: source_wf_def)

lemma run_source_wf: "source_run answers st0 rel st \<Longrightarrow> source_ready st0 \<Longrightarrow> source_wf st"
  by (induction rule: source_run.induct) (auto simp: ready_source_wf step_source_wf)

section \<open>Errors\<close>

abbreviation stream_errors :: "error_code set" where
  "stream_errors \<equiv> {ChangeStreamHistoryLost, CommandNotSupported}"

lemma admit_known:
  assumes "known cl (sg_id g)"
  shows "\<exists>x. admit bsz opts cmpl resp now g cl bytes = Inr x"
proof -
  define n where "n \<longleftrightarrow> rs_data resp \<noteq> [] \<or> rs_ddl resp \<noteq> []"
  define g1 where "g1 = g\<lparr>sg_arrivalCompleteTs := max (sg_arrivalCompleteTs g) (rs_arrival_complete_ts resp),
    sg_continuation := rs_continuation resp, sg_haveContinuation := True,
    sg_scannedTs := admit_scanned resp (sg_scannedTs g)\<rparr>"
  define g2 where "g2 = (if n then g1\<lparr>sg_pages := sg_pages g1 @
    [\<lparr>pg_response = resp, pg_dataIndex = 0, pg_ddlIndex = 0, pg_bytes = bsz resp\<rparr>]\<rparr> else g1)"
  have "known cl (sg_id g2)" using assms by (simp add: g1_def g2_def)
  from pauseIfIdleEarly_known [OF this] obtain x
    where "pauseIfIdleEarly opts cmpl resp (sg_arrivalCompleteTs g) now g2 cl = Inr x" by blast
  then show ?thesis by (cases x; cases n) (auto simp: admit_def Let_def n_def g1_def g2_def)
qed

lemma collect_one_error:
  assumes "known cl (sg_id g)" "collect_one nba bsz opts now g cl bytes = Inl e"
  shows "e \<in> stream_errors"
proof -
  obtain taken cl1 where t: "takeCompleted nba (sg_id g) now now cl = Inr (taken, cl1)"
    using takeCompleted_known [OF assms(1)] by fastforce
  obtain cmpl where c: "taken = Some cmpl" using assms(2) t by (cases taken) (auto simp: collect_one_def)
  have k: "known cl1 = known cl" using t c takeCompleted_Some by blast
  show ?thesis
  proof (cases "cp_status cmpl")
    case kOk
    then obtain resp where r: "cp_response cmpl = Some resp" using t c takeCompleted_Some by blast
    then have "admit bsz opts cmpl resp now g cl1 bytes = Inl e"
      using assms(2) t c kOk by (simp add: collect_one_def)
    then show ?thesis using admit_known [of cl1 g] assms(1) k by (metis Inl_Inr_False)
  qed (use assms(2) t c in \<open>simp_all add: collect_one_def\<close>)
qed

lemma collect_groups_error:
  "\<forall>g \<in> set gs. known cl (sg_id g) \<Longrightarrow> collect_groups nba bsz opts now gs cl bytes = Inl e \<Longrightarrow> e \<in> stream_errors"
proof (induction gs arbitrary: cl bytes)
  case (Cons g gs)
  show ?case
  proof (cases "collect_one nba bsz opts now g cl bytes")
    case (Inl e')
    then show ?thesis using collect_one_error [of cl g] Cons.prems by (auto simp: collect_groups_Cons)
  next
    case (Inr x)
    obtain g1 cl1 b1 where x: "x = (g1, cl1, b1)" by (cases x)
    have "known cl1 = known cl" using collect_one_frame Inr x by blast
    moreover have "collect_groups nba bsz opts now gs cl1 b1 = Inl e"
      using Cons.prems(2) Inr x
      by (cases "collect_groups nba bsz opts now gs cl1 b1") (auto simp: collect_groups_Cons)
    ultimately show ?thesis using Cons.IH [of cl1 b1] Cons.prems(1) by simp
  qed
qed simp

lemma collect_error:
  assumes "source_wf st" "collectCompletions nba bsz now st = Inl e"
  shows "e \<in> stream_errors"
proof -
  have "collect_groups nba bsz (ss_options st) now (ss_groups st) (ss_client st) (ss_bufferedBytes st) = Inl e"
    using assms(2) by (cases "collect_groups nba bsz (ss_options st) now (ss_groups st) (ss_client st)
      (ss_bufferedBytes st)") (auto simp: collectCompletions_def)
  then show ?thesis using collect_groups_error assms(1) by (fastforce simp: source_wf_def list_all_iff)
qed

text \<open>Issuing cannot fail, and it leaves no blocking group without a call it could have been given.\<close>

lemma issue_readyAt: "issue g rq t now cl = Inr cl' \<Longrightarrow> readyAt cl' h = readyAt cl h"
  by (auto simp: issue_def readyAt_def client_group_def Let_def split: option.splits if_splits)

definition awaited :: "int \<Rightarrow> scan_client \<Rightarrow> u32 \<Rightarrow> bool" where
  "awaited now cl g \<longleftrightarrow> call_of cl g \<noteq> None \<or> (case readyAt cl g of Inl e \<Rightarrow> False | Inr t \<Rightarrow> now < t)"

lemma issue_one:
  assumes "known cl (sg_id g)"
  obtains cl1 where "issue_groups opts deadline now low bytes ((g, hb) # gzs) cl =
      issue_groups opts deadline now low bytes gzs cl1" "known cl1 = known cl"
    "\<And>h. awaited now cl h \<Longrightarrow> awaited now cl1 h" "group_lagging low g \<Longrightarrow> awaited now cl1 (sg_id g)"
proof -
  let ?rq = "scanRequest opts g deadline now"
  obtain ready where r: "readyAt cl (sg_id g) = Inr ready" using readyAt_known [OF assms] by blast
  note busy = inFlight_call [OF assms]
  define go where "go \<longleftrightarrow> call_of cl (sg_id g) = None \<and> ready \<le> now \<and> (hb \<longrightarrow> group_lagging low g) \<and>
    (group_lagging low g \<or> bytes + int (inFlightCount cl) * uint (sp_maxBytesPerScan opts) < sp_bufferBytes opts)"
  show thesis
  proof (cases go)
    case False
    then have "issue_groups opts deadline now low bytes ((g, hb) # gzs) cl =
        issue_groups opts deadline now low bytes gzs cl"
      using r busy by (auto simp: go_def)
    then show thesis using that [of cl] False r by (auto simp: awaited_def go_def)
  next
    case True
    then obtain cl1 where i: "issue (sg_id g) ?rq (uint (rq_wait_ms ?rq) + sp_rpcSlack opts) now cl = Inr cl1"
      using issue_known [OF assms] unfolding go_def by metis
    have f: "known cl1 = known cl" "\<exists>c. call_of cl1 = (call_of cl)(sg_id g \<mapsto> c)"
      using issue_frame [OF i] by auto
    have "issue_groups opts deadline now low bytes ((g, hb) # gzs) cl =
        issue_groups opts deadline now low bytes gzs cl1"
      using r busy True i by (auto simp: go_def Let_def)
    then show thesis using that [of cl1] f issue_readyAt [OF i] by (auto simp: awaited_def)
  qed
qed

lemma issue_groups_awaits:
  "\<forall>(g, hb) \<in> set gzs. known cl (sg_id g) \<Longrightarrow>
     \<exists>cl'. issue_groups opts deadline now low bytes gzs cl = Inr cl' \<and>
       (\<forall>h. awaited now cl h \<longrightarrow> awaited now cl' h) \<and>
       (\<forall>(g, hb) \<in> set gzs. group_lagging low g \<longrightarrow> awaited now cl' (sg_id g))"
proof (induction gzs arbitrary: cl)
  case (Cons gz gzs)
  obtain g hb where gz: "gz = (g, hb)" by (cases gz)
  have "known cl (sg_id g)" using Cons.prems gz by simp
  then obtain cl1 where c: "issue_groups opts deadline now low bytes (gz # gzs) cl =
      issue_groups opts deadline now low bytes gzs cl1" "known cl1 = known cl"
    "\<And>h. awaited now cl h \<Longrightarrow> awaited now cl1 h" "group_lagging low g \<Longrightarrow> awaited now cl1 (sg_id g)"
    using issue_one [of cl g opts deadline now low bytes hb gzs] gz by metis
  obtain cl' where "issue_groups opts deadline now low bytes gzs cl1 = Inr cl'"
    "\<forall>h. awaited now cl1 h \<longrightarrow> awaited now cl' h"
    "\<forall>(g, hb) \<in> set gzs. group_lagging low g \<longrightarrow> awaited now cl' (sg_id g)"
    using Cons.IH [of cl1] Cons.prems c(2) by auto
  then show ?case unfolding c(1) using c(3,4) gz by auto
qed simp

lemma earliest_known:
  assumes "source_wf st"
  shows "\<exists>t. earliestDeferredReady now st = Inr t"
proof -
  have *: "\<forall>g \<in> set gs. known cl (sg_id g) \<Longrightarrow> \<exists>t. foldl (\<lambda>r g. rbind r (\<lambda>earliest.
     rbind (readyAt cl (sg_id g)) (\<lambda>ready. rbind (inFlight cl (sg_id g)) (\<lambda>busy.
     Inr (if \<not> busy \<and> ready > now then min earliest ready else earliest))))) (Inr e) gs = Inr t" for gs cl e
  proof (induction gs arbitrary: e)
    case (Cons g gs)
    have "known cl (sg_id g)" using Cons.prems by simp
    from readyAt_known [OF this] inFlight_call [OF this] Cons.IH Cons.prems
    show ?case by auto
  qed simp
  show ?thesis
    unfolding earliestDeferredReady_def using assms by (intro *) (simp add: source_wf_def list_all_iff)
qed

lemma source_wf_groups: "source_wf st \<Longrightarrow> \<forall>g \<in> set (ss_groups st). known (ss_client st) (sg_id g)"
  by (simp add: source_wf_def list_all_iff)

lemma issueScans_total:
  assumes "source_wf st"
  shows "\<exists>st'. issueScans deadline now st = Inr st'"
proof -
  obtain hs st1 where h: "heads st = (hs, st1)" by (cases "heads st")
  have "\<forall>(g, hb) \<in> set (zip (ss_groups st1) (map (\<lambda>h. h \<noteq> None) hs)). known (ss_client st1) (sg_id g)"
    using source_wf_groups [OF heads_source_wf [OF assms h]] by (auto dest: set_zip_leftD)
  from issue_groups_awaits [OF this] h show ?thesis by (fastforce simp: issueScans_def)
qed

lemma next_pass_error:
  assumes wf: "source_wf st" and fail: "next_pass nba bsz first deadline nows arr st = Inl e"
  shows "e \<in> stream_errors"
proof -
  obtain now1 now2 now3 now4 where n: "nows = (now1, now2, now3, now4)" by (cases nows)
  have started: "list_all sg_started (ss_groups st)" using wf by (simp add: source_wf_def list_all_iff)
  show ?thesis
  proof (cases "collectCompletions nba bsz now1 st")
    case (Inl e')
    then show ?thesis using fail n started collect_error [OF wf] by (simp add: next_pass_def)
  next
    case c1: (Inr st1)
    have wf1: "source_wf st1" using collect_source_wf [OF wf c1] .
    obtain o2 st2 where t2: "try_release st1 = (o2, st2)" by (cases "try_release st1")
    have none: "o2 = None" using fail n started c1 t2 by (cases o2) (simp_all add: next_pass_def)
    then have wf2: "source_wf st2"
      using step_source_wf [OF step_no_release wf1] t2 by blast
    obtain st3 where i3: "issueScans deadline now2 st2 = Inr st3" using issueScans_total [OF wf2] by blast
    have wf3: "source_wf (arrive arr st3)"
    proof -
      have "known (fold (\<lambda>(g, ou, now). scan_done g ou now) arr cl) = known cl" for cl
        by (induction arr arbitrary: cl) (auto simp: scan_done_frame)
      then show ?thesis using issueScans_source_wf [OF wf2 i3] by (simp add: source_wf_def arrive_def)
    qed
    show ?thesis
    proof (cases "first \<or> deadline - now2 > kShortestLongPoll")
      case False
      then show ?thesis
        using fail n started c1 t2 none earliest_known [OF wf2, of now4]
        by (auto simp: next_pass_def split: if_splits)
    next
      case True
      show ?thesis
      proof (cases "collectCompletions nba bsz now3 (arrive arr st3)")
        case (Inl e')
        then show ?thesis
          using fail n started c1 t2 none i3 True collect_error [OF wf3] by (simp add: next_pass_def)
      next
        case c4: (Inr st4)
        obtain o5 st5 where t5: "try_release st4 = (o5, st5)" by (cases "try_release st4")
        have "o5 = None"
          using fail n started c1 t2 none i3 True c4 t5 by (cases o5) (simp_all add: next_pass_def)
        then have "source_wf st5"
          using step_source_wf [OF step_no_release collect_source_wf [OF wf3 c4]] t5 by blast
        from earliest_known [OF this, of now4] show ?thesis
          using fail n started c1 t2 none i3 True c4 t5 \<open>o5 = None\<close>
          by (auto simp: next_pass_def split: if_splits)
      qed
    qed
  qed
qed

section \<open>A blocked source waits for someone\<close>

lemma source_head_idem:
  assumes "source_head g = (h, g', freed)"
  shows "source_head g' = (h, g', 0)"
proof (cases h)
  case None
  then have "sg_pages g' = []" using source_head_cases [OF assms] by simp
  then show ?thesis using None by (simp add: source_head_def)
next
  case (Some hk)
  then obtain p ps where p: "sg_pages g' = p # ps" "page_rest p \<noteq> []" "page_head p = hk"
    using source_head_cases [OF assms] by auto
  then have "drop_released (p # ps) = (p # ps, 0)" using page_rest_Nil by auto
  then show ?thesis using p Some by (simp add: source_head_def)
qed

lemma heads_idem:
  assumes "heads st = (hs, st')"
  shows "heads st' = (hs, st')"
proof -
  have i: "source_head (fst (snd (source_head g))) = (fst (source_head g), fst (snd (source_head g)), 0)" for g
    using source_head_idem [of g "fst (source_head g)" "fst (snd (source_head g))" "snd (snd (source_head g))"] by simp
  have "map source_head (ss_groups st') = map (\<lambda>h. (fst h, fst (snd h), 0)) (map source_head (ss_groups st))"
    using assms i by (auto simp: heads_def Let_def)
  then show ?thesis using assms by (auto simp: heads_def Let_def comp_def)
qed

lemma choose_head_lowest:
  "foldl (\<lambda>low h. case h of None \<Rightarrow> low | Some (ts, k) \<Rightarrow> Some (case low of None \<Rightarrow> ts | Some l \<Rightarrow> min l ts))
     (map_option (fst \<circ> snd) best) hs = map_option (fst \<circ> snd) (choose_head hs i best)"
proof (induction hs i best rule: choose_head.induct)
  case (3 ts k hs i best)
  show ?case
  proof (cases best)
    case None
    then show ?thesis using 3 by simp
  next
    case (Some b)
    obtain j bts bk where "b = (j, bts, bk)" by (cases b)
    then show ?thesis using Some 3(2) [OF Some, of j "(bts, bk)" bts bk] by (auto simp: min_def)
  qed
qed simp_all

lemma blocked_is_awaited:
  assumes wf: "source_wf st" and none: "pickReleasable st = (None, st1)"
    and some: "g \<in> set (ss_groups st1)" "buffered g \<noteq> []"
    and issue: "issueScans deadline now st1 = Inr st2"
  shows "\<exists>h \<in> set (ss_groups st2). group_lagging (lowest_buffered (fst (heads st2))) h \<and>
    awaited now (ss_client st2) (sg_id h)"
proof -
  obtain hs st1' where h: "heads st = (hs, st1')" by (cases "heads st")
  have st1: "st1' = st1"
    using none h by (auto simp: pickReleasable_def split: option.splits list.splits if_splits prod.splits)
  have h1: "heads st1 = (hs, st1)" using heads_idem [OF h] st1 by simp
  obtain j where j: "j < length hs" "g = ss_groups st1 ! j"
    using some(1) heads_cases(3) [OF h1] by (auto simp: in_set_conv_nth)
  obtain fr where sh: "source_head g = (hs ! j, g, fr)" using heads_cases(5) [OF h1 j(1)] j(2) by auto
  have "hs ! j \<noteq> None"
    using source_head_cases [OF sh] some(2) by (cases "hs ! j") (simp_all add: buffered_def)
  then have "choose_head hs 0 None \<noteq> None" using j(1) by (auto simp: choose_head_None list_all_length)
  then obtain i ts k where ch: "choose_head hs 0 None = Some (i, ts, k)" by auto
  have low: "lowest_buffered hs = Some ts"
    using choose_head_lowest [of None hs 0] ch by (simp add: lowest_buffered_def)
  have i: "i < length hs" "hs ! i = Some (ts, k)" using choose_head_best [OF ch] by auto
  obtain fr' where sh': "source_head (ss_groups st1 ! i) = (Some (ts, k), ss_groups st1 ! i, fr')"
    using heads_cases(5) [OF h1 i(1)] i(2) by auto
  have "sg_pages (ss_groups st1 ! i) \<noteq> []" using source_head_cases [OF sh'] by auto
  then have "emission_blocked (ss_groups st1) i ts"
    using none h ch st1 by (auto simp: pickReleasable_def split: if_splits list.splits prod.splits)
  then obtain m where m: "m < length (ss_groups st1)" "group_lagging (Some ts) (ss_groups st1 ! m)"
    by (auto simp: emission_blocked_def list_ex_iff set_zip group_lagging_def)
  let ?zs = "zip (ss_groups st1) (map (\<lambda>h. h \<noteq> None) hs)"
  have "\<forall>(g, hb) \<in> set ?zs. known (ss_client st1) (sg_id g)"
    using source_wf_groups [OF pick_source_wf [OF wf none]] by (auto dest: set_zip_leftD)
  then obtain cl where cl: "issue_groups (ss_options st1) deadline now (lowest_buffered hs) (ss_bufferedBytes st1) ?zs
      (ss_client st1) = Inr cl" "\<forall>(g, hb) \<in> set ?zs. group_lagging (lowest_buffered hs) g \<longrightarrow> awaited now cl (sg_id g)"
    using issue_groups_awaits by blast
  have st2: "st2 = st1\<lparr>ss_client := cl\<rparr>" using issue h1 cl(1) by (simp add: issueScans_def)
  have "(ss_groups st1 ! m, hs ! m \<noteq> None) \<in> set ?zs"
    using m(1) heads_cases(3) [OF h1] by (auto simp: set_zip)
  then have "awaited now cl (sg_id (ss_groups st1 ! m))" using cl(2) low m(2) by (metis (no_types, lifting) case_prodD)
  moreover have "fst (heads st2) = hs" using h1 st2 by (auto simp: heads_def Let_def)
  ultimately show ?thesis using st2 low m by auto
qed

end
