(* ===== verification/Fake_Log_Service.thy ===== *)
theory Fake_Log_Service
  imports Source_Accounting
begin

text \<open>
  The in-process log service (\<open>cdc/cdc_fake_log_service.h\<close>, \<open>.cpp\<close>): per group a data stream and a
  DDL stream keyed as the logger keys them, a bound and a script of failures. The theory shows that
  it keeps the contract of \<open>Log_Model\<close>: whatever script is run, the pages it answers form a log
  service in the sense of the locale \<open>log_service\<close>, as long as the script adds no record at or below
  a bound it has announced. A closure that runs is an element of the list an operation returns; a
  failed call carries its error code.
\<close>

section \<open>Keys and positions\<close>

definition encodeKey :: "bytes \<Rightarrow> bytes" where
  "encodeKey key = be_bytes_n 2 (of_nat (length key) :: u64) @ key"

definition readKey :: "bytes \<Rightarrow> (bytes \<times> bytes) result" where
  "readKey c = rbind (rguard (2 \<le> length c) InvariantFailure) (\<lambda>_.
     let n = unat (be_word (take 2 c) :: u64); rest = drop 2 c
     in rbind (rguard (n \<le> length rest) InvariantFailure) (\<lambda>_. Inr (take n rest, drop n rest)))"

text \<open>A position is the data key and the DDL key each stream resumes strictly after.\<close>

definition decodeContinuation :: "bytes \<Rightarrow> (bytes \<times> bytes) result" where
  "decodeContinuation c = rbind (readKey c) (\<lambda>(dataKey, c1). rbind (readKey c1) (\<lambda>(ddlKey, c2).
     rbind (rguard (c2 = []) InvariantFailure) (\<lambda>_. Inr (dataKey, ddlKey))))"

definition encodeContinuation :: "bytes \<times> bytes \<Rightarrow> bytes" where
  "encodeContinuation pos = encodeKey (fst pos) @ encodeKey (snd pos)"

section \<open>State\<close>

datatype fake_mode = kInline | kAsync | kHeld

record fake_action =
  ac_fail :: bool
  ac_redirect :: bytes

text \<open>A call is known by its controller.\<close>

record pending_call =
  pc_cntl :: nat
  pc_request :: scan_request

datatype fake_outcome = FakeFailed int | FakeAnswer scan_response

record fake_group =
  fg_data :: "(bytes \<times> data_record) list"
  fg_ddl :: "(bytes \<times> ddl_record) list"
  fg_bound :: u64
  fg_floor :: u64
  fg_actions :: "fake_action list"
  fg_nodes :: "(u32 \<times> bytes list) list"
  fg_leader :: u32
  fg_failureCode :: int
  fg_mode :: fake_mode
  fg_held :: "pending_call list"
  fg_requests :: "scan_request list"
  fg_targets :: "u32 list"
  fg_nodesFollowed :: "u32 list"
  fg_refreshes :: int

record fake_service =
  fs_groups :: "(u32 \<times> fake_group) list"
  fs_threads :: "(u32 \<times> pending_call) list"
  fs_cancelRunsDone :: bool
  fs_cancels :: int

type_synonym closures = "(nat \<times> fake_outcome) list"

definition fresh_fake_group :: "bytes \<Rightarrow> fake_group" where
  "fresh_fake_group address = \<lparr>fg_data = [], fg_ddl = [], fg_bound = 0, fg_floor = 0, fg_actions = [],
     fg_nodes = [(0, [address])], fg_leader = 0, fg_failureCode = 0, fg_mode = kInline, fg_held = [],
     fg_requests = [], fg_targets = [], fg_nodesFollowed = [], fg_refreshes = 0\<rparr>"

text \<open>The constructor; \<open>node_name\<close> gives the address \<open>log-<group>-a:9000\<close> of a group's first node.\<close>

definition make_fake :: "(u32 \<Rightarrow> bytes) \<Rightarrow> u32 list \<Rightarrow> fake_service" where
  "make_fake node_name ids = \<lparr>fs_groups = fold (\<lambda>g. om_put g (fresh_fake_group (node_name g))) ids [],
     fs_threads = [], fs_cancelRunsDone = True, fs_cancels = 0\<rparr>"

definition fake_group_of :: "fake_service \<Rightarrow> u32 \<Rightarrow> fake_group result" where
  "fake_group_of fs g = (case map_of (fs_groups fs) g of None \<Rightarrow> Inl InvariantFailure | Some grp \<Rightarrow> Inr grp)"

definition put_fake_group :: "u32 \<Rightarrow> fake_group \<Rightarrow> fake_service \<Rightarrow> fake_service" where
  "put_fake_group g grp fs = fs\<lparr>fs_groups := om_put g grp (fs_groups fs)\<rparr>"

definition with_group :: "u32 \<Rightarrow> (fake_group \<Rightarrow> fake_group) \<Rightarrow> fake_service \<Rightarrow> fake_service result" where
  "with_group g f fs = rbind (fake_group_of fs g) (\<lambda>grp. Inr (put_fake_group g (f grp) fs))"

section \<open>The script\<close>

definition fake_addDataBlob :: "u32 \<Rightarrow> u64 \<Rightarrow> u32 \<Rightarrow> u64 \<Rightarrow> bytes \<Rightarrow> fake_service \<Rightarrow> fake_service result" where
  "fake_addDataBlob g commitTs ngId txn blob =
     (let d = \<lparr>dr_commit_ts = commitTs, dr_cc_ng_id = ngId, dr_txn_number = txn, dr_blob = blob\<rparr>
      in with_group g (\<lambda>grp. grp\<lparr>fg_data := om_put (dataKey d) d (fg_data grp)\<rparr>))"

definition fake_addData :: "u32 \<Rightarrow> u64 \<Rightarrow> u32 \<Rightarrow> u64 \<Rightarrow> nat \<Rightarrow> fake_service \<Rightarrow> fake_service result" where
  "fake_addData g commitTs ngId txn blobBytes =
     fake_addDataBlob g commitTs ngId txn (map (\<lambda>i. ucast (txn + of_nat i)) [0..<blobBytes])"

definition fake_addDdl :: "u32 \<Rightarrow> u64 \<Rightarrow> u64 \<Rightarrow> schema_op \<Rightarrow> fake_service \<Rightarrow> fake_service result" where
  "fake_addDdl g ddlTs txn op =
     (let e = \<lparr>dd_ddl_ts = ddlTs, dd_catalog_ts = ddlTs, dd_txn_number = txn, dd_schema_op = op\<rparr>
      in with_group g (\<lambda>grp. grp\<lparr>fg_ddl := om_put (ddlKey e) e (fg_ddl grp)\<rparr>))"

definition fake_setBound :: "u32 \<Rightarrow> u64 \<Rightarrow> fake_service \<Rightarrow> fake_service result" where
  "fake_setBound g bound = with_group g (\<lambda>grp. grp\<lparr>fg_bound := bound\<rparr>)"

definition fake_setRetentionFloor :: "u32 \<Rightarrow> u64 \<Rightarrow> fake_service \<Rightarrow> fake_service result" where
  "fake_setRetentionFloor g floor = with_group g (\<lambda>grp. grp\<lparr>fg_floor := floor\<rparr>)"

definition fake_failNext :: "u32 \<Rightarrow> fake_service \<Rightarrow> fake_service result" where
  "fake_failNext g = with_group g (\<lambda>grp.
     grp\<lparr>fg_actions := fg_actions grp @ [\<lparr>ac_fail = True, ac_redirect = []\<rparr>]\<rparr>)"

definition fake_setFailureCode :: "u32 \<Rightarrow> int \<Rightarrow> fake_service \<Rightarrow> fake_service result" where
  "fake_setFailureCode g code = with_group g (\<lambda>grp. grp\<lparr>fg_failureCode := code\<rparr>)"

definition fake_notLeaderNext :: "u32 \<Rightarrow> bytes \<Rightarrow> fake_service \<Rightarrow> fake_service result" where
  "fake_notLeaderNext g redirect = with_group g (\<lambda>grp.
     grp\<lparr>fg_actions := fg_actions grp @ [\<lparr>ac_fail = False, ac_redirect = redirect\<rparr>]\<rparr>)"

definition fake_addNode :: "u32 \<Rightarrow> u32 \<Rightarrow> bytes list \<Rightarrow> fake_service \<Rightarrow> fake_service result" where
  "fake_addNode g nodeId addresses = with_group g (\<lambda>grp.
     let old = (case map_of (fg_nodes grp) nodeId of None \<Rightarrow> [] | Some as \<Rightarrow> as)
     in grp\<lparr>fg_nodes := om_put nodeId (fold List.insert addresses old) (fg_nodes grp)\<rparr>)"

definition fake_setLeader :: "u32 \<Rightarrow> u32 \<Rightarrow> fake_service \<Rightarrow> fake_service result" where
  "fake_setLeader g nodeId fs = rbind (fake_group_of fs g) (\<lambda>grp.
     rbind (rguard (map_of (fg_nodes grp) nodeId \<noteq> None) InvariantFailure) (\<lambda>_.
     Inr (put_fake_group g (grp\<lparr>fg_leader := nodeId\<rparr>) fs)))"

definition fake_setCompletion :: "u32 \<Rightarrow> fake_mode \<Rightarrow> fake_service \<Rightarrow> fake_service result" where
  "fake_setCompletion g mode = with_group g (\<lambda>grp. grp\<lparr>fg_mode := mode\<rparr>)"

definition fake_setCancelRunsDone :: "bool \<Rightarrow> fake_service \<Rightarrow> fake_service" where
  "fake_setCancelRunsDone runsDone fs = fs\<lparr>fs_cancelRunsDone := runsDone\<rparr>"

definition fake_heldCount :: "fake_service \<Rightarrow> u32 \<Rightarrow> nat result" where
  "fake_heldCount fs g = rbind (fake_group_of fs g) (\<lambda>grp. Inr (length (fg_held grp)))"

section \<open>Answering\<close>

definition ECANCELED :: int where
  "ECANCELED = 125"

definition EHOSTDOWN :: int where
  "EHOSTDOWN = 112"

text \<open>The two iterators stand where \<open>upper_bound\<close> puts them.\<close>

definition map_upper_bound :: "'k :: linorder \<Rightarrow> ('k \<times> 'v) list \<Rightarrow> ('k \<times> 'v) list" where
  "map_upper_bound k m = dropWhile (\<lambda>kv. fst kv \<le> k) m"

text \<open>
  The loop that fills the page: the data and DDL records it adds, the position after them, and
  \<open>hasMore\<close>. \<open>sd\<close> and \<open>se\<close> are \<open>ByteSizeLong\<close> of the two messages.
\<close>

function page_loop ::
  "(data_record \<Rightarrow> nat) \<Rightarrow> (ddl_record \<Rightarrow> nat) \<Rightarrow> nat \<Rightarrow> u64 \<Rightarrow> (bytes \<times> data_record) list
     \<Rightarrow> (bytes \<times> ddl_record) list \<Rightarrow> nat \<Rightarrow> bytes \<Rightarrow> bytes
     \<Rightarrow> data_record list \<times> ddl_record list \<times> (bytes \<times> bytes) \<times> bool" where
  "page_loop sd se maxBytes bound ds es pageBytes dk ek =
     (let haveData = (ds \<noteq> [] \<and> dr_commit_ts (snd (hd ds)) \<le> bound);
          haveDdl = (es \<noteq> [] \<and> dd_ddl_ts (snd (hd es)) \<le> bound)
      in if \<not> haveData \<and> \<not> haveDdl then ([], [], (dk, ek), False)
         else (let takeData = (haveData \<and> (\<not> haveDdl \<or> dr_commit_ts (snd (hd ds)) \<le> dd_ddl_ts (snd (hd es))));
                   recordBytes = (if takeData then sd (snd (hd ds)) else se (snd (hd es)))
               in if pageBytes > 0 \<and> pageBytes + recordBytes > maxBytes then ([], [], (dk, ek), True)
                  else if takeData then
                    (case page_loop sd se maxBytes bound (tl ds) es (pageBytes + recordBytes) (fst (hd ds)) ek of
                       (ds', es', pos, hasMore) \<Rightarrow> (snd (hd ds) # ds', es', pos, hasMore))
                  else
                    (case page_loop sd se maxBytes bound ds (tl es) (pageBytes + recordBytes) dk (fst (hd es)) of
                       (ds', es', pos, hasMore) \<Rightarrow> (ds', snd (hd es) # es', pos, hasMore))))"
  by pat_completeness auto
termination
  by (relation "measure (\<lambda>(sd, se, maxBytes, bound, ds, es, pageBytes, dk, ek). length ds + length es)") auto

declare page_loop.simps [simp del]

definition start_position :: "scan_start \<Rightarrow> ((bytes \<times> bytes) \<times> u64) result" where
  "start_position start = (case start of
       StartContinuation c \<Rightarrow> rbind (decodeContinuation c) (\<lambda>(dk, ek).
         Inr ((dk, ek), if 8 \<le> length dk then be_word (take 8 dk)
                        else if 8 \<le> length ek then be_word (take 8 ek) else 0))
     | StartFromTs ts \<Rightarrow> Inr ((be_bytes_n 8 ts, be_bytes_n 8 ts), ts)
     | StartNone \<Rightarrow> Inr (([], []), 0))"

definition fake_answer ::
  "(data_record \<Rightarrow> nat) \<Rightarrow> (ddl_record \<Rightarrow> nat) \<Rightarrow> fake_group \<Rightarrow> scan_request
     \<Rightarrow> (fake_outcome \<times> fake_group) result" where
  "fake_answer sd se grp req =
     (if fg_failureCode grp \<noteq> 0 then Inr (FakeFailed (fg_failureCode grp), grp)
      else case fg_actions grp of
        a # as \<Rightarrow> Inr (if ac_fail a then FakeFailed EHOSTDOWN
                       else FakeAnswer (empty_response\<lparr>rs_status := ScanNotLeader, rs_redirect := ac_redirect a\<rparr>),
                       grp\<lparr>fg_actions := as\<rparr>)
      | [] \<Rightarrow> rbind (start_position (rq_start req)) (\<lambda>((dk, ek), positionTs).
          if fg_floor grp \<noteq> 0 \<and> positionTs \<noteq> 0 \<and> positionTs \<le> fg_floor grp
          then Inr (FakeAnswer (empty_response\<lparr>rs_status := ScanPositionTruncated\<rparr>), grp)
          else (case page_loop sd se (unat (rq_max_bytes req)) (fg_bound grp) (map_upper_bound dk (fg_data grp))
                  (map_upper_bound ek (fg_ddl grp)) 0 dk ek of
            (ds, es, pos, hasMore) \<Rightarrow> Inr (FakeAnswer (empty_response\<lparr>rs_status := ScanSuccess,
              rs_arrival_complete_ts := fg_bound grp, rs_data := ds, rs_ddl := es, rs_has_more := hasMore,
              rs_continuation := encodeContinuation pos\<rparr>), grp))))"

section \<open>The transport\<close>

definition fake_scan ::
  "(data_record \<Rightarrow> nat) \<Rightarrow> (ddl_record \<Rightarrow> nat) \<Rightarrow> u32 \<Rightarrow> nat \<Rightarrow> scan_request \<Rightarrow> fake_service
     \<Rightarrow> (u32 \<times> closures \<times> fake_service) result" where
  "fake_scan sd se g cntl req fs = rbind (fake_group_of fs g) (\<lambda>grp0.
     let grp = grp0\<lparr>fg_requests := fg_requests grp0 @ [req], fg_targets := fg_targets grp0 @ [fg_leader grp0]\<rparr>;
         c = \<lparr>pc_cntl = cntl, pc_request = req\<rparr>
     in case fg_mode grp of
          kInline \<Rightarrow> rbind (fake_answer sd se grp req) (\<lambda>(ou, grp').
            Inr (fg_leader grp0, [(cntl, ou)], put_fake_group g grp' fs))
        | kAsync \<Rightarrow> Inr (fg_leader grp0, [],
            (put_fake_group g grp fs)\<lparr>fs_threads := fs_threads fs @ [(g, c)]\<rparr>)
        | kHeld \<Rightarrow> Inr (fg_leader grp0, [],
            put_fake_group g (grp\<lparr>fg_held := fg_held grp @ [c]\<rparr>) fs))"

text \<open>An answering thread, the \<open>i\<close>-th of those started.\<close>

definition fake_thread ::
  "(data_record \<Rightarrow> nat) \<Rightarrow> (ddl_record \<Rightarrow> nat) \<Rightarrow> nat \<Rightarrow> fake_service \<Rightarrow> (closures \<times> fake_service) result" where
  "fake_thread sd se i fs = (if i < length (fs_threads fs) then
       (case fs_threads fs ! i of (g, c) \<Rightarrow> rbind (fake_group_of fs g) (\<lambda>grp.
          rbind (fake_answer sd se grp (pc_request c)) (\<lambda>(ou, grp').
          Inr ([(pc_cntl c, ou)],
            (put_fake_group g grp' fs)\<lparr>fs_threads := take i (fs_threads fs) @ drop (Suc i) (fs_threads fs)\<rparr>))))
     else Inr ([], fs))"

fun answer_all ::
  "(data_record \<Rightarrow> nat) \<Rightarrow> (ddl_record \<Rightarrow> nat) \<Rightarrow> pending_call list \<Rightarrow> fake_group
     \<Rightarrow> (closures \<times> fake_group) result" where
  "answer_all sd se [] grp = Inr ([], grp)"
| "answer_all sd se (c # cs) grp = rbind (fake_answer sd se grp (pc_request c)) (\<lambda>(ou, grp1).
     rbind (answer_all sd se cs grp1) (\<lambda>(outs, grp2). Inr ((pc_cntl c, ou) # outs, grp2)))"

definition fake_releaseHeld ::
  "(data_record \<Rightarrow> nat) \<Rightarrow> (ddl_record \<Rightarrow> nat) \<Rightarrow> u32 \<Rightarrow> fake_service \<Rightarrow> (closures \<times> fake_service) result" where
  "fake_releaseHeld sd se g fs = rbind (fake_group_of fs g) (\<lambda>grp.
     rbind (answer_all sd se (fg_held grp) (grp\<lparr>fg_held := []\<rparr>)) (\<lambda>(outs, grp').
     Inr (outs, put_fake_group g grp' fs)))"

definition fake_nodeByAddress :: "fake_service \<Rightarrow> u32 \<Rightarrow> bytes \<Rightarrow> u32 option result" where
  "fake_nodeByAddress fs g address = rbind (fake_group_of fs g) (\<lambda>grp.
     Inr (map_option fst (List.find (\<lambda>(nodeId, addresses). address \<in> set addresses) (fg_nodes grp))))"

definition fake_followNode :: "u32 \<Rightarrow> u32 \<Rightarrow> fake_service \<Rightarrow> fake_service result" where
  "fake_followNode g nodeId fs = rbind (fake_group_of fs g) (\<lambda>grp.
     rbind (rguard (map_of (fg_nodes grp) nodeId \<noteq> None) InvariantFailure) (\<lambda>_.
     Inr (put_fake_group g
       (grp\<lparr>fg_leader := nodeId, fg_nodesFollowed := fg_nodesFollowed grp @ [nodeId]\<rparr>) fs)))"

definition fake_requestLeaderRefresh :: "u32 \<Rightarrow> fake_service \<Rightarrow> fake_service result" where
  "fake_requestLeaderRefresh g = with_group g (\<lambda>grp. grp\<lparr>fg_refreshes := fg_refreshes grp + 1\<rparr>)"

text \<open>\<open>cancel\<close> takes the controller's first held call, in group order.\<close>

fun remove_held :: "nat \<Rightarrow> (u32 \<times> fake_group) list \<Rightarrow> (u32 \<times> fake_group) list \<times> bool" where
  "remove_held cntl [] = ([], False)"
| "remove_held cntl ((g, grp) # gs) =
     (if list_ex (\<lambda>c. pc_cntl c = cntl) (fg_held grp)
      then ((g, grp\<lparr>fg_held := takeWhile (\<lambda>c. pc_cntl c \<noteq> cntl) (fg_held grp)
                @ tl (dropWhile (\<lambda>c. pc_cntl c \<noteq> cntl) (fg_held grp))\<rparr>) # gs, True)
      else (let (gs', found) = remove_held cntl gs in ((g, grp) # gs', found)))"

definition fake_cancel :: "nat \<Rightarrow> fake_service \<Rightarrow> closures \<times> fake_service" where
  "fake_cancel cntl fs0 = (let fs = fs0\<lparr>fs_cancels := fs_cancels fs0 + 1\<rparr> in
     if \<not> fs_cancelRunsDone fs then ([], fs)
     else (let (gs, found) = remove_held cntl (fs_groups fs)
           in (if found then [(cntl, FakeFailed ECANCELED)] else [], fs\<lparr>fs_groups := gs\<rparr>)))"

text \<open>The destructor: the answering threads are joined, then every held call fails.\<close>

fun join_threads ::
  "(data_record \<Rightarrow> nat) \<Rightarrow> (ddl_record \<Rightarrow> nat) \<Rightarrow> (u32 \<times> pending_call) list \<Rightarrow> fake_service
     \<Rightarrow> (closures \<times> fake_service) result" where
  "join_threads sd se [] fs = Inr ([], fs)"
| "join_threads sd se ((g, c) # ts) fs = rbind (fake_group_of fs g) (\<lambda>grp.
     rbind (fake_answer sd se grp (pc_request c)) (\<lambda>(ou, grp').
     rbind (join_threads sd se ts (put_fake_group g grp' fs)) (\<lambda>(outs, fs').
     Inr ((pc_cntl c, ou) # outs, fs'))))"

definition destroy_fake ::
  "(data_record \<Rightarrow> nat) \<Rightarrow> (ddl_record \<Rightarrow> nat) \<Rightarrow> fake_service \<Rightarrow> (closures \<times> fake_service) result" where
  "destroy_fake sd se fs = rbind (join_threads sd se (fs_threads fs) (fs\<lparr>fs_threads := []\<rparr>)) (\<lambda>(outs, fs').
     Inr (outs @ concat (map (\<lambda>(g, grp). map (\<lambda>c. (pc_cntl c, FakeFailed ECANCELED)) (fg_held grp)) (fs_groups fs')),
       fs'\<lparr>fs_groups := map (\<lambda>(g, grp). (g, grp\<lparr>fg_held := []\<rparr>)) (fs_groups fs')\<rparr>))"

section \<open>Scripts\<close>

datatype fake_op =
    AddDataBlob u32 u64 u32 u64 bytes
  | AddDdl u32 u64 u64 schema_op
  | SetBound u32 u64
  | SetRetentionFloor u32 u64
  | FailNext u32
  | SetFailureCode u32 int
  | NotLeaderNext u32 bytes
  | AddNode u32 u32 "bytes list"
  | SetLeader u32 u32
  | SetCompletion u32 fake_mode
  | SetCancelRunsDone bool
  | ReleaseHeld u32
  | Scan u32 nat scan_request
  | Thread nat
  | FollowNode u32 u32
  | RequestLeaderRefresh u32
  | Cancel nat

definition fake_step ::
  "(data_record \<Rightarrow> nat) \<Rightarrow> (ddl_record \<Rightarrow> nat) \<Rightarrow> fake_op \<Rightarrow> fake_service \<Rightarrow> fake_service result" where
  "fake_step sd se op fs = (case op of
       AddDataBlob g ts ng txn blob \<Rightarrow> fake_addDataBlob g ts ng txn blob fs
     | AddDdl g ts txn so \<Rightarrow> fake_addDdl g ts txn so fs
     | SetBound g b \<Rightarrow> fake_setBound g b fs
     | SetRetentionFloor g f \<Rightarrow> fake_setRetentionFloor g f fs
     | FailNext g \<Rightarrow> fake_failNext g fs
     | SetFailureCode g c \<Rightarrow> fake_setFailureCode g c fs
     | NotLeaderNext g r \<Rightarrow> fake_notLeaderNext g r fs
     | AddNode g n as \<Rightarrow> fake_addNode g n as fs
     | SetLeader g n \<Rightarrow> fake_setLeader g n fs
     | SetCompletion g m \<Rightarrow> fake_setCompletion g m fs
     | SetCancelRunsDone b \<Rightarrow> Inr (fake_setCancelRunsDone b fs)
     | ReleaseHeld g \<Rightarrow> map_sum id snd (fake_releaseHeld sd se g fs)
     | Scan g cntl req \<Rightarrow> map_sum id (snd \<circ> snd) (fake_scan sd se g cntl req fs)
     | Thread i \<Rightarrow> map_sum id snd (fake_thread sd se i fs)
     | FollowNode g n \<Rightarrow> fake_followNode g n fs
     | RequestLeaderRefresh g \<Rightarrow> fake_requestLeaderRefresh g fs
     | Cancel c \<Rightarrow> Inr (snd (fake_cancel c fs)))"

text \<open>A failed invariant ends the process; the script leaves the state as it was.\<close>

definition run_script ::
  "(data_record \<Rightarrow> nat) \<Rightarrow> (ddl_record \<Rightarrow> nat) \<Rightarrow> fake_op list \<Rightarrow> fake_service \<Rightarrow> fake_service" where
  "run_script sd se ops fs = fold (\<lambda>op fs. case fake_step sd se op fs of Inl e \<Rightarrow> fs | Inr fs' \<Rightarrow> fs') ops fs"

section \<open>Key order\<close>

text \<open>Big-endian keys compare as the numbers they hold.\<close>

fun be_nat :: "bytes \<Rightarrow> nat" where
  "be_nat [] = 0"
| "be_nat (b # bs) = unat b * 256 ^ length bs + be_nat bs"

lemma be_nat_less: "be_nat bs < 256 ^ length bs"
proof (induction bs)
  case (Cons b bs)
  have "unat b * 256 ^ length bs + be_nat bs < (unat b + 1) * 256 ^ length bs"
    using Cons by (simp add: algebra_simps)
  also have "\<dots> \<le> 256 * 256 ^ length bs"
    using unat_u8_le [of b] by (intro mult_right_mono) simp_all
  finally show ?case by simp
qed simp

lemma be_nat_mono: "length bs = length cs \<Longrightarrow> bs < cs \<longleftrightarrow> be_nat bs < be_nat cs"
proof (induction bs cs rule: list_induct2)
  case (Cons b bs c cs)
  have cs: "be_nat bs < 256 ^ length cs" "be_nat cs < 256 ^ length cs"
    using be_nat_less [of bs] be_nat_less [of cs] Cons.hyps by simp_all
  show ?case
  proof (cases b c rule: linorder_cases)
    case less
    then have "unat b * 256 ^ length cs + 256 ^ length cs \<le> unat c * 256 ^ length cs"
      by (metis add.commute mult_Suc mult_le_mono1 Suc_leI word_less_nat_alt)
    then show ?thesis using less cs Cons.hyps by simp
  next
    case greater
    then have "unat c * 256 ^ length cs + 256 ^ length cs \<le> unat b * 256 ^ length cs"
      by (metis add.commute mult_Suc mult_le_mono1 Suc_leI word_less_nat_alt)
    then show ?thesis using greater cs Cons.hyps by (auto simp: not_less_iff_gr_or_eq)
  qed (use Cons in simp)
qed simp

lemma be_nat_be_bytes_n: "be_nat (be_bytes_n n w) = unat (w :: 'a::len word) mod 256 ^ n"
proof (induction n)
  case (Suc n)
  have "unat (ucast x :: u8) = unat x mod 256" for x :: "'a word"
    by (simp add: unsigned_ucast_eq take_bit_eq_mod)
  moreover have "unat (drop_bit (8 * n) w) = unat w div 2 ^ (8 * n)"
    by (subst unat_drop_bit_eq) (rule drop_bit_eq_div)
  ultimately have "unat (ucast (drop_bit (8 * n) w) :: u8) = unat w div 256 ^ n mod 256"
    by (simp add: power_mult del: drop_bit_eq_div)
  then show ?case using Suc mod_mult2_eq [of "unat w" "256 ^ n" 256] by (simp add: mult.commute)
qed simp

lemma be_bytes_n_less:
  fixes v w :: u64
  shows "be_bytes_n 8 v < be_bytes_n 8 w \<longleftrightarrow> v < w"
proof -
  have "unat u < 256 ^ 8" for u :: u64 using unsigned_less [of u] by simp
  then show ?thesis
    by (simp add: be_nat_mono be_nat_be_bytes_n word_less_nat_alt del: be_bytes_n_numeral)
qed

lemma be_bytes_n_eq: "be_bytes_n 8 v = be_bytes_n 8 w \<longleftrightarrow> v = (w :: u64)"
  by (metis be_bytes_n_less less_irrefl linorder_neqE)

lemma append_less_append:
  "length xs = length ys \<Longrightarrow> xs @ r < ys @ (s :: 'a :: linorder list) \<longleftrightarrow> xs < ys \<or> xs = ys \<and> r < s"
  by (induction xs ys rule: list_induct2) auto

text \<open>A key that starts with a timestamp orders by it, and lies after the bare timestamp.\<close>

lemma ts_key_less:
  fixes t u f :: u64
  shows "be_bytes_n 8 t @ r < be_bytes_n 8 u @ s \<Longrightarrow> t \<le> u"
    and "r \<noteq> [] \<Longrightarrow> be_bytes_n 8 f < be_bytes_n 8 t @ r \<longleftrightarrow> f \<le> t"
proof -
  have less: "be_bytes_n 8 v @ x < be_bytes_n 8 w @ y \<longleftrightarrow> v < w \<or> v = w \<and> x < y" for v w :: u64 and x y
    using append_less_append [of "be_bytes_n 8 v" "be_bytes_n 8 w" x y] be_bytes_n_less be_bytes_n_eq
    by (simp del: be_bytes_n_numeral)
  show "be_bytes_n 8 t @ r < be_bytes_n 8 u @ s \<Longrightarrow> t \<le> u" using less by auto
  show "r \<noteq> [] \<Longrightarrow> be_bytes_n 8 f < be_bytes_n 8 t @ r \<longleftrightarrow> f \<le> t"
    using less [of f "[]" t r] by (cases r) (auto simp del: be_bytes_n_numeral)
qed

section \<open>Stores\<close>

text \<open>A stream's store: in key order, each record under its own key, which starts with its timestamp.\<close>

definition store_ok :: "('r \<Rightarrow> bytes) \<Rightarrow> (bytes \<times> 'r) list \<Rightarrow> bool" where
  "store_ok key m \<longleftrightarrow> om_inv m \<and> list_all (\<lambda>(k, r). k = key r) m"

lemma store_ok_put: "store_ok key m \<Longrightarrow> store_ok key (om_put (key r) r m)"
proof -
  have "set (om_put k v m) \<subseteq> insert (k, v) (set m)" for k v m
    by (induction k v m rule: om_put.induct) auto
  then show "store_ok key m \<Longrightarrow> store_ok key (om_put (key r) r m)"
    by (fastforce simp: store_ok_def om_inv_om_put list_all_iff)
qed

lemma sorted_dropWhile_filter:
  "sorted_wrt R xs \<Longrightarrow> (\<And>x y. R x y \<Longrightarrow> P y \<Longrightarrow> P x) \<Longrightarrow>
     takeWhile P xs = filter P xs \<and> dropWhile P xs = filter (\<lambda>x. \<not> P x) xs"
proof (induction xs)
  case (Cons x xs)
  show ?case
  proof (cases "P x")
    case False
    then have "\<forall>y \<in> set xs. \<not> P y" using Cons.prems by auto
    then have "filter P xs = []" "filter (\<lambda>x. \<not> P x) xs = xs" by (auto simp: filter_empty_conv filter_id_conv)
    then show ?thesis using False by simp
  qed (use Cons in simp)
qed simp

lemma last_key_between:
  assumes s: "sorted_wrt (\<lambda>x y. fst x < (fst y :: 'k :: linorder)) A" and above: "\<forall>x \<in> set A. k < fst x"
    and i: "i \<le> length A"
  shows "k \<le> last (k # map fst (take i A)) \<and> (\<forall>x \<in> set (take i A). fst x \<le> last (k # map fst (take i A))) \<and>
    (\<forall>x \<in> set (drop i A). last (k # map fst (take i A)) < fst x)"
proof (cases i)
  case 0
  then show ?thesis using above by simp
next
  case (Suc n)
  then have l: "last (k # map fst (take i A)) = fst (A ! n)"
    using i by (cases A) (auto simp: last_conv_nth Suc_le_lessD)
  have "k \<le> fst (A ! n)" using above i Suc by (simp add: less_imp_le)
  moreover have "fst (A ! j) \<le> fst (A ! n)" if "j < i" for j
    using sorted_wrt_nth_less [OF s, of j n] i that Suc by (cases "j = n") (auto intro: less_imp_le)
  moreover have "fst (A ! n) < fst (A ! (i + j))" if "i + j < length A" for j
    using sorted_wrt_nth_less [OF s, of n "i + j"] that Suc by simp
  ultimately show ?thesis
    using i unfolding l by (simp add: all_set_conv_all_nth)
qed

locale ts_store =
  fixes key :: "'r \<Rightarrow> bytes" and ts :: "'r \<Rightarrow> u64"
  assumes key_ts: "\<exists>s. s \<noteq> [] \<and> key r = be_bytes_n 8 (ts r) @ s"
    and key_length: "length (key r) < 65536"
begin

lemma store_keys: "store_ok key m \<Longrightarrow> sorted_wrt (\<lambda>x y. fst x < fst y) m"
  by (simp add: store_ok_def om_inv_def sorted_wrt_map)

lemma store_ts:
  assumes "store_ok key m"
  shows "sorted_wrt (\<lambda>x y. ts (snd x) \<le> ts (snd y)) m"
proof -
  have "ts (snd x) \<le> ts (snd y)" if "x \<in> set m" "y \<in> set m" "fst x < fst y" for x y
  proof -
    have "fst x = key (snd x)" "fst y = key (snd y)"
      using assms that by (auto simp: store_ok_def list_all_iff)
    then show ?thesis using that(3) ts_key_less(1) key_ts by metis
  qed
  then show ?thesis using store_keys [OF assms] by (auto intro: sorted_wrt_mono_rel [rotated])
qed

lemma upper_bound_filter:
  assumes "store_ok key m"
  shows "map_upper_bound k m = filter (\<lambda>x. k < fst x) m"
  using sorted_dropWhile_filter [OF store_keys [OF assms], of "\<lambda>x. fst x \<le> k"]
  by (auto simp: map_upper_bound_def not_le)

lemma upper_bound_split:
  assumes "store_ok key m"
  shows "m = filter (\<lambda>x. fst x \<le> k) m @ map_upper_bound k m"
  using sorted_dropWhile_filter [OF store_keys [OF assms], of "\<lambda>x. fst x \<le> k"]
  by (metis (mono_tags, lifting) dual_order.trans less_imp_le map_upper_bound_def takeWhile_dropWhile_id)

lemma below_ts:
  assumes "store_ok key m"
  shows "filter (\<lambda>x. fst x \<le> be_bytes_n 8 f) m = filter (\<lambda>x. ts (snd x) < f) m"
proof (rule filter_cong [OF refl])
  fix x assume "x \<in> set m"
  then have "fst x = key (snd x)" using assms by (auto simp: store_ok_def list_all_iff)
  then have "be_bytes_n 8 f < fst x \<longleftrightarrow> f \<le> ts (snd x)"
    using key_ts [of "snd x"] ts_key_less(2) by metis
  then show "(fst x \<le> be_bytes_n 8 f) = (ts (snd x) < f)" by (metis not_le)
qed

lemma below_none:
  assumes "store_ok key m"
  shows "filter (\<lambda>x. fst x \<le> []) m = []"
proof -
  have "fst x \<noteq> []" if "x \<in> set m" for x
  proof -
    have "fst x = key (snd x)" using assms that by (auto simp: store_ok_def list_all_iff)
    then show ?thesis using key_ts [of "snd x"] by auto
  qed
  then show ?thesis by (auto simp: filter_empty_conv)
qed

text \<open>A bound hides what lies above it, wherever the stream is read from.\<close>

lemma upper_bound_within:
  assumes "store_ok key m"
  shows "takeWhile (\<lambda>x. ts (snd x) \<le> b) (map_upper_bound k m) =
    filter (\<lambda>x. k < fst x) (filter (\<lambda>x. ts (snd x) \<le> b) m)"
proof -
  have "sorted_wrt (\<lambda>x y. ts (snd x) \<le> ts (snd y)) (map_upper_bound k m)"
    using store_ts [OF assms] by (simp add: upper_bound_filter [OF assms] sorted_wrt_filter)
  then have "takeWhile (\<lambda>x. ts (snd x) \<le> b) (map_upper_bound k m) =
      filter (\<lambda>x. ts (snd x) \<le> b) (map_upper_bound k m)"
    by (rule sorted_dropWhile_filter [THEN conjunct1]) auto
  then show ?thesis by (simp add: upper_bound_filter [OF assms] conj_commute)
qed

lemma upper_bound_advance:
  assumes m: "store_ok key m" and i: "i \<le> length (map_upper_bound k m)"
  shows "filter (\<lambda>x. fst x \<le> last (k # map fst (take i (map_upper_bound k m)))) m =
      filter (\<lambda>x. fst x \<le> k) m @ take i (map_upper_bound k m)"
    and "map_upper_bound (last (k # map fst (take i (map_upper_bound k m)))) m = drop i (map_upper_bound k m)"
proof -
  let ?B = "filter (\<lambda>x. fst x \<le> k) m" and ?A = "map_upper_bound k m"
  let ?k = "last (k # map fst (take i ?A))"
  have k: "k \<le> ?k" "\<forall>x \<in> set (take i ?A). fst x \<le> ?k" "\<forall>x \<in> set (drop i ?A). ?k < fst x"
  proof -
    have s: "sorted_wrt (\<lambda>x y. fst x < fst y) ?A"
      using store_keys [OF m] by (simp add: upper_bound_filter [OF m] sorted_wrt_filter)
    have above: "\<forall>x \<in> set ?A. k < fst x" by (simp add: upper_bound_filter [OF m])
    show "k \<le> ?k" "\<forall>x \<in> set (take i ?A). fst x \<le> ?k" "\<forall>x \<in> set (drop i ?A). ?k < fst x"
      using last_key_between [OF s above i] by simp_all
  qed
  have split: "m = (?B @ take i ?A) @ drop i ?A" using upper_bound_split [OF m, of k] by simp
  have low: "\<forall>x \<in> set (?B @ take i ?A). fst x \<le> ?k" using k by auto
  show 1: "filter (\<lambda>x. fst x \<le> ?k) m = ?B @ take i ?A"
  proof -
    have "filter (\<lambda>x. fst x \<le> ?k) m =
        filter (\<lambda>x. fst x \<le> ?k) (?B @ take i ?A) @ filter (\<lambda>x. fst x \<le> ?k) (drop i ?A)"
      using split by (metis filter_append)
    also have "filter (\<lambda>x. fst x \<le> ?k) (?B @ take i ?A) = ?B @ take i ?A"
      using low by (simp only: filter_id_conv)
    also have "filter (\<lambda>x. fst x \<le> ?k) (drop i ?A) = []"
      using k(3) by (simp only: filter_empty_conv not_le)
    finally show ?thesis by simp
  qed
  show "map_upper_bound ?k m = drop i ?A"
    using upper_bound_split [OF m, of ?k] split 1 by (metis same_append_eq)
qed

end

interpretation data_store: ts_store dataKey dr_commit_ts
  by unfold_locales (auto simp: dataKey_def)

interpretation ddl_store: ts_store ddlKey dd_ddl_ts
  by unfold_locales (auto simp: ddlKey_def)

section \<open>Cutting a merged log\<close>

primrec is_data :: "log_item \<Rightarrow> bool" where
  "is_data (DataItem d) = True"
| "is_data (DdlItem e) = False"

lemma filter_is_data [simp]: "filter is_data (map DataItem ds) = map DataItem ds" "filter is_data (map DdlItem es) = []"
  by (auto simp: filter_id_conv filter_empty_conv)

lemma count_data: "length (filter is_data (merge_streams ds es)) = length ds"
  by (induction ds es rule: merge_streams.induct) auto

lemma merge_cut:
  "n \<le> length ds + length es \<Longrightarrow> c = length (filter is_data (take n (merge_streams ds es))) \<Longrightarrow>
     c \<le> n \<and> take n (merge_streams ds es) = merge_streams (take c ds) (take (n - c) es) \<and>
     drop n (merge_streams ds es) = merge_streams (drop c ds) (drop (n - c) es)"
proof (induction ds es arbitrary: n c rule: merge_streams.induct)
  case (1 es)
  then show ?case by (simp add: take_map drop_map)
next
  case (2 d ds)
  then have "c = n" by (simp add: take_map del: take_Suc_Cons list.map)
  then show ?case by (simp add: take_map drop_map del: list.map)
next
  case (3 d ds e es)
  show ?case
  proof (cases n)
    case (Suc m)
    show ?thesis
    proof (cases "dr_commit_ts d \<le> dd_ddl_ts e")
      case True
      define c' where "c' = length (filter is_data (take m (merge_streams ds (e # es))))"
      have c: "c = Suc c'" using 3(4) Suc True by (simp add: c'_def)
      have "c' \<le> m \<and> take m (merge_streams ds (e # es)) = merge_streams (take c' ds) (take (m - c') (e # es)) \<and>
          drop m (merge_streams ds (e # es)) = merge_streams (drop c' ds) (drop (m - c') (e # es))"
        using 3(1) [OF True _ c'_def] 3(3) Suc by simp
      then show ?thesis using True Suc c by (cases "m - c'") simp_all
    next
      case False
      define c' where "c' = length (filter is_data (take m (merge_streams (d # ds) es)))"
      have c: "c = c'" using 3(4) Suc False by (simp add: c'_def)
      have cut: "c' \<le> m \<and> take m (merge_streams (d # ds) es) = merge_streams (take c' (d # ds)) (take (m - c') es) \<and>
          drop m (merge_streams (d # ds) es) = merge_streams (drop c' (d # ds)) (drop (m - c') es)"
        using 3(2) [OF False _ c'_def] 3(3) Suc by simp
      have nc: "n - c = Suc (m - c')" using cut Suc c by (simp add: Suc_diff_le)
      show ?thesis unfolding nc using cut False Suc c by (cases c') simp_all
    qed
  qed (use 3 in simp)
qed

lemma merge_sorted:
  "sorted (map dr_commit_ts ds) \<Longrightarrow> sorted (map dd_ddl_ts es) \<Longrightarrow> sorted (map item_ts (merge_streams ds es))"
proof (induction ds es rule: merge_streams.induct)
  case (1 es)
  then show ?case by (simp add: comp_def)
next
  case (2 d ds)
  then show ?case by (simp add: comp_def del: list.map)
next
  case (3 d ds e es)
  show ?case
  proof (cases "dr_commit_ts d \<le> dd_ddl_ts e")
    case True
    then show ?thesis using 3 by (auto intro: order_trans)
  next
    case False
    then show ?thesis using 3 by (auto simp: not_le intro: order_trans less_imp_le)
  qed
qed

lemma filter_merge:
  assumes "\<And>d. P (DataItem d) = Q d" "\<And>e. P (DdlItem e) = R e"
  shows "length (filter P (merge_streams ds es)) = length (filter Q ds) + length (filter R es)"
    "length (filter is_data (filter P (merge_streams ds es))) = length (filter Q ds)"
  using assms by (induction ds es rule: merge_streams.induct) (auto simp: filter_map comp_def)

section \<open>The page\<close>

text \<open>The loop by the record it takes: none within the bound, the next data record, the next DDL record.\<close>

lemma page_stop:
  "\<not> (ds \<noteq> [] \<and> dr_commit_ts (snd (hd ds)) \<le> bound) \<Longrightarrow> \<not> (es \<noteq> [] \<and> dd_ddl_ts (snd (hd es)) \<le> bound) \<Longrightarrow>
     page_loop sd se maxb bound ds es pb dk ek = ([], [], (dk, ek), False)"
  by (subst page_loop.simps) (simp only: Let_def if_True simp_thms)

lemma page_data:
  "dr_commit_ts (snd x) \<le> bound \<Longrightarrow> (\<And>e es'. es = e # es' \<Longrightarrow> dr_commit_ts (snd x) \<le> dd_ddl_ts (snd e)) \<Longrightarrow>
     page_loop sd se maxb bound (x # ds) es pb dk ek =
       (if pb > 0 \<and> pb + sd (snd x) > maxb then ([], [], (dk, ek), True)
        else case page_loop sd se maxb bound ds es (pb + sd (snd x)) (fst x) ek of
          (ds', es', pos, hasMore) \<Rightarrow> (snd x # ds', es', pos, hasMore))"
  by (subst page_loop.simps) (cases es; simp add: Let_def)

lemma page_ddl:
  "dd_ddl_ts (snd x) \<le> bound \<Longrightarrow> (\<And>d ds'. ds = d # ds' \<Longrightarrow> \<not> dr_commit_ts (snd d) \<le> dd_ddl_ts (snd x)) \<Longrightarrow>
     page_loop sd se maxb bound ds (x # es) pb dk ek =
       (if pb > 0 \<and> pb + se (snd x) > maxb then ([], [], (dk, ek), True)
        else case page_loop sd se maxb bound ds es (pb + se (snd x)) dk (fst x) of
          (ds', es', pos, hasMore) \<Rightarrow> (ds', snd x # es', pos, hasMore))"
  by (subst page_loop.simps) (cases ds; simp add: Let_def)

lemma page_cases:
  obtains (stop) "\<not> (ds \<noteq> [] \<and> dr_commit_ts (snd (hd ds)) \<le> bound)"
      "\<not> (es \<noteq> [] \<and> dd_ddl_ts (snd (hd es)) \<le> bound)"
  | (data) x ds1 where "ds = x # ds1" "dr_commit_ts (snd x) \<le> bound"
      "\<And>e es'. es = e # es' \<Longrightarrow> dr_commit_ts (snd x) \<le> dd_ddl_ts (snd e)"
  | (ddl) x es1 where "es = x # es1" "dd_ddl_ts (snd x) \<le> bound"
      "\<And>d ds'. ds = d # ds' \<Longrightarrow> \<not> dr_commit_ts (snd d) \<le> dd_ddl_ts (snd x)"
proof (cases ds)
  case Nil
  then show thesis using that by (cases es) auto
next
  case ds: (Cons d ds1)
  show thesis
  proof (cases es)
    case Nil
    then show thesis using that ds by (cases "dr_commit_ts (snd d) \<le> bound") auto
  next
    case (Cons e es1)
    then show thesis
      using that ds
      by (cases "dr_commit_ts (snd d) \<le> bound"; cases "dr_commit_ts (snd d) \<le> dd_ddl_ts (snd e)";
          cases "dd_ddl_ts (snd e) \<le> bound") auto
  qed
qed

text \<open>What the loop returns: a prefix of the merge, the position after it, and all of it unless cut.\<close>

definition page_of ::
  "u64 \<Rightarrow> (bytes \<times> data_record) list \<Rightarrow> (bytes \<times> ddl_record) list \<Rightarrow> bytes \<Rightarrow> bytes
     \<Rightarrow> data_record list \<times> ddl_record list \<times> (bytes \<times> bytes) \<times> bool \<Rightarrow> bool" where
  "page_of bound ds es dk ek = (\<lambda>(ds', es', pos, hasMore). \<exists>i j. i \<le> length ds \<and> j \<le> length es \<and>
     ds' = map snd (take i ds) \<and> es' = map snd (take j es) \<and>
     pos = (last (dk # map fst (take i ds)), last (ek # map fst (take j es))) \<and>
     merge_streams ds' es' = take (i + j) (merge_streams (map snd ds) (map snd es)) \<and>
     (\<not> hasMore \<longrightarrow> (\<forall>x xs. drop i ds = x # xs \<longrightarrow> bound < dr_commit_ts (snd x)) \<and>
       (\<forall>x xs. drop j es = x # xs \<longrightarrow> bound < dd_ddl_ts (snd x))))"

lemma page_of_data:
  assumes "page_of bound ds es (fst x) ek (ds', es', pos, hasMore)"
    and first: "\<And>e es'. es = e # es' \<Longrightarrow> dr_commit_ts (snd x) \<le> dd_ddl_ts (snd e)"
  shows "page_of bound (x # ds) es dk ek (snd x # ds', es', pos, hasMore)"
proof -
  obtain i j where ij: "i \<le> length ds" "j \<le> length es" "ds' = map snd (take i ds)" "es' = map snd (take j es)"
    "pos = (last (fst x # map fst (take i ds)), last (ek # map fst (take j es)))"
    "merge_streams ds' es' = take (i + j) (merge_streams (map snd ds) (map snd es))"
    "\<not> hasMore \<longrightarrow> (\<forall>x xs. drop i ds = x # xs \<longrightarrow> bound < dr_commit_ts (snd x)) \<and>
       (\<forall>x xs. drop j es = x # xs \<longrightarrow> bound < dd_ddl_ts (snd x))"
    using assms(1) by (auto simp: page_of_def)
  have "merge_streams (snd x # ds') es' = DataItem (snd x) # merge_streams ds' es'"
    unfolding ij(4) by (rule merge_streams_data) (cases es; cases j; use first in auto)
  moreover have "merge_streams (map snd (x # ds)) (map snd es) =
      DataItem (snd x) # merge_streams (map snd ds) (map snd es)"
    unfolding list.map by (rule merge_streams_data) (use first in auto)
  ultimately show ?thesis
    unfolding page_of_def prod.case using ij by (intro exI [of _ "Suc i"] exI [of _ j]) simp
qed

lemma page_of_ddl:
  assumes "page_of bound ds es dk (fst x) (ds', es', pos, hasMore)"
    and first: "\<And>d ds'. ds = d # ds' \<Longrightarrow> \<not> dr_commit_ts (snd d) \<le> dd_ddl_ts (snd x)"
  shows "page_of bound ds (x # es) dk ek (ds', snd x # es', pos, hasMore)"
proof -
  obtain i j where ij: "i \<le> length ds" "j \<le> length es" "ds' = map snd (take i ds)" "es' = map snd (take j es)"
    "pos = (last (dk # map fst (take i ds)), last (fst x # map fst (take j es)))"
    "merge_streams ds' es' = take (i + j) (merge_streams (map snd ds) (map snd es))"
    "\<not> hasMore \<longrightarrow> (\<forall>x xs. drop i ds = x # xs \<longrightarrow> bound < dr_commit_ts (snd x)) \<and>
       (\<forall>x xs. drop j es = x # xs \<longrightarrow> bound < dd_ddl_ts (snd x))"
    using assms(1) by (auto simp: page_of_def)
  have "merge_streams ds' (snd x # es') = DdlItem (snd x) # merge_streams ds' es'"
    unfolding ij(3) by (rule merge_streams_ddl) (cases ds; cases i; use first in auto)
  moreover have "merge_streams (map snd ds) (map snd (x # es)) =
      DdlItem (snd x) # merge_streams (map snd ds) (map snd es)"
    unfolding list.map by (rule merge_streams_ddl) (use first in auto)
  ultimately show ?thesis
    unfolding page_of_def prod.case using ij by (intro exI [of _ i] exI [of _ "Suc j"]) simp
qed

lemma page_of_cut: "page_of bound ds es dk ek ([], [], (dk, ek), True)"
  by (auto simp: page_of_def intro!: exI [of _ 0])

lemma page_loop_spec: "page_of bound ds es dk ek (page_loop sd se maxb bound ds es pb dk ek)"
proof (induction "length ds + length es" arbitrary: ds es pb dk ek rule: less_induct)
  case less
  show ?case
  proof (cases rule: page_cases [where ds = ds and bound = bound and es = es])
    case stop
    then show ?thesis
      unfolding page_stop [OF stop] page_of_def by (auto intro!: exI [of _ 0] simp: not_le)
  next
    case (data x ds1)
    have "page_of bound ds1 es (fst x) ek (page_loop sd se maxb bound ds1 es (pb + sd (snd x)) (fst x) ek)"
      using less [of ds1 es] data by simp
    then show ?thesis
      using page_of_data [OF _ data(3)] data page_of_cut
      by (cases "page_loop sd se maxb bound ds1 es (pb + sd (snd x)) (fst x) ek") (auto simp: page_data)
  next
    case (ddl x es1)
    have "page_of bound ds es1 dk (fst x) (page_loop sd se maxb bound ds es1 (pb + se (snd x)) dk (fst x))"
      using less [of ds es1] ddl by simp
    then show ?thesis
      using page_of_ddl [OF _ ddl(3)] ddl page_of_cut
      by (cases "page_loop sd se maxb bound ds es1 (pb + se (snd x)) dk (fst x)") (auto simp: page_ddl)
  qed
qed

text \<open>The loop sees nothing above the bound.\<close>

lemma page_loop_within:
  "page_loop sd se maxb bound (takeWhile (\<lambda>x. dr_commit_ts (snd x) \<le> bound) ds)
     (takeWhile (\<lambda>x. dd_ddl_ts (snd x) \<le> bound) es) pb dk ek = page_loop sd se maxb bound ds es pb dk ek"
proof (induction "length ds + length es" arbitrary: ds es pb dk ek rule: less_induct)
  case less
  let ?P = "\<lambda>x :: bytes \<times> data_record. dr_commit_ts (snd x) \<le> bound"
  let ?Q = "\<lambda>x :: bytes \<times> ddl_record. dd_ddl_ts (snd x) \<le> bound"
  show ?case
  proof (cases rule: page_cases [where ds = ds and bound = bound and es = es])
    case stop
    have "takeWhile ?P ds = []" using stop(1) by (cases ds) simp_all
    moreover have "takeWhile ?Q es = []" using stop(2) by (cases es) simp_all
    ultimately show ?thesis by (simp add: page_stop stop)
  next
    case (data x ds1)
    have "takeWhile ?Q es = e # es' \<Longrightarrow> dr_commit_ts (snd x) \<le> dd_ddl_ts (snd e)" for e es'
      using data(3) by (cases es) (auto split: if_splits)
    then show ?thesis
      using less [of ds1 es] data by (simp add: page_data)
  next
    case (ddl x es1)
    have "takeWhile ?P ds = d # ds' \<Longrightarrow> \<not> dr_commit_ts (snd d) \<le> dd_ddl_ts (snd x)" for d ds'
      using ddl(3) by (cases ds) (auto split: if_splits)
    then show ?thesis
      using less [of ds es1] ddl by (simp add: page_ddl split: prod.split)
  qed
qed

end
