(* ===== verification/Fake_Log_Contract.thy ===== *)
theory Fake_Log_Contract
  imports Fake_Log_Service
begin

text \<open>
  The in-process log service keeps the contract of \<open>Log_Model\<close>. A position cuts a group's merged log;
  a page is the stretch after it and its continuation cuts the log behind the page; a script leaves
  the stores in key order. The locale \<open>log_service\<close> is interpreted on the pages a script can answer.
\<close>

section \<open>Positions in the merged log\<close>

definition group_log :: "fake_group \<Rightarrow> log_item list" where
  "group_log grp = merge_streams (map snd (fg_data grp)) (map snd (fg_ddl grp))"

definition group_wf :: "fake_group \<Rightarrow> bool" where
  "group_wf grp \<longleftrightarrow> store_ok dataKey (fg_data grp) \<and> store_ok ddlKey (fg_ddl grp)"

definition below_data :: "fake_group \<Rightarrow> bytes \<Rightarrow> (bytes \<times> data_record) list" where
  "below_data grp k = filter (\<lambda>x. fst x \<le> k) (fg_data grp)"

definition below_ddl :: "fake_group \<Rightarrow> bytes \<Rightarrow> (bytes \<times> ddl_record) list" where
  "below_ddl grp k = filter (\<lambda>x. fst x \<le> k) (fg_ddl grp)"

definition pos_count :: "fake_group \<Rightarrow> bytes \<times> bytes \<Rightarrow> nat" where
  "pos_count grp pos = length (below_data grp (fst pos)) + length (below_ddl grp (snd pos))"

text \<open>A position that cuts the merged log, as every position the service gives out does.\<close>

definition pos_valid :: "fake_group \<Rightarrow> bytes \<times> bytes \<Rightarrow> bool" where
  "pos_valid grp pos \<longleftrightarrow>
     length (filter is_data (take (pos_count grp pos) (group_log grp))) = length (below_data grp (fst pos))"

lemma pos_cut:
  assumes wf: "group_wf grp" and valid: "pos_valid grp pos"
  shows "take (pos_count grp pos) (group_log grp) =
      merge_streams (map snd (below_data grp (fst pos))) (map snd (below_ddl grp (snd pos)))"
    and "drop (pos_count grp pos) (group_log grp) =
      merge_streams (map snd (map_upper_bound (fst pos) (fg_data grp))) (map snd (map_upper_bound (snd pos) (fg_ddl grp)))"
proof -
  let ?Bd = "below_data grp (fst pos)" and ?Be = "below_ddl grp (snd pos)"
  let ?Ad = "map_upper_bound (fst pos) (fg_data grp)" and ?Ae = "map_upper_bound (snd pos) (fg_ddl grp)"
  have d: "fg_data grp = ?Bd @ ?Ad" and e: "fg_ddl grp = ?Be @ ?Ae"
    using wf data_store.upper_bound_split ddl_store.upper_bound_split
    by (simp_all add: group_wf_def below_data_def below_ddl_def)
  have n: "pos_count grp pos \<le> length (map snd (fg_data grp)) + length (map snd (fg_ddl grp))"
    by (subst d, subst e) (simp add: pos_count_def)
  have c: "length ?Bd = length (filter is_data (take (pos_count grp pos)
      (merge_streams (map snd (fg_data grp)) (map snd (fg_ddl grp)))))"
    using valid by (simp add: pos_valid_def group_log_def)
  have t: "take (length ?Bd) (map snd (fg_data grp)) = map snd ?Bd"
      "drop (length ?Bd) (map snd (fg_data grp)) = map snd ?Ad"
      "take (length ?Be) (map snd (fg_ddl grp)) = map snd ?Be"
      "drop (length ?Be) (map snd (fg_ddl grp)) = map snd ?Ae"
    by ((subst d | subst e), simp add: take_map drop_map)+
  show "take (pos_count grp pos) (group_log grp) = merge_streams (map snd ?Bd) (map snd ?Be)"
    "drop (pos_count grp pos) (group_log grp) = merge_streams (map snd ?Ad) (map snd ?Ae)"
    using merge_cut [OF n c] t by (simp_all add: pos_count_def group_log_def)
qed

lemma group_log_sorted:
  assumes "group_wf grp"
  shows "sorted (map item_ts (group_log grp))"
proof -
  have "sorted (map dr_commit_ts (map snd (fg_data grp)))" "sorted (map dd_ddl_ts (map snd (fg_ddl grp)))"
    using assms data_store.store_ts ddl_store.store_ts by (simp_all add: group_wf_def sorted_map sorted_wrt_map)
  then show ?thesis unfolding group_log_def by (rule merge_sorted)
qed

lemma none_valid: "group_wf grp \<Longrightarrow> pos_count grp ([], []) = 0 \<and> pos_valid grp ([], [])"
  by (simp add: group_wf_def pos_valid_def pos_count_def below_data_def below_ddl_def
      data_store.below_none [simplified] ddl_store.below_none [simplified])

lemma from_ts_valid:
  assumes wf: "group_wf grp"
  shows "pos_count grp (be_bytes_n 8 f, be_bytes_n 8 f) = length (takeWhile (\<lambda>x. item_ts x < f) (group_log grp)) \<and>
    pos_valid grp (be_bytes_n 8 f, be_bytes_n 8 f)"
proof -
  let ?L = "group_log grp" and ?P = "\<lambda>x. item_ts x < f"
  have "sorted_wrt (\<lambda>x y. item_ts x \<le> item_ts y) ?L"
    using group_log_sorted [OF wf] by (simp add: sorted_map)
  then have tw: "takeWhile ?P ?L = filter ?P ?L"
    by (rule sorted_dropWhile_filter [THEN conjunct1]) auto
  have d: "length (below_data grp (be_bytes_n 8 f)) = length (filter (\<lambda>d. dr_commit_ts d < f) (map snd (fg_data grp)))"
    using wf by (simp add: group_wf_def below_data_def data_store.below_ts filter_map comp_def
        del: be_bytes_n_numeral)
  have e: "length (below_ddl grp (be_bytes_n 8 f)) = length (filter (\<lambda>d. dd_ddl_ts d < f) (map snd (fg_ddl grp)))"
    using wf by (simp add: group_wf_def below_ddl_def ddl_store.below_ts filter_map comp_def
        del: be_bytes_n_numeral)
  have n: "pos_count grp (be_bytes_n 8 f, be_bytes_n 8 f) = length (filter ?P ?L)"
    unfolding group_log_def
    by (subst filter_merge(1) [where Q = "\<lambda>d. dr_commit_ts d < f" and R = "\<lambda>d. dd_ddl_ts d < f"])
      (simp_all add: pos_count_def d e del: be_bytes_n_numeral)
  have "take (length (takeWhile ?P ?L)) ?L = filter ?P ?L" using tw by (metis takeWhile_eq_take)
  moreover have "length (filter is_data (filter ?P ?L)) = length (filter (\<lambda>d. dr_commit_ts d < f) (map snd (fg_data grp)))"
    unfolding group_log_def
    by (rule filter_merge(2) [where R = "\<lambda>d. dd_ddl_ts d < f"]) simp_all
  ultimately show ?thesis
    using n d tw by (simp add: pos_valid_def del: be_bytes_n_numeral)
qed

lemma page_advance:
  assumes wf: "group_wf grp" and valid: "pos_valid grp (dk, ek)"
    and page: "page_of bound (map_upper_bound dk (fg_data grp)) (map_upper_bound ek (fg_ddl grp)) dk ek (ds', es', pos', hasMore)"
  shows "pos_count grp pos' = pos_count grp (dk, ek) + length (merge_streams ds' es')" (is ?count)
    and "pos_valid grp pos'" (is ?valid)
    and "merge_streams ds' es' =
      take (length (merge_streams ds' es')) (drop (pos_count grp (dk, ek)) (group_log grp))" (is ?prefix)
    and "\<not> hasMore \<Longrightarrow> x \<in> set (drop (pos_count grp pos') (group_log grp)) \<Longrightarrow> bound < item_ts x"
proof -
  let ?D = "map_upper_bound dk (fg_data grp)" and ?E = "map_upper_bound ek (fg_ddl grp)"
  obtain i j where i: "i \<le> length ?D" "j \<le> length ?E" "ds' = map snd (take i ?D)" "es' = map snd (take j ?E)"
    and pos: "pos' = (last (dk # map fst (take i ?D)), last (ek # map fst (take j ?E)))"
    and m: "merge_streams ds' es' = take (i + j) (merge_streams (map snd ?D) (map snd ?E))"
    and rest: "\<not> hasMore \<longrightarrow> (\<forall>x xs. drop i ?D = x # xs \<longrightarrow> bound < dr_commit_ts (snd x)) \<and>
       (\<forall>x xs. drop j ?E = x # xs \<longrightarrow> bound < dd_ddl_ts (snd x))"
    using page by (auto simp: page_of_def)
  have stores: "store_ok dataKey (fg_data grp)" "store_ok ddlKey (fg_ddl grp)" using wf by (simp_all add: group_wf_def)
  have bd: "below_data grp (fst pos') = below_data grp dk @ take i ?D"
    and be: "below_ddl grp (snd pos') = below_ddl grp ek @ take j ?E"
    and ud: "map_upper_bound (fst pos') (fg_data grp) = drop i ?D"
    and ue: "map_upper_bound (snd pos') (fg_ddl grp) = drop j ?E"
    unfolding below_data_def below_ddl_def pos fst_conv snd_conv
    using data_store.upper_bound_advance [OF stores(1) i(1)] ddl_store.upper_bound_advance [OF stores(2) i(2)]
    by (simp_all only:)
  have len: "length (merge_streams ds' es') = i + j" using i by simp
  show count: ?count using bd be i len by (simp add: pos_count_def)
  have cut: "take (pos_count grp (dk, ek)) (group_log grp) =
      merge_streams (map snd (below_data grp dk)) (map snd (below_ddl grp ek))"
    "drop (pos_count grp (dk, ek)) (group_log grp) = merge_streams (map snd ?D) (map snd ?E)"
    using pos_cut [OF wf valid] by simp_all
  show ?prefix using cut(2) m len by simp
  have "take (pos_count grp pos') (group_log grp) =
      merge_streams (map snd (below_data grp dk)) (map snd (below_ddl grp ek)) @ merge_streams ds' es'"
    unfolding count take_add [of "pos_count grp (dk, ek)"] cut len using m by simp
  then show valid': ?valid using bd i by (simp add: pos_valid_def count_data)
  assume "\<not> hasMore" and x: "x \<in> set (drop (pos_count grp pos') (group_log grp))"
  have "sorted (map item_ts (drop (pos_count grp pos') (group_log grp)))"
    using group_log_sorted [OF wf] sorted_wrt_drop by (metis drop_map)
  moreover have d: "drop (pos_count grp pos') (group_log grp) =
      merge_streams (map snd (drop i ?D)) (map snd (drop j ?E))"
    using pos_cut(2) [OF wf valid'] ud ue by simp
  moreover have "bound < item_ts y" if "merge_streams (map snd (drop i ?D)) (map snd (drop j ?E)) = y # ys" for y ys
    using rest \<open>\<not> hasMore\<close> that
    by (cases "drop i ?D"; cases "drop j ?E") (auto split: if_splits)
  ultimately show "bound < item_ts x"
    using x by (cases "merge_streams (map snd (drop i ?D)) (map snd (drop j ?E))") auto
qed

section \<open>Continuations\<close>

lemma be_word_short:
  assumes "length bs = 2"
  shows "unat (be_word bs :: u64) < 65536"
proof -
  have "be_bytes_n 2 (be_word bs :: u64) = bs" using be_bytes_n_be_word [of bs, where 'a = 64] assms by simp
  then have "(be_word bs :: u64) = take_bit 16 (be_word bs)"
    using be_word_be_bytes_n [of 2 "be_word bs :: u64"] by simp
  then have "unat (be_word bs :: u64) = take_bit 16 (unat (be_word bs :: u64))"
    by (metis unsigned_take_bit_eq)
  also have "\<dots> < 2 ^ 16" by (rule take_bit_nat_less_exp)
  finally show ?thesis by simp
qed

lemma readKey_encodeKey: "length k < 65536 \<Longrightarrow> readKey (encodeKey k @ rest) = Inr (k, rest)"
proof -
  assume l: "length k < 65536"
  have "take_bit 16 (of_nat (length k) :: u64) = of_nat (length k)"
    using l by (simp add: word_unat_eq_iff take_bit_eq_mod unat_mod_distrib unat_of_nat)
  then have "unat (be_word (be_bytes_n 2 (of_nat (length k) :: u64)) :: u64) = length k"
    using l be_word_be_bytes_n [of 2 "of_nat (length k) :: u64"] by (simp add: unat_of_nat)
  then show ?thesis
    by (simp add: readKey_def encodeKey_def Let_def rguard_def del: be_bytes_n_numeral)
qed

lemma readKey_short: "readKey c = Inr (k, rest) \<Longrightarrow> length k < 65536"
  using be_word_short [of "take 2 c"] by (auto simp: readKey_def Let_def)

lemma decode_encodeContinuation:
  "length (fst pos) < 65536 \<Longrightarrow> length (snd pos) < 65536 \<Longrightarrow> decodeContinuation (encodeContinuation pos) = Inr pos"
  using readKey_encodeKey [of "snd pos" "[]"] readKey_encodeKey [of "fst pos" "encodeKey (snd pos)"]
  by (simp add: decodeContinuation_def encodeContinuation_def)

lemma start_position_short:
  "start_position start = Inr ((dk, ek), t) \<Longrightarrow> length dk < 65536 \<and> length ek < 65536"
  by (auto simp: start_position_def decodeContinuation_def readKey_short split: scan_start.splits)

section \<open>Scripts keep the stores\<close>

definition service_wf :: "fake_service \<Rightarrow> bool" where
  "service_wf fs \<longleftrightarrow> (\<forall>g grp. map_of (fs_groups fs) g = Some grp \<longrightarrow> group_wf grp)"

lemma group_wf_cong: "fg_data grp' = fg_data grp \<Longrightarrow> fg_ddl grp' = fg_ddl grp \<Longrightarrow> group_wf grp' = group_wf grp"
  by (simp add: group_wf_def)

lemma service_wf_put: "service_wf fs \<Longrightarrow> group_wf grp \<Longrightarrow> service_wf (put_fake_group g grp fs)"
  by (simp add: service_wf_def put_fake_group_def)

lemma service_wf_group: "service_wf fs \<Longrightarrow> fake_group_of fs g = Inr grp \<Longrightarrow> group_wf grp"
  by (auto simp: service_wf_def fake_group_of_def split: option.splits)

lemma service_wf_with:
  assumes "service_wf fs" "with_group g f fs = Inr fs'" "\<And>grp. group_wf grp \<Longrightarrow> group_wf (f grp)"
  shows "service_wf fs'"
  using assms service_wf_group service_wf_put by (auto simp: with_group_def)

lemma fake_answer_stores:
  "fake_answer sd se grp req = Inr (ou, grp') \<Longrightarrow> fg_data grp' = fg_data grp \<and> fg_ddl grp' = fg_ddl grp"
  by (auto simp: fake_answer_def split: if_splits list.splits prod.splits)

lemma answer_all_stores:
  "answer_all sd se cs grp = Inr (outs, grp') \<Longrightarrow> fg_data grp' = fg_data grp \<and> fg_ddl grp' = fg_ddl grp"
  by (induction cs arbitrary: grp outs) (fastforce dest: fake_answer_stores)+

lemma remove_held_stores:
  "map_of (fst (remove_held c gs)) g = Some grp' \<Longrightarrow>
     \<exists>grp. map_of gs g = Some grp \<and> fg_data grp' = fg_data grp \<and> fg_ddl grp' = fg_ddl grp"
  by (induction c gs rule: remove_held.induct) (auto split: if_splits prod.splits)

lemma make_fake_wf: "service_wf (make_fake node_name ids)"
proof -
  have fresh: "group_wf (fresh_fake_group a)" for a
    by (simp add: fresh_fake_group_def group_wf_def store_ok_def om_inv_def)
  have "service_wf fs \<Longrightarrow>
      service_wf (fs\<lparr>fs_groups := fold (\<lambda>g. om_put g (fresh_fake_group (node_name g))) ids (fs_groups fs)\<rparr>)" for fs
  proof (induction ids arbitrary: fs)
    case (Cons g ids)
    from Cons.IH [OF service_wf_put [OF Cons.prems fresh]] show ?case by (simp add: put_fake_group_def)
  qed simp
  from this [of "make_fake node_name []"] show ?thesis by (simp add: service_wf_def make_fake_def)
qed

lemmas script_op_defs = fake_addDataBlob_def fake_addDdl_def fake_setBound_def fake_setRetentionFloor_def
  fake_failNext_def fake_setFailureCode_def fake_notLeaderNext_def fake_addNode_def fake_setCompletion_def
  fake_requestLeaderRefresh_def

lemma with_group_op_wf:
  assumes "service_wf fs" "fake_step sd se op fs = Inr fs'"
    and "case op of ReleaseHeld g \<Rightarrow> False | Scan g c r \<Rightarrow> False | Thread i \<Rightarrow> False | SetLeader g n \<Rightarrow> False
      | FollowNode g n \<Rightarrow> False | Cancel c \<Rightarrow> False | SetCancelRunsDone b \<Rightarrow> False | _ \<Rightarrow> True"
  shows "service_wf fs'"
proof (cases op)
  case (AddDataBlob g ts ng txn blob)
  then show ?thesis
    using assms service_wf_with [OF assms(1)]
    by (auto simp: fake_step_def fake_addDataBlob_def Let_def group_wf_def store_ok_put)
next
  case (AddDdl g ts txn so)
  then show ?thesis
    using assms service_wf_with [OF assms(1)]
    by (auto simp: fake_step_def fake_addDdl_def Let_def group_wf_def store_ok_put)
qed (use assms service_wf_with [OF assms(1)] in
  \<open>auto simp: fake_step_def script_op_defs Let_def group_wf_def\<close>)

lemma answer_put_wf:
  assumes "service_wf fs" "fake_group_of fs g = Inr grp0" "fg_data grp = fg_data grp0" "fg_ddl grp = fg_ddl grp0"
  shows "service_wf (put_fake_group g grp fs)"
  using service_wf_put [OF assms(1)] service_wf_group [OF assms(1,2)] group_wf_cong [OF assms(3,4)] by simp

lemma service_wf_threads: "service_wf (fs\<lparr>fs_threads := t\<rparr>) = service_wf fs"
  by (simp add: service_wf_def)

lemma fake_scan_wf:
  assumes wf: "service_wf fs" and scan: "fake_scan sd se g cntl req fs = Inr (t, outs, fs')"
  shows "service_wf fs'"
proof -
  obtain grp0 where g: "fake_group_of fs g = Inr grp0" using scan by (auto simp: fake_scan_def)
  define grp where "grp = grp0\<lparr>fg_requests := fg_requests grp0 @ [req], fg_targets := fg_targets grp0 @ [fg_leader grp0]\<rparr>"
  show ?thesis
  proof (cases "fg_mode grp0")
    case kInline
    then obtain ou grp' where a: "fake_answer sd se grp req = Inr (ou, grp')" and fs': "fs' = put_fake_group g grp' fs"
      using scan g by (auto simp: fake_scan_def grp_def)
    then show ?thesis
      using answer_put_wf [OF wf g, of grp'] fake_answer_stores [OF a] by (simp add: grp_def)
  next
    case kAsync
    then have "fs' = (put_fake_group g grp fs)\<lparr>fs_threads := fs_threads fs @ [(g, \<lparr>pc_cntl = cntl, pc_request = req\<rparr>)]\<rparr>"
      using scan g by (auto simp: fake_scan_def grp_def)
    then show ?thesis using answer_put_wf [OF wf g, of grp] by (simp add: grp_def service_wf_threads)
  next
    case kHeld
    then have "fs' = put_fake_group g (grp\<lparr>fg_held := fg_held grp @ [\<lparr>pc_cntl = cntl, pc_request = req\<rparr>]\<rparr>) fs"
      using scan g by (auto simp: fake_scan_def grp_def)
    then show ?thesis using answer_put_wf [OF wf g] by (simp add: grp_def)
  qed
qed

lemma fake_thread_wf:
  assumes wf: "service_wf fs" and run: "fake_thread sd se i fs = Inr (outs, fs')"
  shows "service_wf fs'"
proof (cases "i < length (fs_threads fs)")
  case True
  obtain g c where t: "fs_threads fs ! i = (g, c)" by (cases "fs_threads fs ! i")
  obtain grp where g: "fake_group_of fs g = Inr grp" using run True t by (auto simp: fake_thread_def)
  obtain ou grp' where a: "fake_answer sd se grp (pc_request c) = Inr (ou, grp')"
    using run True t g by (auto simp: fake_thread_def)
  have "fs' = (put_fake_group g grp' fs)\<lparr>fs_threads := take i (fs_threads fs) @ drop (Suc i) (fs_threads fs)\<rparr>"
    using run True t g a by (simp add: fake_thread_def)
  then show ?thesis
    using answer_put_wf [OF wf g, of grp'] fake_answer_stores [OF a] by (simp add: service_wf_threads)
qed (use assms in \<open>simp add: fake_thread_def\<close>)

lemma fake_releaseHeld_wf:
  assumes wf: "service_wf fs" and rel: "fake_releaseHeld sd se g fs = Inr (outs, fs')"
  shows "service_wf fs'"
proof -
  obtain grp where g: "fake_group_of fs g = Inr grp" using rel by (auto simp: fake_releaseHeld_def)
  obtain grp' where a: "answer_all sd se (fg_held grp) (grp\<lparr>fg_held := []\<rparr>) = Inr (outs, grp')"
    and fs': "fs' = put_fake_group g grp' fs"
    using rel g by (auto simp: fake_releaseHeld_def)
  show ?thesis using answer_put_wf [OF wf g, of grp'] answer_all_stores [OF a] fs' by simp
qed

lemma fake_cancel_wf:
  assumes "service_wf fs"
  shows "service_wf (snd (fake_cancel c fs))"
proof -
  have "group_wf grp" if m: "map_of (fst (remove_held c (fs_groups fs))) g = Some grp" for g grp
  proof -
    obtain grp0 where "map_of (fs_groups fs) g = Some grp0" "fg_data grp = fg_data grp0" "fg_ddl grp = fg_ddl grp0"
      using remove_held_stores [OF m] by blast
    then show ?thesis using assms by (simp add: service_wf_def group_wf_def)
  qed
  then show ?thesis
    using assms by (auto simp: fake_cancel_def service_wf_def Let_def split: prod.splits)
qed

lemma fake_step_wf:
  assumes wf: "service_wf fs" and step: "fake_step sd se op fs = Inr fs'"
  shows "service_wf fs'"
proof (cases op)
  case (SetLeader g n)
  then obtain grp where "fake_group_of fs g = Inr grp" "fs' = put_fake_group g (grp\<lparr>fg_leader := n\<rparr>) fs"
    using step by (auto simp: fake_step_def fake_setLeader_def)
  then show ?thesis using answer_put_wf [OF wf] by simp
next
  case (FollowNode g n)
  then obtain grp where "fake_group_of fs g = Inr grp"
    "fs' = put_fake_group g (grp\<lparr>fg_leader := n, fg_nodesFollowed := fg_nodesFollowed grp @ [n]\<rparr>) fs"
    using step by (auto simp: fake_step_def fake_followNode_def)
  then show ?thesis using answer_put_wf [OF wf] by simp
next
  case (ReleaseHeld g)
  then show ?thesis
    using step fake_releaseHeld_wf [OF wf] by (cases "fake_releaseHeld sd se g fs") (auto simp: fake_step_def)
next
  case (Scan g c r)
  then show ?thesis
    using step fake_scan_wf [OF wf] by (cases "fake_scan sd se g c r fs") (auto simp: fake_step_def)
next
  case (Thread i)
  then show ?thesis
    using step fake_thread_wf [OF wf] by (cases "fake_thread sd se i fs") (auto simp: fake_step_def)
next
  case (Cancel c)
  then show ?thesis using step fake_cancel_wf [OF wf, of c] by (auto simp: fake_step_def)
next
  case (SetCancelRunsDone b)
  then show ?thesis using step wf by (auto simp: fake_step_def fake_setCancelRunsDone_def service_wf_def)
qed (use with_group_op_wf [OF wf step] in simp_all)

lemma run_script_wf: "service_wf fs \<Longrightarrow> service_wf (run_script sd se ops fs)"
proof (induction ops arbitrary: fs)
  case (Cons op ops)
  then show ?case
    using fake_step_wf [of fs sd se op]
    by (cases "fake_step sd se op fs") (simp_all add: run_script_def)
qed (simp add: run_script_def)

section \<open>The contract\<close>

text \<open>The group a script leaves behind.\<close>

definition script_group ::
  "(data_record \<Rightarrow> nat) \<Rightarrow> (ddl_record \<Rightarrow> nat) \<Rightarrow> (u32 \<Rightarrow> bytes) \<Rightarrow> u32 list \<Rightarrow> fake_op list \<Rightarrow> u32
     \<Rightarrow> fake_group option" where
  "script_group sd se node_name ids ops g = map_of (fs_groups (run_script sd se ops (make_fake node_name ids))) g"

definition fake_log ::
  "(data_record \<Rightarrow> nat) \<Rightarrow> (ddl_record \<Rightarrow> nat) \<Rightarrow> (u32 \<Rightarrow> bytes) \<Rightarrow> u32 list \<Rightarrow> fake_op list \<Rightarrow> u32
     \<Rightarrow> log_item list" where
  "fake_log sd se node_name ids ops g =
     (case script_group sd se node_name ids ops g of None \<Rightarrow> [] | Some grp \<Rightarrow> group_log grp)"

definition fake_cpos ::
  "(data_record \<Rightarrow> nat) \<Rightarrow> (ddl_record \<Rightarrow> nat) \<Rightarrow> (u32 \<Rightarrow> bytes) \<Rightarrow> u32 list \<Rightarrow> fake_op list \<Rightarrow> u32
     \<Rightarrow> bytes \<Rightarrow> nat" where
  "fake_cpos sd se node_name ids ops g c =
     (case script_group sd se node_name ids ops g of
        None \<Rightarrow> 0
      | Some grp \<Rightarrow> (case decodeContinuation c of Inl e \<Rightarrow> 0 | Inr pos \<Rightarrow> pos_count grp pos))"

text \<open>A group as it was at a time, against what it holds in the end: the bound it announced is kept.\<close>

definition bound_kept :: "fake_group \<Rightarrow> fake_group \<Rightarrow> bool" where
  "bound_kept snap grp \<longleftrightarrow> fg_bound snap \<noteq> -1 \<and>
     filter (\<lambda>x. dr_commit_ts (snd x) \<le> fg_bound snap) (fg_data snap) =
       filter (\<lambda>x. dr_commit_ts (snd x) \<le> fg_bound snap) (fg_data grp) \<and>
     filter (\<lambda>x. dd_ddl_ts (snd x) \<le> fg_bound snap) (fg_ddl snap) =
       filter (\<lambda>x. dd_ddl_ts (snd x) \<le> fg_bound snap) (fg_ddl grp)"

text \<open>
  A page answered after the first \<open>n\<close> operations, to a request that starts at the beginning, at a
  timestamp or at a position that cuts the log.
\<close>

definition fake_answers ::
  "(data_record \<Rightarrow> nat) \<Rightarrow> (ddl_record \<Rightarrow> nat) \<Rightarrow> (u32 \<Rightarrow> bytes) \<Rightarrow> u32 list \<Rightarrow> fake_op list \<Rightarrow> u32
     \<Rightarrow> scan_request \<Rightarrow> scan_response \<Rightarrow> bool" where
  "fake_answers sd se node_name ids ops g req resp \<longleftrightarrow> (\<exists>n snap grp snap' pos t.
     script_group sd se node_name ids (take n ops) g = Some snap \<and>
     script_group sd se node_name ids ops g = Some grp \<and> bound_kept snap grp \<and>
     start_position (rq_start req) = Inr (pos, t) \<and> pos_valid grp pos \<and>
     fake_answer sd se snap req = Inr (FakeAnswer resp, snap') \<and> rs_status resp = ScanSuccess)"

lemma script_group_wf: "script_group sd se node_name ids ops g = Some grp \<Longrightarrow> group_wf grp"
  using run_script_wf [OF make_fake_wf] by (simp add: script_group_def service_wf_def)

lemma bound_kept_page:
  assumes "group_wf snap" "group_wf grp" "bound_kept snap grp"
  shows "page_loop sd se maxb (fg_bound snap) (map_upper_bound dk (fg_data snap)) (map_upper_bound ek (fg_ddl snap)) pb dk ek =
    page_loop sd se maxb (fg_bound snap) (map_upper_bound dk (fg_data grp)) (map_upper_bound ek (fg_ddl grp)) pb dk ek"
proof -
  have "takeWhile (\<lambda>x. dr_commit_ts (snd x) \<le> fg_bound snap) (map_upper_bound dk (fg_data snap)) =
      takeWhile (\<lambda>x. dr_commit_ts (snd x) \<le> fg_bound snap) (map_upper_bound dk (fg_data grp))"
    "takeWhile (\<lambda>x. dd_ddl_ts (snd x) \<le> fg_bound snap) (map_upper_bound ek (fg_ddl snap)) =
      takeWhile (\<lambda>x. dd_ddl_ts (snd x) \<le> fg_bound snap) (map_upper_bound ek (fg_ddl grp))"
    using assms data_store.upper_bound_within ddl_store.upper_bound_within
    by (simp_all only: group_wf_def bound_kept_def)
  then show ?thesis using page_loop_within by metis
qed

lemma fake_answer_page:
  assumes "fake_answer sd se snap req = Inr (FakeAnswer resp, snap')" "rs_status resp = ScanSuccess"
    and "start_position (rq_start req) = Inr ((dk, ek), t)"
  obtains pos where "page_loop sd se (unat (rq_max_bytes req)) (fg_bound snap) (map_upper_bound dk (fg_data snap))
      (map_upper_bound ek (fg_ddl snap)) 0 dk ek = (rs_data resp, rs_ddl resp, pos, rs_has_more resp)"
    "rs_continuation resp = encodeContinuation pos" "rs_arrival_complete_ts resp = fg_bound snap"
  using assms
  by (auto simp: fake_answer_def split: if_splits list.splits prod.splits)

lemma start_position_pos:
  assumes "script_group sd se node_name ids ops g = Some grp" "start_position start = Inr (pos, t)"
  shows "start_pos (fake_log sd se node_name ids ops) (fake_cpos sd se node_name ids ops) g start = pos_count grp pos"
proof (cases start)
  case (StartContinuation c)
  then show ?thesis
    using assms by (auto simp: start_position_def start_pos_def fake_cpos_def)
next
  case (StartFromTs f)
  then have "pos = (be_bytes_n 8 f, be_bytes_n 8 f)" using assms(2) by (auto simp: start_position_def)
  then show ?thesis
    using StartFromTs assms(1) from_ts_valid [OF script_group_wf [OF assms(1)], of f]
    by (simp add: start_pos_def fake_log_def del: be_bytes_n_numeral)
next
  case StartNone
  then show ?thesis
    using assms none_valid [OF script_group_wf [OF assms(1)]] by (simp add: start_position_def start_pos_def)
qed

context ts_store
begin

lemma upper_bound_short:
  assumes "store_ok key m" "x \<in> set (map_upper_bound k m)"
  shows "length (fst x) < 65536"
proof -
  have "x \<in> set m" using assms(2) by (auto simp: map_upper_bound_def dest: set_dropWhileD)
  then have "fst x = key (snd x)" using assms(1) by (auto simp: store_ok_def list_all_iff)
  then show ?thesis using key_length by simp
qed

lemma last_key_short:
  assumes "store_ok key m" "length k < 65536"
  shows "length (last (k # map fst (take i (map_upper_bound k m)))) < 65536"
proof -
  let ?A = "map_upper_bound k m"
  have "last (k # map fst (take i ?A)) \<in> insert k (fst ` set ?A)"
    using last_in_set [of "k # map fst (take i ?A)"] by (auto dest: in_set_takeD simp del: last.simps)
  then show ?thesis using assms upper_bound_short by auto
qed

end

lemma page_of_short:
  assumes wf: "group_wf grp" and short: "length dk < 65536" "length ek < 65536"
    and page: "page_of bound (map_upper_bound dk (fg_data grp)) (map_upper_bound ek (fg_ddl grp)) dk ek (ds', es', pos', hasMore)"
  shows "length (fst pos') < 65536 \<and> length (snd pos') < 65536"
  using page data_store.last_key_short [OF _ short(1)] ddl_store.last_key_short [OF _ short(2)] wf
  by (auto simp: page_of_def group_wf_def simp del: last.simps)

text \<open>Every page a script can answer, in terms of what the group holds in the end.\<close>

lemma fake_answers_page:
  assumes "fake_answers sd se node_name ids ops g req resp"
  obtains grp dk ek pos where "script_group sd se node_name ids ops g = Some grp"
    "start_pos (fake_log sd se node_name ids ops) (fake_cpos sd se node_name ids ops) g (rq_start req) = pos_count grp (dk, ek)"
    "pos_valid grp (dk, ek)" "fake_cpos sd se node_name ids ops g (rs_continuation resp) = pos_count grp pos"
    "page_of (rs_arrival_complete_ts resp) (map_upper_bound dk (fg_data grp)) (map_upper_bound ek (fg_ddl grp)) dk ek
       (rs_data resp, rs_ddl resp, pos, rs_has_more resp)"
    "rs_arrival_complete_ts resp \<noteq> -1"
proof -
  obtain n snap grp snap' dk ek t where g: "script_group sd se node_name ids (take n ops) g = Some snap"
      "script_group sd se node_name ids ops g = Some grp" and kept: "bound_kept snap grp"
    and start: "start_position (rq_start req) = Inr ((dk, ek), t)" and valid: "pos_valid grp (dk, ek)"
    and answer: "fake_answer sd se snap req = Inr (FakeAnswer resp, snap')" "rs_status resp = ScanSuccess"
    using assms by (auto simp: fake_answers_def)
  obtain pos where page: "page_loop sd se (unat (rq_max_bytes req)) (fg_bound snap) (map_upper_bound dk (fg_data snap))
      (map_upper_bound ek (fg_ddl snap)) 0 dk ek = (rs_data resp, rs_ddl resp, pos, rs_has_more resp)"
    and cont: "rs_continuation resp = encodeContinuation pos" and bound: "rs_arrival_complete_ts resp = fg_bound snap"
    using fake_answer_page [OF answer start] .
  have of_page: "page_of (fg_bound snap) (map_upper_bound dk (fg_data grp)) (map_upper_bound ek (fg_ddl grp)) dk ek
      (rs_data resp, rs_ddl resp, pos, rs_has_more resp)"
    using page_loop_spec bound_kept_page [OF script_group_wf [OF g(1)] script_group_wf [OF g(2)] kept] page
    by metis
  have "length (fst pos) < 65536 \<and> length (snd pos) < 65536"
    using page_of_short [OF script_group_wf [OF g(2)] _ _ of_page] start_position_short [OF start] by simp
  then have "fake_cpos sd se node_name ids ops g (rs_continuation resp) = pos_count grp pos"
    using g(2) cont decode_encodeContinuation [of pos] by (simp add: fake_cpos_def)
  then show thesis
    using that g(2) start_position_pos [OF g(2) start] valid of_page bound kept by (simp add: bound_kept_def)
qed

interpretation fake: log_service "fake_log sd se node_name ids ops" "fake_answers sd se node_name ids ops"
  "fake_cpos sd se node_name ids ops"
proof unfold_locales
  fix g
  show "sorted (map item_ts (fake_log sd se node_name ids ops g))"
    using group_log_sorted [OF script_group_wf] by (auto simp: fake_log_def split: option.splits)
next
  fix g req resp
  let ?log = "fake_log sd se node_name ids ops" and ?cpos = "fake_cpos sd se node_name ids ops"
  assume a: "fake_answers sd se node_name ids ops g req resp"
  then obtain grp dk ek pos where p: "script_group sd se node_name ids ops g = Some grp"
    "start_pos ?log ?cpos g (rq_start req) = pos_count grp (dk, ek)"
    "pos_valid grp (dk, ek)" "?cpos g (rs_continuation resp) = pos_count grp pos"
    "page_of (rs_arrival_complete_ts resp) (map_upper_bound dk (fg_data grp)) (map_upper_bound ek (fg_ddl grp)) dk ek
       (rs_data resp, rs_ddl resp, pos, rs_has_more resp)"
    and bound: "rs_arrival_complete_ts resp \<noteq> -1"
    by (rule fake_answers_page)
  note adv = page_advance [OF script_group_wf [OF p(1)] p(3,5)]
  have log: "?log g = group_log grp" using p(1) by (simp add: fake_log_def)
  show "page_items resp = take (length (page_items resp)) (drop (start_pos ?log ?cpos g (rq_start req)) (?log g))"
    using adv(3) p(2) log by (simp only: page_items_def)
  show "?cpos g (rs_continuation resp) = start_pos ?log ?cpos g (rq_start req) + length (page_items resp)"
    using adv(1) p(2,4) by (simp only: page_items_def)
  show "rs_arrival_complete_ts resp \<noteq> -1" by (rule bound)
  show "rs_arrival_complete_ts resp < item_ts x"
    if "\<not> rs_has_more resp" "x \<in> set (drop (?cpos g (rs_continuation resp)) (?log g))" for x
    using adv(4) that p(4) log by simp
qed

end
