(* ===== verification/Scan_Properties.thy ===== *)
theory Scan_Properties
  imports Fake_Log_Contract
begin

text \<open>
  The properties of the scan side: a source that has been started reads every group's log in order,
  without loss or repetition, and merges the groups by timestamp; when it reports itself drained its
  watermark is sound; a pass returns in bounded time or fails with an error a stream reports. The
  witnesses run the source against the in-process log service.
\<close>

section \<open>Starting\<close>

lemma make_client_call: "call_of (make_client ids opts) g = None"
  by (simp add: call_of_def make_client_groups fresh_group_def)

lemma make_client_known: "known (make_client ids opts) g \<longleftrightarrow> g \<in> set ids"
  by (simp add: known_def make_client_groups)

text \<open>
  A source made for a non-empty list of distinct log groups can be started at any timestamp from 1
  on, and is then ready: every group is started just below that timestamp, nothing is buffered, and
  the client knows every group and has no call for it.
\<close>

lemma source_starts_ready:
  assumes "ids \<noteq> []" "distinct ids" "1 \<le> f"
  shows "\<exists>st0 st. make_source ids opts = Inr st0 \<and> startAllAt f st0 = Inr st \<and> source_ready st \<and>
    map sg_id (ss_groups st) = ids \<and> emitBound st = f - 1"
proof -
  define g0 where "g0 g = \<lparr>sg_id = g, sg_started = False, sg_haveContinuation = False, sg_continuation = [],
        sg_fromTs = 0, sg_arrivalCompleteTs = 0, sg_scannedTs = 0, sg_pages = [],
        sg_idleBackoff = sp_idleBackoffInitial opts\<rparr>" for g
  define st0 where "st0 = \<lparr>ss_options = opts, ss_groups = map g0 ids, ss_client = make_client ids (sp_client opts),
    ss_bufferedBytes = 0, ss_drained = False\<rparr>"
  have ids0: "map sg_id (map g0 ids) = ids" by (induction ids) (simp_all add: g0_def)
  have m: "make_source ids opts = Inr st0"
    using assms(1) by (simp add: make_source_def rguard_def st0_def g0_def)
  have s: "startAllAt f st0 = Inr (st0\<lparr>ss_groups := map (start_group f) (map g0 ids)\<rparr>)"
    by (rule startAllAt_groups) (use assms ids0 in \<open>auto simp: g0_def st0_def\<close>)
  let ?st = "st0\<lparr>ss_groups := map (start_group f) (map g0 ids)\<rparr>"
  have ids1: "map sg_id (ss_groups ?st) = ids" by (induction ids) (simp_all add: g0_def start_group_def)
  have "foldl (\<lambda>b g. min b (sg_scannedTs g)) b (map (start_group f) (map g0 xs)) =
      (if xs = [] then b else min b (f - 1))" for b xs
    by (induction xs arbitrary: b) (auto simp: start_group_def min.assoc)
  then have "emitBound ?st = f - 1" using assms(1) by (simp add: emitBound_def min_absorb2)
  moreover have "source_ready ?st"
    using ids1 assms
    by (auto simp: source_ready_def list_all_iff st0_def start_group_def g0_def make_client_call make_client_known)
  ultimately show ?thesis using m s ids1 by blast
qed

section \<open>A sample run\<close>

text \<open>One group of the in-process log service with one record at 5 and bound 10, read from 3.\<close>

definition sample_data :: data_record where
  "sample_data = \<lparr>dr_commit_ts = 5, dr_cc_ng_id = 1, dr_txn_number = 1, dr_blob = [7]\<rparr>"

definition sample_script :: "fake_op list" where
  "sample_script = [AddDataBlob 1 5 1 1 [7], SetBound 1 10]"

definition sample_group :: fake_group where
  "sample_group = (fresh_fake_group [])\<lparr>fg_data := [(dataKey sample_data, sample_data)], fg_bound := 10\<rparr>"

abbreviation sample_log :: "u32 \<Rightarrow> log_item list" where
  "sample_log \<equiv> fake_log (\<lambda>_. 2) (\<lambda>_. 2) (\<lambda>_. []) [1] sample_script"

abbreviation sample_answers :: "u32 \<Rightarrow> scan_request \<Rightarrow> scan_response \<Rightarrow> bool" where
  "sample_answers \<equiv> fake_answers (\<lambda>_. 2) (\<lambda>_. 2) (\<lambda>_. []) [1] sample_script"

definition sample_cont :: bytes where
  "sample_cont = [0, 20, 0, 0, 0, 0, 0, 0, 0, 5, 0, 0, 0, 1, 0, 0, 0, 0, 0, 0, 0, 1, 0, 8, 0, 0, 0, 0, 0, 0, 0, 3]"

definition sample_page :: scan_response where
  "sample_page = empty_response\<lparr>rs_data := [sample_data], rs_arrival_complete_ts := 10, rs_continuation := sample_cont\<rparr>"

definition sample_idle_page :: scan_response where
  "sample_idle_page = empty_response\<lparr>rs_arrival_complete_ts := 10, rs_continuation := sample_cont\<rparr>"

definition sample_source :: scan_source where
  "sample_source = \<lparr>ss_options = default_source_options\<lparr>sp_maxBytesPerScan := 100\<rparr>,
     ss_groups = [\<lparr>sg_id = 1, sg_started = True, sg_haveContinuation = False, sg_continuation = [], sg_fromTs = 3,
       sg_arrivalCompleteTs = 0, sg_scannedTs = 2, sg_pages = [], sg_idleBackoff = 100\<rparr>],
     ss_client = make_client [1] default_client_options, ss_bufferedBytes = 0, ss_drained = False\<rparr>"

definition arrived :: "scan_response \<Rightarrow> call_outcome" where
  "arrived resp = \<lparr>ou_failed = None, ou_response = resp, ou_targetNode = Some 0\<rparr>"

definition sample_record :: source_record where
  "sample_record = \<lparr>sr_logGroupId = 1, sr_item = DataItem sample_data\<rparr>"

definition sample_read :: scan_source where
  "sample_read = sample_source\<lparr>
     ss_groups := [\<lparr>sg_id = 1, sg_started = True, sg_haveContinuation = True, sg_continuation = sample_cont, sg_fromTs = 3,
       sg_arrivalCompleteTs = 10, sg_scannedTs = 10,
       sg_pages = [\<lparr>pg_response = sample_page, pg_dataIndex = 1, pg_ddlIndex = 0, pg_bytes = 100\<rparr>], sg_idleBackoff = 100\<rparr>],
     ss_client := \<lparr>cl_options = default_client_options,
       cl_groups = [(1, (fresh_group 50)\<lparr>gs_scansIssued := 1\<rparr>)],
       cl_actions = [TScan 1 \<lparr>rq_log_group_id = 1, rq_start = StartFromTs 3, rq_max_bytes = 100, rq_wait_ms = 100\<rparr> 5100],
       cl_notifications = 1\<rparr>, ss_bufferedBytes := 100\<rparr>"

text \<open>The request a group has in flight when a pass waits for its callbacks.\<close>

definition pass_request ::
  "(u32 \<Rightarrow> bytes \<Rightarrow> u32 option) \<Rightarrow> (scan_response \<Rightarrow> int) \<Rightarrow> int \<Rightarrow> int \<Rightarrow> int \<Rightarrow> u32 \<Rightarrow> scan_source
     \<Rightarrow> scan_request option" where
  "pass_request nba bsz deadline now1 now2 g st = (case collectCompletions nba bsz now1 st of
       Inl e \<Rightarrow> None
     | Inr st1 \<Rightarrow> (case issueScans deadline now2 (snd (try_release st1)) of
           Inl e \<Rightarrow> None
         | Inr st3 \<Rightarrow> map_option ca_request (call_of (ss_client st3) g)))"

lemma pass_one_arrival:
  "pass_request nba bsz deadline now1 now2 g st = Some rq \<Longrightarrow> answers g rq (ou_response ou) \<Longrightarrow>
     pass_arrivals_ok answers nba bsz deadline (now1, now2, now3, now4) [(g, ou, now)] st"
  by (auto simp: pass_request_def pass_arrivals_ok_def arrival_ok_def split: sum.splits)

lemma sample_source_ready: "source_ready sample_source"
  by (simp add: source_ready_def sample_source_def make_client_call make_client_known)

lemma sample_script_group:
  "script_group (\<lambda>_. 2) (\<lambda>_. 2) (\<lambda>_. []) [1] sample_script 1 = Some sample_group"
  by code_simp

lemma sample_answers_intro:
  assumes "fake_answer (\<lambda>_. 2) (\<lambda>_. 2) sample_group req = Inr (FakeAnswer resp, sample_group)"
    "rs_status resp = ScanSuccess" "start_position (rq_start req) = Inr (pos, t)" "pos_valid sample_group pos"
  shows "sample_answers 1 req resp"
proof -
  have "bound_kept sample_group sample_group" by (simp add: bound_kept_def sample_group_def)
  moreover have "script_group (\<lambda>_. 2) (\<lambda>_. 2) (\<lambda>_. []) [1] (take 2 sample_script) 1 = Some sample_group"
    using sample_script_group by (simp add: sample_script_def)
  ultimately show ?thesis
    using assms sample_script_group unfolding fake_answers_def by blast
qed

lemma sample_answer_page:
  "sample_answers 1 \<lparr>rq_log_group_id = 1, rq_start = StartFromTs 3, rq_max_bytes = 100, rq_wait_ms = 100\<rparr> sample_page"
proof -
  let ?rq = "\<lparr>rq_log_group_id = 1, rq_start = StartFromTs 3, rq_max_bytes = 100, rq_wait_ms = 100\<rparr>"
  let ?pos = "(be_bytes_n 8 (3 :: u64), be_bytes_n 8 (3 :: u64))"
  have "fake_answer (\<lambda>_. 2) (\<lambda>_. 2) sample_group ?rq = Inr (FakeAnswer sample_page, sample_group)" by code_simp
  moreover have "start_position (rq_start ?rq) = Inr (?pos, 3)" by code_simp
  moreover have "pos_valid sample_group ?pos" by code_simp
  moreover have "rs_status sample_page = ScanSuccess" by (simp add: sample_page_def empty_response_def)
  ultimately show ?thesis by (intro sample_answers_intro)
qed

lemma sample_answer_idle:
  "sample_answers 1 \<lparr>rq_log_group_id = 1, rq_start = StartContinuation sample_cont, rq_max_bytes = 100,
     rq_wait_ms = 0\<rparr> sample_idle_page"
proof -
  let ?rq = "\<lparr>rq_log_group_id = 1, rq_start = StartContinuation sample_cont, rq_max_bytes = 100, rq_wait_ms = 0\<rparr>"
  let ?pos = "(dataKey sample_data, be_bytes_n 8 (3 :: u64))"
  have "fake_answer (\<lambda>_. 2) (\<lambda>_. 2) sample_group ?rq = Inr (FakeAnswer sample_idle_page, sample_group)" by code_simp
  moreover have "start_position (rq_start ?rq) = Inr (?pos, 5)" by code_simp
  moreover have "pos_valid sample_group ?pos" by code_simp
  moreover have "rs_status sample_idle_page = ScanSuccess" by (simp add: sample_idle_page_def empty_response_def)
  ultimately show ?thesis by (intro sample_answers_intro)
qed

lemma sample_arrival:
  "pass_arrivals_ok sample_answers (\<lambda>_ _. None) (\<lambda>_. 100) 100 (0, 0, 1, 1) [(1, arrived sample_page, 1)] sample_source"
proof (rule pass_one_arrival)
  show "pass_request (\<lambda>_ _. None) (\<lambda>_. 100) 100 0 0 1 sample_source =
      Some \<lparr>rq_log_group_id = 1, rq_start = StartFromTs 3, rq_max_bytes = 100, rq_wait_ms = 100\<rparr>" by code_simp
qed (simp add: arrived_def sample_answer_page)

lemma sample_idle_arrival:
  "pass_arrivals_ok sample_answers (\<lambda>_ _. None) (\<lambda>_. 100) 100 (101, 101, 102, 102)
     [(1, arrived sample_idle_page, 102)] sample_read"
proof (rule pass_one_arrival)
  show "pass_request (\<lambda>_ _. None) (\<lambda>_. 100) 100 101 101 1 sample_read =
      Some \<lparr>rq_log_group_id = 1, rq_start = StartContinuation sample_cont, rq_max_bytes = 100, rq_wait_ms = 0\<rparr>"
    by code_simp
qed (simp add: arrived_def sample_answer_idle)

lemma sample_pass:
  "next_pass (\<lambda>_ _. None) (\<lambda>_. 100) True 100 (0, 0, 1, 1) [(1, arrived sample_page, 1)] sample_source =
     Inr (Released sample_record, sample_read)"
  by code_simp

lemma sample_run: "source_run sample_answers sample_source [sample_record] sample_read"
  using next_pass_run [OF run_start sample_arrival sample_pass] by (simp add: pass_released_def)

lemma sample_drained:
  "\<exists>st g. next_pass (\<lambda>_ _. None) (\<lambda>_. 100) True 100 (101, 101, 102, 102) [(1, arrived sample_idle_page, 102)] sample_read =
       Inr (Drained, st) \<and> emitBound st = 10 \<and> ss_groups st = [g] \<and> sg_id g = 1 \<and> sg_fromTs g = 3"
proof -
  have "map_sum id (\<lambda>(res, st). (res, emitBound st, map (\<lambda>g. (sg_id g, sg_fromTs g)) (ss_groups st)))
      (next_pass (\<lambda>_ _. None) (\<lambda>_. 100) True 100 (101, 101, 102, 102) [(1, arrived sample_idle_page, 102)] sample_read)
    = Inr (Drained, 10, [(1, 3)])" by code_simp
  then show ?thesis
    by (cases "next_pass (\<lambda>_ _. None) (\<lambda>_. 100) True 100 (101, 101, 102, 102) [(1, arrived sample_idle_page, 102)] sample_read")
      auto
qed

text \<open>Two groups, of which only the first answers; the second holds its record back.\<close>

definition sample_two :: scan_source where
  "sample_two = sample_source\<lparr>
     ss_groups := ss_groups sample_source @ map (\<lambda>g. g\<lparr>sg_id := 2\<rparr>) (ss_groups sample_source),
     ss_client := make_client [1, 2] default_client_options\<rparr>"

lemma sample_two_ready: "source_ready sample_two"
  by (simp add: source_ready_def sample_two_def sample_source_def make_client_call make_client_known)

lemma sample_blocked:
  "\<exists>st st1 g st2. source_run (\<lambda>_ _ _. True) sample_two [] st \<and> pickReleasable st = (None, st1) \<and>
     g \<in> set (ss_groups st1) \<and> buffered g \<noteq> [] \<and> issueScans 100 2 st1 = Inr st2"
proof -
  let ?pass = "next_pass (\<lambda>_ _. None) (\<lambda>_. 100) True 100 (0, 0, 1, 1) [(1, arrived sample_page, 1)] sample_two"
  have "map_sum id (\<lambda>(res, st). (res, map_sum id (\<lambda>(r, st1). (r, list_ex (\<lambda>g. buffered g \<noteq> []) (ss_groups st1)))
      (Inr (pickReleasable st) :: unit + _))) ?pass = Inr (WaitUntil 100, Inr (None, True))"
    by code_simp
  then obtain st st1 where pass: "?pass = Inr (WaitUntil 100, st)" and pick: "pickReleasable st = (None, st1)"
    and buf: "list_ex (\<lambda>g. buffered g \<noteq> []) (ss_groups st1)"
    by (cases ?pass) (auto split: prod.splits)
  have arr: "pass_arrivals_ok (\<lambda>_ _ _. True) (\<lambda>_ _. None) (\<lambda>_. 100) 100 (0, 0, 1, 1) [(1, arrived sample_page, 1)] sample_two"
    by (simp add: pass_arrivals_ok_def arrival_ok_def split: sum.splits)
  have run: "source_run (\<lambda>_ _ _. True) sample_two [] st"
    using next_pass_run [OF run_start arr pass] by (simp add: pass_released_def)
  have "source_wf st1" using pick_source_wf [OF run_source_wf [OF run sample_two_ready] pick] .
  then show ?thesis using run pick buf issueScans_total by (fastforce simp: list_ex_iff)
qed

section \<open>Reading the log\<close>

text \<open>
  C3: Against any log service that keeps its contract, whatever callbacks arrive and in whatever
  order the source's operations run: the records released come out in timestamp order; per group
  they are exactly the first records of the group's log from its start timestamp on, each once and
  in order; and no record still to come, of any group, lies below one already released.
\<close>

theorem source_releases_in_order:
  assumes "log_service glog answers cpos" "source_ready st0" "source_run answers st0 rel st"
  shows "sorted (map sr_timestamp rel) \<and>
    (\<forall>g \<in> set (ss_groups st). \<exists>rest.
       filter (\<lambda>x. sg_fromTs g \<le> item_ts x) (glog (sg_id g)) = released_of rel g @ rest \<and>
       (\<forall>r \<in> set rel. \<forall>x \<in> set rest. sr_timestamp r \<le> item_ts x))"
proof -
  have ok: "source_ok glog answers cpos rel st"
    using log_service.run_source_ok [OF assms(1,3,2)] .
  have "filter (\<lambda>x. sg_fromTs g \<le> item_ts x) (glog (sg_id g)) = released_of rel g @ pending glog rel g"
    if "g \<in> set (ss_groups st)" for g
    using log_service.released_prefix [OF assms(1)] ok that by (auto simp: source_ok_def list_all_iff)
  then show ?thesis using ok by (auto simp: source_ok_def order_ok_def)
qed

theorem source_releases_in_order_witness:
  "\<exists>g rest. ss_groups sample_read = [g] \<and> sorted (map sr_timestamp [sample_record]) \<and>
     filter (\<lambda>x. 3 \<le> item_ts x) (sample_log 1) = released_of [sample_record] g @ rest \<and>
     released_of [sample_record] g = [DataItem sample_data]"
proof -
  obtain g where g: "ss_groups sample_read = [g]" "sg_id g = 1" "sg_fromTs g = 3" by (auto simp: sample_read_def)
  then show ?thesis
    using source_releases_in_order [OF fake.log_service_axioms sample_source_ready sample_run]
    by (auto simp: released_of_def sample_record_def)
qed

text \<open>
  C15: A pass of \<open>next\<close> is a run of the source that releases the record it returns; it reports
  itself drained only once its deadline has passed, and otherwise asks to wait until at most the
  deadline.
\<close>

theorem source_pass_is_run:
  assumes "source_run answers st0 rel st"
    and "pass_arrivals_ok answers nba bsz deadline (now1, now2, now3, now4) arr st"
    and "next_pass nba bsz first deadline (now1, now2, now3, now4) arr st = Inr (res, st')"
  shows "source_run answers st0 (rel @ pass_released res) st' \<and>
    (res = Drained \<longrightarrow> deadline \<le> now4) \<and> (\<forall>t. res = WaitUntil t \<longrightarrow> now4 < deadline \<and> t \<le> deadline)"
proof -
  obtain st4 o4 st5 where "case res of Released r \<Rightarrow> o4 = Some r \<and> st' = st5
       | Drained \<Rightarrow> o4 = None \<and> st' = st5\<lparr>ss_drained := True\<rparr> \<and> deadline \<le> now4
       | WaitUntil t \<Rightarrow> o4 = None \<and> st' = st5 \<and> now4 < deadline \<and> t \<le> deadline"
    using next_pass_cases [OF assms] by metis
  then show ?thesis using next_pass_run [OF assms] by (cases res) auto
qed

theorem source_pass_is_run_witness:
  "source_run sample_answers sample_source ([] @ pass_released (Released sample_record)) sample_read"
  using source_pass_is_run [OF run_start sample_arrival sample_pass] by blast

text \<open>
  C4: When a pass reports the source drained, its watermark is sound: every record of every group
  from the group's start timestamp up to \<open>emitBound\<close> has been released, and what is left lies
  strictly above.
\<close>

theorem source_watermark_sound:
  assumes "log_service glog answers cpos" "source_ready st0" "source_run answers st0 rel st"
    and "pass_arrivals_ok answers nba bsz deadline (now1, now2, now3, now4) arr st"
    and "next_pass nba bsz first deadline (now1, now2, now3, now4) arr st = Inr (Drained, st')"
  shows "\<forall>g \<in> set (ss_groups st'). \<exists>rest.
    filter (\<lambda>x. sg_fromTs g \<le> item_ts x) (glog (sg_id g)) = released_of rel g @ rest \<and>
    (\<forall>x \<in> set rest. emitBound st' < item_ts x)"
proof
  fix g assume g: "g \<in> set (ss_groups st')"
  obtain st4 o4 st5 where run: "source_run answers st0 rel st4" and t: "try_release st4 = (o4, st5)"
    and res: "o4 = None \<and> st' = st5\<lparr>ss_drained := True\<rparr>"
    using next_pass_cases [OF assms(3-5), simplified pass_result.case] by blast
  have pick: "pickReleasable st4 = (None, st5)"
    using t res by (auto simp: try_release_def split: prod.splits option.splits)
  have ok: "source_ok glog answers cpos rel st4" using log_service.run_source_ok [OF assms(1) run assms(2)] .
  have ok5: "source_ok glog answers cpos rel st5" using log_service.pick_none_ok [OF assms(1) ok pick] .
  have eb: "emitBound st' = emitBound st5" using res by (simp add: emitBound_def)
  have "filter (\<lambda>x. sg_fromTs g \<le> item_ts x) (glog (sg_id g)) = released_of rel g @ pending glog rel g"
    using log_service.released_prefix [OF assms(1)] ok5 g res by (auto simp: source_ok_def list_all_iff)
  moreover have "\<forall>x \<in> set (pending glog rel g). emitBound st5 < item_ts x"
    using log_service.pick_none_drained [OF assms(1) ok pick] g res by simp
  ultimately show "\<exists>rest. filter (\<lambda>x. sg_fromTs g \<le> item_ts x) (glog (sg_id g)) = released_of rel g @ rest \<and>
      (\<forall>x \<in> set rest. emitBound st' < item_ts x)"
    using eb by auto
qed

theorem source_watermark_sound_witness:
  "\<exists>st g rest. next_pass (\<lambda>_ _. None) (\<lambda>_. 100) True 100 (101, 101, 102, 102) [(1, arrived sample_idle_page, 102)]
       sample_read = Inr (Drained, st) \<and> ss_groups st = [g] \<and> emitBound st = 10 \<and>
     filter (\<lambda>x. 3 \<le> item_ts x) (sample_log 1) = released_of [sample_record] g @ rest \<and>
     list_all (\<lambda>x. 10 < item_ts x) rest"
proof -
  obtain st g where d: "next_pass (\<lambda>_ _. None) (\<lambda>_. 100) True 100 (101, 101, 102, 102)
       [(1, arrived sample_idle_page, 102)] sample_read = Inr (Drained, st)"
    and g: "emitBound st = 10" "ss_groups st = [g]" "sg_id g = 1" "sg_fromTs g = 3"
    using sample_drained by blast
  obtain rest where "filter (\<lambda>x. 3 \<le> item_ts x) (sample_log 1) = released_of [sample_record] g @ rest"
    "\<forall>x \<in> set rest. 10 < item_ts x"
    using source_watermark_sound [OF fake.log_service_axioms sample_source_ready sample_run sample_idle_arrival d] g by auto
  then show ?thesis using d g by (auto simp: list_all_iff)
qed

section \<open>Accounting, errors and progress\<close>

text \<open>
  C17: Whatever the transport answers, the byte budget counts exactly the pages the source holds,
  and the groups stay started and known to the client; so a pass fails only with
  \<open>ChangeStreamHistoryLost\<close> or \<open>CommandNotSupported\<close>, never with a broken invariant.
\<close>

theorem source_accounting:
  assumes "source_ready st0" "source_run answers st0 rel st"
  shows "ss_bufferedBytes st = sum_list (map group_bytes (ss_groups st)) \<and>
    (\<forall>nba bsz first deadline nows arr e. next_pass nba bsz first deadline nows arr st = Inl e \<longrightarrow>
       e = ChangeStreamHistoryLost \<or> e = CommandNotSupported)"
  using run_source_wf [OF assms(2,1)] next_pass_error by (fastforce simp: source_wf_def)

theorem source_accounting_witness:
  "ss_bufferedBytes sample_read = sum_list (map group_bytes (ss_groups sample_read)) \<and> ss_bufferedBytes sample_read = 100"
  using source_accounting [OF sample_source_ready sample_run] by (simp add: sample_read_def)

text \<open>
  C16: A source with something buffered that it may not release is waiting for someone: after the
  scans are issued, some group that holds the lowest buffered record back has a call in flight or is
  held back until a later time.
\<close>

theorem source_never_stalls:
  assumes "source_ready st0" "source_run answers st0 rel st"
    and "pickReleasable st = (None, st1)" "g \<in> set (ss_groups st1)" "buffered g \<noteq> []"
    and "issueScans deadline now st1 = Inr st2"
  shows "\<exists>h \<in> set (ss_groups st2). group_lagging (lowest_buffered (fst (heads st2))) h \<and>
    awaited now (ss_client st2) (sg_id h)"
  using blocked_is_awaited [OF run_source_wf [OF assms(2,1)] assms(3-6)] .

theorem source_never_stalls_witness:
  "\<exists>st st1 g st2. source_run (\<lambda>_ _ _. True) sample_two [] st \<and> pickReleasable st = (None, st1) \<and>
     g \<in> set (ss_groups st1) \<and> buffered g \<noteq> [] \<and> issueScans 100 2 st1 = Inr st2 \<and>
     list_ex (\<lambda>h. group_lagging (lowest_buffered (fst (heads st2))) h \<and> awaited 2 (ss_client st2) (sg_id h)) (ss_groups st2)"
proof -
  obtain st st1 g st2 where b: "source_run (\<lambda>_ _ _. True) sample_two [] st" "pickReleasable st = (None, st1)"
     "g \<in> set (ss_groups st1)" "buffered g \<noteq> []" "issueScans 100 2 st1 = Inr st2"
    using sample_blocked by blast
  have "list_ex (\<lambda>h. group_lagging (lowest_buffered (fst (heads st2))) h \<and> awaited 2 (ss_client st2) (sg_id h))
      (ss_groups st2)"
    using source_never_stalls [OF sample_two_ready b] by (simp add: list_ex_iff)
  then show ?thesis using b by blast
qed


end
