(* ===== verification/Ieee_Double.thy ===== *)
theory Ieee_Double
  imports Eloq_Prelude
begin

text \<open>
  The \<open>double\<close> of the language as its 64 IEEE-754 bits: the comparisons, the negation, the
  conversions from and to \<open>uint64_t\<close> and the multiplication by a power of two, which is all the
  key encoding does with a \<open>double\<close>. A finite value is its sign and \<open>m * 2 ^ e\<close> for the
  integers \<open>dbl_mant\<close> and \<open>dbl_scale\<close>; results are rounded to nearest, ties to even, by
  \<open>dbl_round\<close>, the default rounding of the platform. The lemmas say that a value that has an
  exact representation is not changed by rounding, for normal and subnormal results.
\<close>

definition dbl_mag :: "u64 \<Rightarrow> u64" where
  "dbl_mag d = take_bit 63 d"

definition signbit :: "u64 \<Rightarrow> bool" where
  "signbit d = bit d 63"

definition dbl_neg :: "u64 \<Rightarrow> u64" where
  "dbl_neg d = d XOR push_bit 63 1"

definition dbl_infinity :: u64 where
  "dbl_infinity = 0x7FF0000000000000"

definition dbl_quiet_NaN :: u64 where
  "dbl_quiet_NaN = 0x7FF8000000000000"

definition isnan :: "u64 \<Rightarrow> bool" where
  "isnan d = (dbl_infinity < dbl_mag d)"

definition isfinite :: "u64 \<Rightarrow> bool" where
  "isfinite d = (dbl_mag d < dbl_infinity)"

text \<open>Values compare as their signed magnitudes; a comparison with a NaN is false.\<close>

definition dbl_key :: "u64 \<Rightarrow> int" where
  "dbl_key d = (if signbit d then - uint (dbl_mag d) else uint (dbl_mag d))"

definition dbl_less :: "u64 \<Rightarrow> u64 \<Rightarrow> bool" where
  "dbl_less a b = (\<not> isnan a \<and> \<not> isnan b \<and> dbl_key a < dbl_key b)"

definition dbl_le :: "u64 \<Rightarrow> u64 \<Rightarrow> bool" where
  "dbl_le a b = (\<not> isnan a \<and> \<not> isnan b \<and> dbl_key a \<le> dbl_key b)"

definition dbl_eq :: "u64 \<Rightarrow> u64 \<Rightarrow> bool" where
  "dbl_eq a b = (\<not> isnan a \<and> \<not> isnan b \<and> dbl_key a = dbl_key b)"

definition dbl_expo :: "u64 \<Rightarrow> int" where
  "dbl_expo d = uint (dbl_mag d) div 2 ^ 52"

definition dbl_mant :: "u64 \<Rightarrow> int" where
  "dbl_mant d = (if dbl_expo d = 0 then 0 else 2 ^ 52) + uint (dbl_mag d) mod 2 ^ 52"

definition dbl_scale :: "u64 \<Rightarrow> int" where
  "dbl_scale d = max (dbl_expo d) 1 - 1075"

function bitlen :: "int \<Rightarrow> nat" where
  "bitlen n = (if n \<le> 0 then 0 else Suc (bitlen (n div 2)))"
  by pat_completeness auto
termination by (relation "measure nat") auto

declare bitlen.simps [simp del]

text \<open>The bits of the double nearest to \<open>m * 2 ^ e\<close>, for a non-negative \<open>m\<close>.\<close>

definition dbl_round :: "int \<Rightarrow> int \<Rightarrow> u64" where
  "dbl_round m e =
     (if m = 0 then 0 else
      let q = max (int (bitlen m) + e - 53) (-1074);
          mant = (if q \<le> e then m * 2 ^ nat (e - q)
                  else let k = nat (q - e); d = m div 2 ^ k; r = m mod 2 ^ k
                       in if 2 ^ k < 2 * r \<or> (2 ^ k = 2 * r \<and> odd d) then d + 1 else d)
      in word_of_int (min ((q + 1074) * 2 ^ 52 + mant) (uint dbl_infinity)))"

text \<open>Multiplication by \<open>2 ^ k\<close>.\<close>

definition dbl_ldexp :: "u64 \<Rightarrow> int \<Rightarrow> u64" where
  "dbl_ldexp d k =
     (if \<not> isfinite d then d
      else (d XOR dbl_mag d) OR dbl_round (dbl_mant d) (dbl_scale d + k))"

text \<open>\<open>static_cast\<close> between \<open>uint64_t\<close> and a \<open>double\<close> whose integer part fits it.\<close>

definition u64_to_dbl :: "u64 \<Rightarrow> u64" where
  "u64_to_dbl x = dbl_round (uint x) 0"

definition dbl_trunc :: "int \<Rightarrow> int \<Rightarrow> int" where
  "dbl_trunc m e = (if 0 \<le> e then m * 2 ^ nat e else m div 2 ^ nat (- e))"

definition dbl_to_u64 :: "u64 \<Rightarrow> u64" where
  "dbl_to_u64 d = word_of_int (dbl_trunc (dbl_mant d) (dbl_scale d))"

definition countLeadingZeros64 :: "u64 \<Rightarrow> nat" where
  "countLeadingZeros64 x = 64 - bitlen (uint x)"

section \<open>The length of a number\<close>

lemma bitlen_0 [simp]: "bitlen 0 = 0"
  by (simp add: bitlen.simps)

lemma bitlen_pos: "0 < n \<Longrightarrow> bitlen n = Suc (bitlen (n div 2))"
  by (subst bitlen.simps) simp

lemma bitlen_upper: "0 \<le> n \<Longrightarrow> n < 2 ^ bitlen n"
proof (induction n rule: bitlen.induct)
  case (1 n)
  show ?case
  proof (cases "n \<le> 0")
    case False
    then have "n div 2 < 2 ^ bitlen (n div 2)" using 1 by simp
    then show ?thesis using False by (simp add: bitlen_pos)
  qed (use 1 in simp)
qed

lemma bitlen_lower: "0 < n \<Longrightarrow> 2 ^ (bitlen n - 1) \<le> n"
proof (induction n rule: bitlen.induct)
  case (1 n)
  show ?case
  proof (cases "n div 2 \<le> 0")
    case False
    then have "2 ^ (bitlen (n div 2) - 1) \<le> n div 2" using 1 by simp
    moreover obtain k where "bitlen (n div 2) = Suc k"
      using False bitlen_pos [of "n div 2"] by simp
    ultimately show ?thesis using 1(2) by (simp add: bitlen_pos [of n])
  qed (use 1(2) in \<open>simp add: bitlen_pos [of n]\<close>)
qed

lemma bitlen_unique:
  assumes "2 ^ k \<le> n" "n < 2 ^ Suc k" shows "bitlen n = Suc k"
proof -
  have "0 < n" using assms(1) by (meson less_le_trans zero_less_numeral zero_less_power)
  then have "(2 :: int) ^ (bitlen n - 1) < 2 ^ Suc k" "(2 :: int) ^ k < 2 ^ bitlen n" "bitlen n \<noteq> 0"
    using bitlen_lower [of n] bitlen_upper [of n] assms by (force simp: bitlen_pos)+
  then have "bitlen n - 1 < Suc k" "k < bitlen n"
    using power_strict_increasing_iff [of "2 :: int"] by (metis one_less_numeral_iff semiring_norm(76))+
  then show ?thesis by simp
qed

lemma bitlen_le: "0 \<le> n \<Longrightarrow> n < 2 ^ k \<Longrightarrow> bitlen n \<le> k"
proof (rule ccontr)
  assume n: "0 \<le> n" "n < 2 ^ k" "\<not> bitlen n \<le> k"
  then have "0 < n" by (cases "n = 0") simp_all
  moreover have "(2 :: int) ^ k \<le> 2 ^ (bitlen n - 1)" using n(3) by simp
  ultimately show False using bitlen_lower [of n] n(2) by linarith
qed

lemma bitlen_shift: "0 < n \<Longrightarrow> bitlen (n * 2 ^ j) = bitlen n + j"
proof -
  assume n: "0 < n"
  then obtain k where k: "bitlen n = Suc k" by (simp add: bitlen_pos)
  then have "2 ^ k \<le> n" "n < 2 ^ Suc k"
    using bitlen_lower [OF n] bitlen_upper [of n] n by simp_all
  then have "2 ^ (k + j) \<le> n * 2 ^ j" "n * 2 ^ j < 2 ^ Suc (k + j)"
    by (simp_all add: power_add)
  then show ?thesis using bitlen_unique k by simp
qed

section \<open>Exact values\<close>

lemma uint_word_of_int_exact: "0 \<le> n \<Longrightarrow> n < 2 ^ LENGTH('a) \<Longrightarrow> uint (word_of_int n :: 'a::len word) = n"
  by (simp add: uint_word_of_int_eq take_bit_int_eq_self_iff)

lemma uint_push_bit:
  "uint x * 2 ^ n < 2 ^ LENGTH('a) \<Longrightarrow> uint (push_bit n x :: 'a::len word) = uint x * 2 ^ n"
  unfolding unsigned_push_bit_eq by (simp add: push_bit_eq_mult take_bit_int_eq_self_iff)

lemma uint_dbl_mag: "uint (dbl_mag d) = uint d mod 2 ^ 63"
  by (simp only: dbl_mag_def unsigned_take_bit_eq) (simp add: take_bit_eq_mod)

lemma dbl_mag_less: "uint (dbl_mag d) < 2 ^ 63"
  by (simp add: uint_dbl_mag)

lemma dbl_expo_nonneg [simp]: "0 \<le> dbl_expo d"
  by (simp add: dbl_expo_def pos_imp_zdiv_nonneg_iff)

lemma dbl_mant_bounds: "0 \<le> dbl_mant d" "dbl_mant d < 2 ^ 53"
proof -
  have "uint (dbl_mag d) mod 2 ^ 52 < 2 ^ 52" by simp
  then show "dbl_mant d < 2 ^ 53" unfolding dbl_mant_def by (auto simp del: mod_less_divisor)
qed (simp add: dbl_mant_def)

lemma dbl_mant_normal: "dbl_expo d \<noteq> 0 \<Longrightarrow> 2 ^ 52 \<le> dbl_mant d"
  by (simp add: dbl_mant_def)

lemma dbl_mag_parts: "uint (dbl_mag d) = (dbl_scale d + 1074) * 2 ^ 52 + dbl_mant d"
proof -
  have "uint (dbl_mag d) = dbl_expo d * 2 ^ 52 + uint (dbl_mag d) mod 2 ^ 52"
    by (simp add: dbl_expo_def)
  moreover have "dbl_expo d = 0 \<or> 1 \<le> dbl_expo d" using dbl_expo_nonneg [of d] by linarith
  ultimately show ?thesis
    by (elim disjE) (simp_all add: dbl_mant_def dbl_scale_def)
qed

text \<open>
  \<open>m * 2 ^ e\<close> has the exact representation whose last mantissa bit has weight \<open>2 ^ q\<close>: a
  normal number when \<open>m * 2 ^ j\<close> or \<open>m div 2 ^ j\<close> has 53 bits, a subnormal one otherwise.
\<close>

lemma dbl_round_exact:
  assumes "0 < M" "M < 2 ^ 53" "-1074 \<le> q" "2 ^ 52 \<le> M \<or> q = -1074" "q < 972"
  shows "uint (dbl_round (M * 2 ^ j) (q - int j)) = (q + 1074) * 2 ^ 52 + M"
proof -
  have len: "bitlen M \<le> 53" using assms by (intro bitlen_le) auto
  have len53: "bitlen M = 53" if "2 ^ 52 \<le> M"
    using bitlen_unique [of 52 M] that assms(2) by simp
  have q: "max (int (bitlen (M * 2 ^ j)) + (q - int j) - 53) (-1074) = q"
    using assms(1,3,4) len len53 by (auto simp: bitlen_shift)
  have "(q + 1074) * 2 ^ 52 \<le> 2045 * 2 ^ 52" using assms(5) by (intro mult_right_mono) auto
  then have bits: "(q + 1074) * 2 ^ 52 + M < 2047 * 2 ^ 52" using assms(2) by simp
  have inf: "uint dbl_infinity = 2047 * 2 ^ 52" by (simp add: dbl_infinity_def)
  have "dbl_round (M * 2 ^ j) (q - int j) = word_of_int ((q + 1074) * 2 ^ 52 + M)"
    unfolding dbl_round_def q Let_def inf using assms(1) bits by auto
  moreover have "0 \<le> (q + 1074) * 2 ^ 52 + M" using assms(1,3) by simp
  moreover have "(q + 1074) * 2 ^ 52 + M < 2 ^ LENGTH(64)"
    by (rule less_trans [OF bits]) simp
  ultimately show ?thesis using uint_word_of_int_exact [where 'a = 64] by metis
qed

text \<open>The same where the mantissa has to be shifted up to its 53 bits.\<close>

lemma dbl_round_exact_left:
  assumes "0 < m" "2 ^ 52 \<le> m * 2 ^ s" "m * 2 ^ s < 2 ^ 53" "-1074 \<le> q" "q < 972"
  shows "uint (dbl_round m (q + int s)) = (q + 1074) * 2 ^ 52 + m * 2 ^ s"
proof -
  have "bitlen m + s = 53"
    using bitlen_shift [of m s] bitlen_unique [of 52 "m * 2 ^ s"] assms by simp
  then have "bitlen m = 53 - s" "s \<le> 53" by simp_all
  then have "dbl_round m (q + int s) = dbl_round (m * 2 ^ s) q"
    using assms(1,4) by (simp add: dbl_round_def bitlen_shift Let_def)
  then show ?thesis
    using dbl_round_exact [of "m * 2 ^ s" q 0] assms by simp
qed

lemma dbl_partsI:
  assumes "uint w = (q + 1074) * 2 ^ 52 + M" "0 \<le> M" "M < 2 ^ 53" "-1074 \<le> q" "q < 972"
    "2 ^ 52 \<le> M \<or> q = -1074"
  shows "dbl_mag w = w" "\<not> signbit w" "isfinite w" "dbl_mant w = M" "dbl_scale w = q"
proof -
  have "(q + 1074) * 2 ^ 52 \<le> 2045 * 2 ^ 52" using assms(5) by (intro mult_right_mono) auto
  then have w: "uint w < 2047 * 2 ^ 52" using assms(1,3) by simp
  then have lt: "uint w < 2 ^ 63" by (rule less_trans) simp
  then have "uint (dbl_mag w) = uint w" by (simp add: uint_dbl_mag)
  then show mag: "dbl_mag w = w" by (simp add: word_uint_eq_iff)
  have "\<not> bit (take_bit 63 w) 63" by (simp add: bit_take_bit_iff)
  then show "\<not> signbit w" using mag by (simp add: signbit_def dbl_mag_def)
  show "isfinite w" using w by (simp add: isfinite_def mag word_less_def dbl_infinity_def)
  consider "2 ^ 52 \<le> M" | "M < 2 ^ 52" "q = -1074" using assms(6) by linarith
  then have "dbl_mant w = M \<and> dbl_scale w = q"
  proof cases
    case 1
    then have "uint w = (q + 1075) * 2 ^ 52 + (M - 2 ^ 52)" "0 \<le> M - 2 ^ 52" "M - 2 ^ 52 < 2 ^ 52"
      using assms(1,3) by auto
    then have "uint w div 2 ^ 52 = q + 1075" "uint w mod 2 ^ 52 = M - 2 ^ 52"
      by (simp_all only: div_mult_self4 mod_mult_self3 div_pos_pos_trivial mod_pos_pos_trivial)
        simp_all
    then show ?thesis using assms(4) by (simp add: dbl_mant_def dbl_scale_def dbl_expo_def mag)
  next
    case 2
    then show ?thesis using assms(1,2) by (simp add: dbl_mant_def dbl_scale_def dbl_expo_def mag)
  qed
  then show "dbl_mant w = M" "dbl_scale w = q" by simp_all
qed

text \<open>
  Scaling a positive value below \<open>2 ^ -255\<close> up by \<open>2 ^ 256\<close> makes it normal and loses nothing:
  scaling it down again gives the value back.
\<close>

lemma dbl_ldexp_pos: "dbl_mag d = d \<Longrightarrow> isfinite d \<Longrightarrow>
    dbl_ldexp d k = dbl_round (dbl_mant d) (dbl_scale d + k)"
  by (simp add: dbl_ldexp_def)

lemma dbl_expo_finite: "dbl_expo d < 2047 \<Longrightarrow> isfinite d"
proof -
  assume "dbl_expo d < 2047"
  then have "uint (dbl_mag d) < 2047 * 2 ^ 52"
    unfolding dbl_expo_def by simp
  then show ?thesis by (simp add: isfinite_def dbl_infinity_def word_less_def)
qed

lemma dbl_mant_shift:
  fixes M :: int
  assumes "0 < M" "M < 2 ^ 53"
  obtains s where "2 ^ 52 \<le> M * 2 ^ s" "M * 2 ^ s < 2 ^ 53" "s \<le> 52"
proof -
  obtain k where k: "bitlen M = Suc k" using assms(1) bitlen_pos by simp
  have "k \<le> 52" using bitlen_le [of M 53] assms k by simp
  have "2 ^ k \<le> M" "M < 2 ^ Suc k"
    using bitlen_lower [of M] bitlen_upper [of M] k assms(1) by simp_all
  then have "2 ^ k * 2 ^ (52 - k) \<le> M * 2 ^ (52 - k)" "M * 2 ^ (52 - k) < 2 ^ Suc k * 2 ^ (52 - k)"
    by (intro mult_right_mono mult_strict_right_mono, simp_all)+
  moreover have "(2 :: int) ^ k * 2 ^ (52 - k) = 2 ^ 52" "(2 :: int) ^ Suc k * 2 ^ (52 - k) = 2 ^ 53"
    using \<open>k \<le> 52\<close> by (simp_all flip: power_add power_Suc)
  ultimately show ?thesis
    using that [of "52 - k"] by (metis diff_le_self)
qed

lemma dbl_ldexp_tiny:
  assumes d: "dbl_mag d = d" "d \<noteq> 0" "dbl_expo d < 768"
  shows "dbl_mag (dbl_ldexp d 256) = dbl_ldexp d 256"
    and "uint (dbl_ldexp d 256) < 2 ^ 62"
    and "dbl_ldexp (dbl_ldexp d 256) (-256) = d"
proof -
  define M q where M: "M = dbl_mant d" and q: "q = dbl_scale d"
  have fin: "isfinite d" using d(3) by (intro dbl_expo_finite) simp
  have bits: "uint d = (q + 1074) * 2 ^ 52 + M" using dbl_mag_parts [of d] d(1) M q by simp
  have M53: "0 \<le> M" "M < 2 ^ 53" using dbl_mant_bounds M by auto
  have qb: "-1074 \<le> q" "q < -307" using d(3) by (simp_all add: q dbl_scale_def)
  have norm: "2 ^ 52 \<le> M \<or> q = -1074"
    using dbl_mant_normal [of d] dbl_expo_nonneg [of d] by (auto simp: M q dbl_scale_def)
  have "0 < M"
  proof (rule ccontr)
    assume "\<not> 0 < M"
    then have "M = 0" "q = -1074" using M53 norm by auto
    then have "uint d = 0" using bits by simp
    then show False using d(2) by (simp add: word_uint_eq_iff)
  qed
  obtain s where s: "2 ^ 52 \<le> M * 2 ^ s" "M * 2 ^ s < 2 ^ 53" "s \<le> 52"
    by (rule dbl_mant_shift [OF \<open>0 < M\<close> M53(2)])
  define w where "w = dbl_ldexp d 256"
  have up: "uint w = (q + 256 - int s + 1074) * 2 ^ 52 + M * 2 ^ s"
    using dbl_round_exact_left [OF \<open>0 < M\<close> s(1,2), of "q + 256 - int s"] qb s(3)
    by (simp add: w_def dbl_ldexp_pos [OF d(1) fin] M q add.commute)
  note w = dbl_partsI [OF up]
  have w': "dbl_mag w = w" "isfinite w" "dbl_mant w = M * 2 ^ s" "dbl_scale w = q + 256 - int s"
    using w s qb \<open>0 < M\<close> by auto
  then show "dbl_mag (dbl_ldexp d 256) = dbl_ldexp d 256" by (simp add: w_def)
  have "(q + 256 - int s + 1074) * 2 ^ 52 \<le> 1022 * 2 ^ 52"
    using qb by (intro mult_right_mono) auto
  then show "uint (dbl_ldexp d 256) < 2 ^ 62" using up s(2) by (simp add: w_def)
  have "uint (dbl_round (M * 2 ^ s) (q - int s)) = uint d"
    using dbl_round_exact [OF \<open>0 < M\<close> M53(2) qb(1) norm] qb bits by simp
  then have "dbl_ldexp w (-256) = d"
    by (simp add: dbl_ldexp_pos [OF w'(1,2)] w'(3,4) word_uint_eq_iff)
  then show "dbl_ldexp (dbl_ldexp d 256) (-256) = d" by (simp add: w_def)
qed

section \<open>Values between \<open>1\<close> and \<open>2 ^ 63\<close>\<close>

definition dbl_integral :: "u64 \<Rightarrow> bool" where
  "dbl_integral d = (0 \<le> dbl_scale d \<or> dbl_mant d mod 2 ^ nat (- dbl_scale d) = 0)"

lemma dbl_mid_parts:
  assumes "dbl_mag d = d" "0x3FF0000000000000 \<le> d" "d < 0x43E0000000000000"
  shows "2 ^ 52 \<le> dbl_mant d" "-52 \<le> dbl_scale d" "dbl_scale d \<le> 10" "isfinite d"
proof -
  have "1023 * 2 ^ 52 \<le> uint (dbl_mag d)" "uint (dbl_mag d) < 1086 * 2 ^ 52"
    using assms by (simp_all add: word_le_def word_less_def)
  then have "1023 \<le> dbl_expo d" "dbl_expo d < 1086" by (auto simp: dbl_expo_def)
  then show "2 ^ 52 \<le> dbl_mant d" "-52 \<le> dbl_scale d" "dbl_scale d \<le> 10" "isfinite d"
    using dbl_mant_normal [of d] by (simp_all add: dbl_scale_def dbl_expo_finite)
qed

lemma int_div_bounds:
  fixes a b n :: int
  assumes "0 < b"
  shows "a * b \<le> n \<Longrightarrow> a \<le> n div b" and "n < a * b \<Longrightarrow> n div b < a"
proof -
  show "a \<le> n div b" if "a * b \<le> n"
    using zdiv_mono1 [OF that assms] assms by simp
  show "n div b < a" if "n < a * b"
  proof (rule ccontr)
    assume "\<not> n div b < a"
    then have "a * b \<le> (n div b) * b" using assms by (intro mult_right_mono) auto
    also have "\<dots> = n - n mod b" by (simp add: minus_mod_eq_div_mult)
    also have "\<dots> \<le> n" using assms by simp
    finally show False using that by simp
  qed
qed

lemma int_div_mult_bounds:
  fixes b n :: int
  assumes "0 < b"
  shows "n div b * b \<le> n" and "n < (n div b + 1) * b"
proof -
  have "n div b * b = n - n mod b" by (simp add: minus_mod_eq_div_mult)
  then show "n div b * b \<le> n" "n < (n div b + 1) * b"
    using pos_mod_bound [OF assms, of n] pos_mod_sign [OF assms, of n]
    by (simp_all only: distrib_right)
qed

lemma dbl_trunc_bounds:
  assumes "2 ^ 52 \<le> m" "m < 2 ^ 53" "-52 \<le> e" "e \<le> 10"
  shows "2 ^ nat (e + 52) \<le> dbl_trunc m e" "dbl_trunc m e < 2 ^ nat (e + 53)"
proof -
  have "2 ^ nat (e + 52) \<le> dbl_trunc m e \<and> dbl_trunc m e < 2 ^ nat (e + 53)"
  proof (cases "0 \<le> e")
    case True
    then have "nat (e + 52) = 52 + nat e" "nat (e + 53) = 53 + nat e" by simp_all
    then show ?thesis using True assms(1,2) by (simp add: dbl_trunc_def power_add)
  next
    case False
    have e: "52 = nat (e + 52) + nat (- e)" "53 = nat (e + 53) + nat (- e)"
      using False assms(3) by simp_all
    have "2 ^ nat (e + 52) * 2 ^ nat (- e) \<le> m" "m < 2 ^ nat (e + 53) * 2 ^ nat (- e)"
      using assms(1,2) e by (metis power_add)+
    then have "2 ^ nat (e + 52) \<le> m div 2 ^ nat (- e)" "m div 2 ^ nat (- e) < 2 ^ nat (e + 53)"
      by (simp_all add: int_div_bounds)
    then show ?thesis using False by (simp add: dbl_trunc_def)
  qed
  then show "2 ^ nat (e + 52) \<le> dbl_trunc m e" "dbl_trunc m e < 2 ^ nat (e + 53)" by simp_all
qed

lemma uint_dbl_to_u64:
  assumes "dbl_mag d = d" "0x3FF0000000000000 \<le> d" "d < 0x43E0000000000000"
  shows "uint (dbl_to_u64 d) = dbl_trunc (dbl_mant d) (dbl_scale d)"
    and "0 < dbl_trunc (dbl_mant d) (dbl_scale d)" "dbl_trunc (dbl_mant d) (dbl_scale d) < 2 ^ 63"
proof -
  note mid = dbl_mid_parts [OF assms] dbl_mant_bounds(2) [of d]
  note T = dbl_trunc_bounds [OF mid(1) mid(5) mid(2,3)]
  have "(2 :: int) ^ nat (dbl_scale d + 53) \<le> 2 ^ 63"
    using mid(3) by (intro power_increasing) auto
  then show lt: "dbl_trunc (dbl_mant d) (dbl_scale d) < 2 ^ 63" using T(2) by linarith
  show pos: "0 < dbl_trunc (dbl_mant d) (dbl_scale d)"
    using T(1) by (meson less_le_trans zero_less_numeral zero_less_power)
  show "uint (dbl_to_u64 d) = dbl_trunc (dbl_mant d) (dbl_scale d)"
    using lt pos unfolding dbl_to_u64_def by (intro uint_word_of_int_exact) simp_all
qed

text \<open>The test of the encoder for a value with no fractional part.\<close>

lemma dbl_integer_test:
  assumes d: "dbl_mag d = d" "0x3FF0000000000000 \<le> d" "d < 0x43E0000000000000"
  shows "u64_to_dbl (dbl_to_u64 d) = d \<longleftrightarrow> dbl_integral d"
proof -
  define M q T where M: "M = dbl_mant d" and q: "q = dbl_scale d" and T: "T = dbl_trunc M q"
  note mid = dbl_mid_parts [OF d, folded M q] dbl_mant_bounds(2) [of d, folded M]
  have bits: "uint d = (q + 1074) * 2 ^ 52 + M" using dbl_mag_parts [of d] d(1) M q by simp
  have conv: "u64_to_dbl (dbl_to_u64 d) = dbl_round T 0" "0 < T"
    using uint_dbl_to_u64 [OF d] by (simp_all add: u64_to_dbl_def T M q)
  have M0: "0 < M" using mid(1) by simp
  consider "0 \<le> q" | "q < 0" "M mod 2 ^ nat (- q) = 0" | "q < 0" "M mod 2 ^ nat (- q) \<noteq> 0"
    by linarith
  then show ?thesis
  proof cases
    case 1
    then have "dbl_round T 0 = d"
      using dbl_round_exact [OF M0 mid(5), of q "nat q"] mid bits
      by (simp add: T dbl_trunc_def word_uint_eq_iff)
    then show ?thesis using 1 by (simp add: conv dbl_integral_def q)
  next
    case 2
    then have TM: "T * 2 ^ nat (- q) = M"
      by (simp add: T dbl_trunc_def)
        (metis add.right_neutral div_mult_mod_eq)
    have "uint (dbl_round T (q + int (nat (- q)))) = (q + 1074) * 2 ^ 52 + T * 2 ^ nat (- q)"
      by (rule dbl_round_exact_left) (use mid TM conv(2) in simp_all)
    then have "dbl_round T 0 = d" using 2(1) TM bits by (simp add: word_uint_eq_iff)
    then show ?thesis using 2 by (simp add: conv dbl_integral_def q M)
  next
    case 3
    have "T < 2 ^ nat (q + 53)" using dbl_trunc_bounds [of M q] mid T by simp
    also have "(2 :: int) ^ nat (q + 53) \<le> 2 ^ 53" using 3(1) by (intro power_increasing) auto
    finally obtain s where s: "2 ^ 52 \<le> T * 2 ^ s" "T * 2 ^ s < 2 ^ 53" "s \<le> 52"
      using dbl_mant_shift [OF conv(2)] by blast
    have up: "uint (dbl_round T (- int s + int s)) = (- int s + 1074) * 2 ^ 52 + T * 2 ^ s"
      by (rule dbl_round_exact_left) (use s conv(2) in simp_all)
    have "dbl_mant (dbl_round T 0) = T * 2 ^ s" "dbl_scale (dbl_round T 0) = - int s"
      using dbl_partsI(4,5) [OF up] s by simp_all
    then have "dbl_round T 0 \<noteq> d" using 3(2) M q by auto
    then show ?thesis using 3 by (simp add: conv dbl_integral_def q M)
  qed
qed

text \<open>
  A value with a fractional part, shifted left by as many whole bytes as leave room for its
  integer part and two bits: the result is the value's integer part and fraction in fixed point,
  nothing is lost, and shifting it back gives the value.
\<close>

definition frac_bytes :: "u64 \<Rightarrow> nat" where
  "frac_bytes d = countLeadingZeros64 (push_bit 1 (dbl_to_u64 d)) div 8"

lemma frac_bytes_bounds:
  assumes d: "dbl_mag d = d" "0x3FF0000000000000 \<le> d" "d < 0x43E0000000000000"
    and frac: "\<not> dbl_integral d"
  shows "55 \<le> dbl_scale d + 52 + 8 * int (frac_bytes d)"
    and "dbl_scale d + 52 + 8 * int (frac_bytes d) \<le> 62"
    and "0 < frac_bytes d" "frac_bytes d < 8" "dbl_scale d < 0"
proof -
  define q T where q: "q = dbl_scale d" and T: "T = dbl_trunc (dbl_mant d) q"
  note mid = dbl_mid_parts [OF d, folded q]
  note Tb = dbl_trunc_bounds [OF mid(1) dbl_mant_bounds(2) mid(2,3), folded T]
  show "dbl_scale d < 0" using frac by (simp add: dbl_integral_def)
  then have neg: "q < 0" by (simp add: q)
  have conv: "uint (dbl_to_u64 d) = T" "T < 2 ^ 63" "0 < T" using uint_dbl_to_u64 [OF d] T q by auto
  have "uint (push_bit 1 (dbl_to_u64 d)) = T * 2"
    using uint_push_bit [of "dbl_to_u64 d" 1] conv by simp
  moreover have "bitlen T = Suc (nat (q + 52))"
  proof (rule bitlen_unique)
    have "Suc (nat (q + 52)) = nat (q + 53)" using mid(2) by simp
    then show "T < 2 ^ Suc (nat (q + 52))" using Tb(2) by metis
  qed (rule Tb(1))
  then have "bitlen (T * 2) = nat (q + 52) + 2"
    using bitlen_shift [OF conv(3), of 1] by simp
  ultimately have fb: "frac_bytes d = (62 - nat (q + 52)) div 8"
    by (simp add: frac_bytes_def countLeadingZeros64_def)
  have n: "nat (q + 52) \<le> 51" "int (nat (q + 52)) = q + 52" using neg mid(2) by simp_all
  show "55 \<le> dbl_scale d + 52 + 8 * int (frac_bytes d)"
    and "dbl_scale d + 52 + 8 * int (frac_bytes d) \<le> 62"
    and "0 < frac_bytes d" "frac_bytes d < 8"
    using n unfolding fb q [symmetric] by linarith+
qed

lemma dbl_fraction:
  assumes d: "dbl_mag d = d" "0x3FF0000000000000 \<le> d" "d < 0x43E0000000000000"
    and frac: "\<not> dbl_integral d"
  defines "fb \<equiv> frac_bytes d"
  defines "enc \<equiv> dbl_to_u64 (dbl_ldexp d (8 * int fb))"
  shows "uint enc < 2 ^ 63" and "uint enc mod 4 = 0"
    and "uint (dbl_to_u64 d) * 2 ^ (8 * fb) \<le> uint enc"
    and "uint enc < (uint (dbl_to_u64 d) + 1) * 2 ^ (8 * fb)"
    and "dbl_ldexp (u64_to_dbl enc) (- 8 * int fb) = d"
proof -
  define M q K where M: "M = dbl_mant d" and q: "q = dbl_scale d" and K: "K = nat (q + 8 * int fb)"
  note mid = dbl_mid_parts [OF d, folded M q] dbl_mant_bounds(2) [of d, folded M]
  note fb = frac_bytes_bounds [OF d frac, folded q fb_def]
  have bits: "uint d = (q + 1074) * 2 ^ 52 + M" using dbl_mag_parts [of d] d(1) M q by simp
  have K': "q + 8 * int fb = int K" "3 \<le> K" "K \<le> 10" using fb K by simp_all
  have M0: "0 < M" using mid(1) by simp
  define w where "w = dbl_ldexp d (8 * int fb)"
  have "uint w = (int K + 1074) * 2 ^ 52 + M"
    using dbl_round_exact [OF M0 mid(5), of "int K" 0] mid(1) K'
    by (simp add: w_def dbl_ldexp_pos [OF d(1) mid(4)] M q)
  note w = dbl_partsI [OF this]
  have "M * 2 ^ K < 2 ^ 53 * 2 ^ 10"
    using mid(5) M0 K'(3) by (intro mult_less_le_imp_less power_increasing) simp_all
  then have lt: "M * 2 ^ K < 2 ^ 63" by simp
  have enc: "uint enc = M * 2 ^ K"
    unfolding enc_def w_def [symmetric] dbl_to_u64_def
    using w mid K' M0 lt by (subst uint_word_of_int_exact) (simp_all add: dbl_trunc_def)
  show "uint enc < 2 ^ 63" using enc lt by simp
  obtain k where "K = k + 3" using K'(2) le_Suc_ex [of 3 K] by (auto simp: add.commute)
  then show "uint enc mod 4 = 0" using enc by (simp add: power_add)
  have T: "uint (dbl_to_u64 d) = M div 2 ^ nat (- q)"
    using uint_dbl_to_u64(1) [OF d] fb(5) by (simp add: dbl_trunc_def M q)
  have pw: "(2 :: int) ^ (8 * fb) = 2 ^ nat (- q) * 2 ^ K"
    using K'(1) fb(5) by (simp flip: power_add)
  have "M div 2 ^ nat (- q) * 2 ^ nat (- q) \<le> M" "M < (M div 2 ^ nat (- q) + 1) * 2 ^ nat (- q)"
    by (simp_all add: int_div_mult_bounds)
  then show "uint (dbl_to_u64 d) * 2 ^ (8 * fb) \<le> uint enc"
    and "uint enc < (uint (dbl_to_u64 d) + 1) * 2 ^ (8 * fb)"
    unfolding T enc pw by (simp_all add: mult.assoc [symmetric])
  have inv: "uint (u64_to_dbl enc) = (int K + 1074) * 2 ^ 52 + M"
    using dbl_round_exact [OF M0 mid(5), of "int K" K] mid(1) K' enc by (simp add: u64_to_dbl_def)
  note b = dbl_partsI [OF this]
  have "dbl_ldexp (u64_to_dbl enc) (- 8 * int fb) = dbl_round M q"
    using b mid K'(2,3) M0 K'(1) [symmetric] by (subst dbl_ldexp_pos) simp_all
  also have "\<dots> = d"
    using dbl_round_exact [OF M0 mid(5), of q 0] mid bits by (simp add: word_uint_eq_iff)
  finally show "dbl_ldexp (u64_to_dbl enc) (- 8 * int fb) = d" .
qed

end
