(* ===== verification/Decimal128_Model.thy ===== *)
theory Decimal128_Model
  imports Bson_Model Ieee_Double
begin

text \<open>
  \<open>Decimal128\<close> (\<open>mongo/platform/decimal128.h\<close>, \<open>decimal128.cpp\<close>), as far as the key encoding
  uses it. The class keeps a value as its two 64-bit words and reads the exponent and the
  coefficient out of them itself; those methods and the constructor from a \<open>double\<close> are translated.
  Arithmetic, comparison and classification are calls into Intel's decimal floating-point library,
  which is not part of the program: the functions it provides are the fields of \<open>decimal_lib\<close>, an
  argument of every definition that uses them. A library function that reports flags returns them
  beside its result.
\<close>

datatype rounding_mode =
    kRoundTiesToEven
  | kRoundTowardNegative
  | kRoundTowardPositive
  | kRoundTowardZero
  | kRoundTiesToAway

datatype rounding_precision = kRoundTo15Digits | kRoundTo34Digits

record decimal_lib =
  bid128_isZero :: "dec128 \<Rightarrow> bool"
  bid128_isNaN :: "dec128 \<Rightarrow> bool"
  bid128_isInf :: "dec128 \<Rightarrow> bool"
  bid128_isSigned :: "dec128 \<Rightarrow> bool"
  bid128_to_binary64 :: "dec128 \<Rightarrow> rounding_mode \<Rightarrow> u64 \<times> u32"
  binary64_to_bid128 :: "u64 \<Rightarrow> rounding_mode \<Rightarrow> dec128"
  bid128_from_int64 :: "u64 \<Rightarrow> dec128"
  bid128_add :: "dec128 \<Rightarrow> dec128 \<Rightarrow> rounding_mode \<Rightarrow> dec128 \<times> u32"
  bid128_sub :: "dec128 \<Rightarrow> dec128 \<Rightarrow> rounding_mode \<Rightarrow> dec128 \<times> u32"
  bid128_mul :: "dec128 \<Rightarrow> dec128 \<Rightarrow> rounding_mode \<Rightarrow> dec128 \<times> u32"
  bid128_quantize :: "dec128 \<Rightarrow> dec128 \<Rightarrow> rounding_mode \<Rightarrow> dec128 \<times> u32"
  bid128_quiet_equal :: "dec128 \<Rightarrow> dec128 \<Rightarrow> bool"
  bid128_quiet_less :: "dec128 \<Rightarrow> dec128 \<Rightarrow> bool"

definition kNoFlag :: u32 where "kNoFlag = 0"
definition kOverflowFlag :: u32 where "kOverflowFlag = 0x08"
definition kInexact :: u32 where "kInexact = 0x20"

definition hasFlag :: "u32 \<Rightarrow> u32 \<Rightarrow> bool" where
  "hasFlag signalingFlags f = (signalingFlags AND f \<noteq> 0)"

definition kMaxBiasedExponent :: u32 where "kMaxBiasedExponent = 6143 + 6144"
definition kExponentBias :: u64 where "kExponentBias = 6143 + 33"

definition low64 :: "dec128 \<Rightarrow> u64" where "low64 v = fst v"
definition high64 :: "dec128 \<Rightarrow> u64" where "high64 v = snd v"

definition getCombinationField :: "dec128 \<Rightarrow> u64" where
  "getCombinationField v = drop_bit 46 (high64 v) AND (push_bit 17 1 - 1)"

definition kCombinationNonCanonical :: u64 where "kCombinationNonCanonical = push_bit 15 3"
definition kCombinationInfinity :: u64 where "kCombinationInfinity = push_bit 12 0x1E"

definition getBiasedExponent :: "dec128 \<Rightarrow> u32" where
  "getBiasedExponent v =
     (let combo = getCombinationField v in
      if combo < kCombinationNonCanonical then ucast (drop_bit 3 combo)
      else if kCombinationInfinity \<le> combo then kMaxBiasedExponent + 1
      else ucast (drop_bit 1 combo AND (push_bit 14 1 - 1)))"

definition getCoefficientHigh :: "dec128 \<Rightarrow> u64" where
  "getCoefficientHigh v =
     (if getCombinationField v < kCombinationNonCanonical then high64 v AND (push_bit 49 1 - 1) else 0)"

definition getCoefficientLow :: "dec128 \<Rightarrow> u64" where
  "getCoefficientLow v = (if getCombinationField v < kCombinationNonCanonical then low64 v else 0)"

definition dec_negate :: "dec128 \<Rightarrow> dec128" where
  "dec_negate v = (low64 v, high64 v XOR push_bit 63 1)"

text \<open>The constructor from sign, exponent and coefficient.\<close>

definition dec_fromParts :: "bool \<Rightarrow> u64 \<Rightarrow> u64 \<Rightarrow> u64 \<Rightarrow> dec128" where
  "dec_fromParts neg expo coefficientHigh coefficientLow =
     (coefficientLow, push_bit 63 (of_bool neg) OR push_bit 49 expo OR coefficientHigh)"

definition dec_isValid :: "bool \<Rightarrow> u64 \<Rightarrow> u64 \<Rightarrow> u64 \<Rightarrow> bool" where
  "dec_isValid neg expo coefficientHigh coefficientLow =
     (if 0x1ED09BEAD87C0 \<le> coefficientHigh \<and>
         (coefficientHigh \<noteq> 0x1ED09BEAD87C0 \<or> coefficientLow \<noteq> 0x378D8E63FFFFFFFF)
      then False
      else ucast (getBiasedExponent (dec_fromParts neg expo coefficientHigh coefficientLow)) = expo)"

definition kNormalizedZero :: dec128 where
  "kNormalizedZero = (0, push_bit 49 kExponentBias)"

definition kLargestNegativeExponentZero :: dec128 where
  "kLargestNegativeExponentZero = (0, 0)"

definition dec_add :: "decimal_lib \<Rightarrow> dec128 \<Rightarrow> dec128 \<Rightarrow> dec128" where
  "dec_add D a b = fst (bid128_add D a b kRoundTiesToEven)"

definition dec_normalize :: "decimal_lib \<Rightarrow> dec128 \<Rightarrow> dec128" where
  "dec_normalize D v = dec_add D v kLargestNegativeExponentZero"

text \<open>
  The constructor from a \<open>double\<close>: the library's conversion, and for 15 digits a quantization whose
  quantum comes from the base-2 exponent, tried once more with one digit less when the first guess
  was one short. Integer division truncates, and \<open>base2Exp\<close> is that of a value in \<open>[1, 2)\<close>.
\<close>

definition dbl_base2Exp :: "u64 \<Rightarrow> int" where
  "dbl_base2Exp d = dbl_scale d + int (bitlen (dbl_mant d)) - 1"

definition int_trunc_div :: "int \<Rightarrow> int \<Rightarrow> int" where
  "int_trunc_div a b = (if a < 0 then - ((- a) div b) else a div b)"

definition dec_fromDouble :: "decimal_lib \<Rightarrow> u64 \<Rightarrow> rounding_precision \<Rightarrow> rounding_mode \<Rightarrow> dec128 result" where
  "dec_fromDouble D doubleValue roundPrecision roundMode =
     (let converted = binary64_to_bid128 D doubleValue roundMode in
      if dbl_eq doubleValue 0 \<or> \<not> isfinite doubleValue \<or> roundPrecision = kRoundTo34Digits
      then Inr converted
      else
        let base2Exp = dbl_base2Exp doubleValue;
            base10Exp = (let b = int_trunc_div (base2Exp * 30103) (100 * 1000)
                         in if base2Exp < 0 then b - 1 else b);
            Q = (\<lambda>k :: int. dec_fromParts False (word_of_int (base10Exp - k) + kExponentBias) 0 1);
            q1 = fst (bid128_quantize D converted (Q 14) roundMode);
            q2 = (if 999999999999999 < getCoefficientLow q1
                  then fst (bid128_quantize D converted (Q 13) roundMode) else q1)
        in if getCoefficientHigh q2 = 0 \<and> 100000000000000 \<le> getCoefficientLow q2 \<and>
              getCoefficientLow q2 \<le> 999999999999999
           then Inr q2 else Inl InvariantFailure)"

lemma dec_negate_involution [simp]: "dec_negate (dec_negate v) = v"
  by (cases v) (simp add: dec_negate_def low64_def high64_def xor.assoc)

end
