(* ===== verification/Type_Bits.thy ===== *)
theory Type_Bits
  imports Eloq_Prelude
begin

text \<open>
  \<open>KeyString::TypeBits\<close> (\<open>key_string.h\<close>, \<open>key_string.cpp\<close>): the bits beside a key that say
  which of the types that compare equal a value had. They are packed low to high into the data
  bytes of a fixed buffer whose first byte is a size byte with its high bit set, and stored in one
  of three forms (all zeros, one data byte, size byte and data bytes). Each method is a definition
  over the record of the class's fields; the buffer's bytes that no method has written yet are
  zero here. The invariant \<open>bits_ok\<close> ties the fields to the sequence of bits appended so far,
  and reading what was stored gives that sequence back.
\<close>

datatype ks_version = V0 | V1

record type_bits =
  tb_version :: ks_version
  tb_curBit :: nat
  tb_isAllZeros :: bool
  tb_buf :: bytes

definition kMaxBytesNeeded :: u8 where "kMaxBytesNeeded = 127"
definition kStoredDecimalExponentBits :: nat where "kStoredDecimalExponentBits = 6"

definition kString :: u8 where "kString = 0"
definition kSymbol :: u8 where "kSymbol = 1"
definition kInt :: u8 where "kInt = 0"
definition kLong :: u8 where "kLong = 1"
definition kDouble :: u8 where "kDouble = 2"
definition kDecimal :: u8 where "kDecimal = 3"
definition kSpecialZeroPrefix :: u8 where "kSpecialZeroPrefix = 3"
definition kNegativeDoubleZero :: u8 where "kNegativeDoubleZero = 3"
definition kV0NegativeDoubleZero :: u8 where "kV0NegativeDoubleZero = 3"
definition kV1NegativeDoubleZero :: u8 where "kV1NegativeDoubleZero = 0x18"
definition kDecimalZero0xxx :: u8 where "kDecimalZero0xxx = 0x1A"
definition kDecimalZero5xxx :: u8 where "kDecimalZero5xxx = 0x1F"

definition getSizeByte :: "type_bits \<Rightarrow> u8" where
  "getSizeByte tb = (tb_buf tb ! 0) AND 0x7F"

definition setSizeByte :: "u8 \<Rightarrow> type_bits \<Rightarrow> type_bits result" where
  "setSizeByte sz tb =
     (if sz < kMaxBytesNeeded then Inr (tb\<lparr>tb_buf := (tb_buf tb)[0 := 0x80 OR sz]\<rparr>)
      else Inl KeyTooLong)"

text \<open>\<open>reset\<close>; setting the size byte to \<open>0\<close> cannot fail.\<close>

definition tb_reset :: "type_bits \<Rightarrow> type_bits" where
  "tb_reset tb = tb\<lparr>tb_curBit := 0, tb_isAllZeros := True, tb_buf := (tb_buf tb)[0 := 0x80, 1 := 0]\<rparr>"

definition mkTypeBits :: "ks_version \<Rightarrow> type_bits" where
  "mkTypeBits v = tb_reset
     \<lparr>tb_version = v, tb_curBit = 0, tb_isAllZeros = False, tb_buf = replicate 128 0\<rparr>"

definition tb_getSize :: "type_bits \<Rightarrow> nat" where
  "tb_getSize tb =
     (if tb_isAllZeros tb then 1
      else let rawSize = getSizeByte tb in
        if rawSize = 1 \<and> (tb_buf tb ! 1) AND 0x80 = 0 then 1 else unat rawSize + 1)"

text \<open>The bytes \<open>getBuffer\<close> points at, \<open>getSize\<close> many of them.\<close>

definition tb_getBuffer :: "type_bits \<Rightarrow> bytes" where
  "tb_getBuffer tb = take (tb_getSize tb) (if tb_getSize tb = 1 then drop 1 (tb_buf tb) else tb_buf tb)"

definition resetFromBuffer :: "type_bits \<Rightarrow> bytes \<Rightarrow> (type_bits \<times> bytes) result" where
  "resetFromBuffer tb r =
     (if r = [] then Inr (tb_reset tb, r)
      else rbind (read_be Overflow r) (\<lambda>(firstByte :: u8, r1).
        if firstByte AND 0x80 \<noteq> 0 then
          let tb1 = tb\<lparr>tb_isAllZeros := False, tb_buf := (tb_buf tb)[0 := firstByte]\<rparr>;
              n = unat (getSizeByte tb1)
          in rbind (read_exact Overflow n r1) (\<lambda>(bs, r2).
               Inr (tb1\<lparr>tb_buf := take 1 (tb_buf tb1) @ bs @ drop (n + 1) (tb_buf tb1)\<rparr>, r2))
        else if firstByte = 0 then Inr (tb_reset tb, r1)
        else rbind (setSizeByte 1 (tb\<lparr>tb_isAllZeros := False\<rparr>)) (\<lambda>tb1.
               Inr (tb1\<lparr>tb_buf := (tb_buf tb1)[1 := firstByte]\<rparr>, r1))))"

definition fromBuffer :: "ks_version \<Rightarrow> bytes \<Rightarrow> (type_bits \<times> bytes) result" where
  "fromBuffer v r = resetFromBuffer (mkTypeBits v) r"

definition appendBit :: "u8 \<Rightarrow> type_bits \<Rightarrow> type_bits result" where
  "appendBit oneOrZero tb =
     (let tb1 = (if oneOrZero = 1 then tb\<lparr>tb_isAllZeros := False\<rparr> else tb);
          byte = (of_nat (tb_curBit tb div 8) + 1 :: u8);
          offsetInByte = tb_curBit tb mod 8;
          i = unat byte
      in rbind (if offsetInByte = 0
                then rbind (setSizeByte byte tb1) (\<lambda>tb2. Inr (tb2\<lparr>tb_buf := (tb_buf tb2)[i := oneOrZero]\<rparr>))
                else Inr (tb1\<lparr>tb_buf := (tb_buf tb1)[i := (tb_buf tb1 ! i) OR push_bit offsetInByte oneOrZero]\<rparr>))
           (\<lambda>tb3. Inr (tb3\<lparr>tb_curBit := tb_curBit tb + 1\<rparr>)))"

text \<open>The bits of a code from position \<open>n - 1\<close> down to \<open>0\<close>, the order the loops append them in.\<close>

primrec appendBits :: "nat \<Rightarrow> 'a::len word \<Rightarrow> type_bits \<Rightarrow> type_bits result" where
  "appendBits 0 w tb = Inr tb"
| "appendBits (Suc n) w tb = rbind (appendBit (ucast (drop_bit n w AND 1)) tb) (appendBits n w)"

definition tb_appendString :: "type_bits \<Rightarrow> type_bits result" where
  "tb_appendString = appendBit kString"

definition tb_appendSymbol :: "type_bits \<Rightarrow> type_bits result" where
  "tb_appendSymbol = appendBit kSymbol"

definition tb_appendNumber :: "u8 \<Rightarrow> type_bits \<Rightarrow> type_bits result" where
  "tb_appendNumber k tb = rbind (appendBit (drop_bit 1 k) tb) (appendBit (k AND 1))"

definition tb_appendNumberDouble :: "type_bits \<Rightarrow> type_bits result" where
  "tb_appendNumberDouble = tb_appendNumber kDouble"

definition tb_appendNumberInt :: "type_bits \<Rightarrow> type_bits result" where
  "tb_appendNumberInt = tb_appendNumber kInt"

definition tb_appendNumberLong :: "type_bits \<Rightarrow> type_bits result" where
  "tb_appendNumberLong = tb_appendNumber kLong"

definition tb_appendNumberDecimal :: "type_bits \<Rightarrow> type_bits result" where
  "tb_appendNumberDecimal = tb_appendNumber kDecimal"

definition tb_appendZero :: "u8 \<Rightarrow> type_bits \<Rightarrow> type_bits result" where
  "tb_appendZero zeroType tb =
     (if zeroType = kInt \<or> zeroType = kDouble \<or> zeroType = kLong then tb_appendNumber zeroType tb
      else if zeroType = kNegativeDoubleZero then
        (if tb_version tb = V0 then tb_appendNumber kV0NegativeDoubleZero tb
         else appendBits 5 kV1NegativeDoubleZero tb)
      else if kDecimalZero0xxx \<le> zeroType \<and> zeroType \<le> kDecimalZero5xxx then appendBits 5 zeroType tb
      else Inl InvariantFailure)"

definition tb_appendDecimalZero :: "u32 \<Rightarrow> type_bits \<Rightarrow> type_bits result" where
  "tb_appendDecimalZero whichZero tb =
     (if ucast (kDecimalZero5xxx - kDecimalZero0xxx) < drop_bit 12 whichZero then Inl InvariantFailure
      else rbind (tb_appendZero (ucast (drop_bit 12 whichZero + ucast kDecimalZero0xxx)) tb)
             (appendBits 12 whichZero))"

definition tb_appendDecimalExponent :: "u8 \<Rightarrow> type_bits \<Rightarrow> type_bits result" where
  "tb_appendDecimalExponent storedExponentBits tb =
     (if storedExponentBits < push_bit kStoredDecimalExponentBits 1
      then appendBits kStoredDecimalExponentBits storedExponentBits tb else Inl InvariantFailure)"

section \<open>The reader\<close>

record tb_reader =
  tr_curBit :: nat
  tr_typeBits :: type_bits

definition mkReader :: "type_bits \<Rightarrow> tb_reader" where
  "mkReader tb = \<lparr>tr_curBit = 0, tr_typeBits = tb\<rparr>"

definition readBit :: "tb_reader \<Rightarrow> (u8 \<times> tb_reader) result" where
  "readBit rd =
     (if tb_isAllZeros (tr_typeBits rd) then Inr (0, rd)
      else let byte = (of_nat (tr_curBit rd div 8) + 1 :: u8);
               offsetInByte = tr_curBit rd mod 8;
               rd1 = rd\<lparr>tr_curBit := tr_curBit rd + 1\<rparr>
        in if byte \<le> getSizeByte (tr_typeBits rd)
           then Inr (if (tb_buf (tr_typeBits rd) ! unat byte) AND push_bit offsetInByte 1 \<noteq> 0 then 1 else 0, rd1)
           else Inl (Location 50615))"

text \<open>Bits shifted in one after the other, as the loops of the reader do.\<close>

primrec readBits :: "nat \<Rightarrow> 'a::len word \<Rightarrow> tb_reader \<Rightarrow> ('a word \<times> tb_reader) result" where
  "readBits 0 acc rd = Inr (acc, rd)"
| "readBits (Suc n) acc rd = rbind (readBit rd) (\<lambda>(b, rd'). readBits n (push_bit 1 acc OR ucast b) rd')"

definition readStringLike :: "tb_reader \<Rightarrow> (u8 \<times> tb_reader) result" where
  "readStringLike = readBit"

definition readNumeric :: "tb_reader \<Rightarrow> (u8 \<times> tb_reader) result" where
  "readNumeric rd = readBits 2 0 rd"

definition readZero :: "tb_reader \<Rightarrow> (u8 \<times> tb_reader) result" where
  "readZero rd = rbind (readNumeric rd) (\<lambda>(res, rd1).
     rbind (if tb_version (tr_typeBits rd) \<noteq> V0 \<and> res = kSpecialZeroPrefix then readBits 3 res rd1
            else Inr (res, rd1)) (\<lambda>(res, rd2).
       Inr (if res = kV1NegativeDoubleZero \<or> res = kV0NegativeDoubleZero then kNegativeDoubleZero else res, rd2)))"

definition readDecimalZero :: "u8 \<Rightarrow> tb_reader \<Rightarrow> (u32 \<times> tb_reader) result" where
  "readDecimalZero zeroType rd = readBits 12 (ucast (zeroType - kDecimalZero0xxx)) rd"

definition readDecimalExponent :: "tb_reader \<Rightarrow> (u8 \<times> tb_reader) result" where
  "readDecimalExponent rd = readBits kStoredDecimalExponentBits 0 rd"

section \<open>The bits appended so far\<close>

definition tb_bit :: "type_bits \<Rightarrow> nat \<Rightarrow> bool" where
  "tb_bit tb i = bit (tb_buf tb ! (i div 8 + 1)) (i mod 8)"

definition bits_ok :: "type_bits \<Rightarrow> bool list \<Rightarrow> bool" where
  "bits_ok tb bits \<longleftrightarrow>
     length (tb_buf tb) = 128 \<and> tb_curBit tb = length bits \<and> length bits \<le> 1008 \<and>
     tb_isAllZeros tb = (\<not> list_ex id bits) \<and>
     tb_buf tb ! 0 = 0x80 OR of_nat ((length bits + 7) div 8) \<and>
     (\<forall>i < 8 * max 1 ((length bits + 7) div 8). tb_bit tb i = (i < length bits \<and> bits ! i))"

lemma bits_ok_new: "bits_ok (mkTypeBits v) []"
  by (simp add: bits_ok_def mkTypeBits_def tb_reset_def tb_bit_def)

lemma unat_byte_index: "k \<le> 126 \<Longrightarrow> unat (of_nat k + 1 :: u8) = k + 1"
  using unsigned_of_nat [of "k + 1", where 'a = nat and 'b = 8]
  by (simp add: take_bit_nat_eq_self_iff add.commute)

lemma bit_of_bool_u8: "bit (of_bool b :: u8) j \<longleftrightarrow> b \<and> j = 0"
  by (cases b) (simp_all add: bit_1_iff)

lemma bits_ok_byte_start:
  assumes ok: "bits_ok tb bits" and n: "length bits mod 8 = 0" "length bits < 1008"
  defines "k \<equiv> length bits div 8"
  shows "\<exists>tb'. appendBit (of_bool b) tb = Inr tb' \<and> bits_ok tb' (bits @ [b]) \<and> tb_version tb' = tb_version tb"
proof -
  have len: "length bits = 8 * k" using n(1) by (auto simp: k_def)
  then have k: "k \<le> 125" using n(2) by simp
  then have u: "unat (of_nat k + 1 :: u8) = k + 1" by (intro unat_byte_index) simp
  have small: "(of_nat k + 1 :: u8) < kMaxBytesNeeded"
    using k by (simp add: word_less_nat_alt u kMaxBytesNeeded_def)
  define tb' where "tb' = tb\<lparr>tb_isAllZeros := (tb_isAllZeros tb \<and> \<not> b),
    tb_buf := (tb_buf tb)[0 := 0x80 OR (of_nat k + 1), k + 1 := of_bool b], tb_curBit := length bits + 1\<rparr>"
  have buf: "length (tb_buf tb) = 128" "tb_curBit tb = length bits"
    and az: "tb_isAllZeros tb = (\<not> list_ex id bits)"
    and bit: "\<And>i. i < 8 * max 1 k \<Longrightarrow> tb_bit tb i = (i < length bits \<and> bits ! i)"
    using ok len by (auto simp: bits_ok_def)
  have "appendBit (of_bool b) tb = Inr tb'"
    using small n(1) buf by (cases b) (simp_all add: appendBit_def Let_def setSizeByte_def u tb'_def flip: k_def)
  moreover have "bits_ok tb' (bits @ [b])"
    unfolding bits_ok_def
  proof (intro conjI allI impI)
    fix i assume i: "i < 8 * max 1 ((length (bits @ [b]) + 7) div 8)"
    then have ik: "i div 8 \<le> k" using len by auto
    show "tb_bit tb' i = (i < length (bits @ [b]) \<and> (bits @ [b]) ! i)"
    proof (cases "i div 8 = k")
      case True
      then have "8 * k \<le> i" "i mod 8 = i - 8 * k" by (auto simp: minus_mult_div_eq_mod)
      then show ?thesis using True k buf len
        by (auto simp: tb_bit_def tb'_def bit_of_bool_u8 nth_append)
    next
      case False
      then have "i < 8 * k" using ik by auto
      then show ?thesis using False bit [of i] k buf len
        by (simp add: tb_bit_def tb'_def nth_append)
    qed
  next
    show "tb_isAllZeros tb' = (\<not> list_ex id (bits @ [b]))" by (simp add: tb'_def az)
  qed (use buf len k n in \<open>simp_all add: tb'_def add.commute\<close>)
  ultimately show ?thesis by (auto simp: tb'_def)
qed

lemma bits_ok_in_byte:
  assumes ok: "bits_ok tb bits" and n: "length bits mod 8 \<noteq> 0"
  defines "k \<equiv> length bits div 8"
  shows "\<exists>tb'. appendBit (of_bool b) tb = Inr tb' \<and> bits_ok tb' (bits @ [b]) \<and> tb_version tb' = tb_version tb"
proof -
  have len: "length bits = 8 * k + length bits mod 8" by (simp add: k_def)
  have le: "length bits \<le> 1008" using ok by (simp add: bits_ok_def)
  then have k: "k \<le> 125" using n len by linarith
  then have u: "unat (of_nat k + 1 :: u8) = k + 1" by (intro unat_byte_index) simp
  have m: "length bits mod 8 < 8" by simp
  have up: "(length bits + 7) div 8 = k + 1" "(length bits + 8) div 8 = k + 1"
    using n len m by linarith+
  define tb' where "tb' = tb\<lparr>tb_isAllZeros := (tb_isAllZeros tb \<and> \<not> b),
    tb_buf := (tb_buf tb)[k + 1 := (tb_buf tb ! (k + 1)) OR push_bit (length bits mod 8) (of_bool b)],
    tb_curBit := length bits + 1\<rparr>"
  have buf: "length (tb_buf tb) = 128" "tb_curBit tb = length bits"
      "tb_buf tb ! 0 = 0x80 OR of_nat (k + 1)"
    and az: "tb_isAllZeros tb = (\<not> list_ex id bits)"
    and bit: "\<And>i. i < 8 * (k + 1) \<Longrightarrow> tb_bit tb i = (i < length bits \<and> bits ! i)"
    using ok unfolding bits_ok_def up by auto
  have "appendBit (of_bool b) tb = Inr tb'"
    using n buf by (cases b) (simp_all add: appendBit_def Let_def u tb'_def flip: k_def)
  moreover have "bits_ok tb' (bits @ [b])"
    unfolding bits_ok_def
  proof (intro conjI allI impI)
    fix i assume "i < 8 * max 1 ((length (bits @ [b]) + 7) div 8)"
    then have i: "i < 8 * (k + 1)" using up by (simp add: add.commute)
    show "tb_bit tb' i = (i < length (bits @ [b]) \<and> (bits @ [b]) ! i)"
    proof (cases "i div 8 = k")
      case True
      then have "i = 8 * k + i mod 8" by auto
      then have "i = length bits \<longleftrightarrow> i mod 8 = length bits mod 8" using len by (metis add_left_cancel)
      moreover have "bit (push_bit (length bits mod 8) (of_bool b) :: u8) (i mod 8)
          \<longleftrightarrow> b \<and> i mod 8 = length bits mod 8"
        by (simp add: bit_push_bit_iff bit_of_bool_u8) linarith
      ultimately have "tb_bit tb' i = (tb_bit tb i \<or> b \<and> i = length bits)"
        using True k buf(1) by (simp add: tb_bit_def tb'_def bit_or_iff)
      then show ?thesis using bit [OF i] by (auto simp: nth_append)
    next
      case False
      then have "i < 8 * k" using i by (auto simp: less_Suc_eq_le)
      then show ?thesis using False bit [OF i] k buf len
        by (simp add: tb_bit_def tb'_def nth_append)
    qed
  next
    show "tb_isAllZeros tb' = (\<not> list_ex id (bits @ [b]))" by (simp add: tb'_def az)
    show "length (bits @ [b]) \<le> 1008" using le n by (cases "length bits = 1008") simp_all
  qed (use buf k n up in \<open>simp_all add: tb'_def add.commute\<close>)
  ultimately show ?thesis by (auto simp: tb'_def)
qed

lemma appendBit_ok:
  assumes "bits_ok tb bits" "length bits < 1008"
  shows "\<exists>tb'. appendBit (of_bool b) tb = Inr tb' \<and> bits_ok tb' (bits @ [b]) \<and> tb_version tb' = tb_version tb"
  using bits_ok_byte_start [OF assms(1)] bits_ok_in_byte [OF assms(1)] assms(2) by blast

lemma appendBit_full:
  assumes "bits_ok tb bits" "length bits = 1008"
  shows "appendBit b tb = Inl KeyTooLong"
  using assms by (simp add: bits_ok_def appendBit_def Let_def setSizeByte_def kMaxBytesNeeded_def)

section \<open>Reading the stored form\<close>

text \<open>The next bits a reader will return.\<close>

definition tr_reads :: "tb_reader \<Rightarrow> bool list \<Rightarrow> bool" where
  "tr_reads rd bits \<longleftrightarrow>
     (if tb_isAllZeros (tr_typeBits rd) then \<not> list_ex id bits
      else tr_curBit rd + length bits \<le> 8 * unat (getSizeByte (tr_typeBits rd)) \<and>
           (\<forall>j < length bits. tb_bit (tr_typeBits rd) (tr_curBit rd + j) = bits ! j))"

lemma and_push_bit_1: "(w AND push_bit j 1 \<noteq> 0) = bit (w :: 'a::len word) j"
  by (simp add: and_exp_eq_0_iff_not_bit)

lemma getSizeByte_le: "unat (getSizeByte tb) \<le> 127"
  using word_and_le1 [of "tb_buf tb ! 0" "0x7F"] by (simp add: getSizeByte_def word_le_nat_alt)

lemma size_byte:
  assumes "w < (0x80 :: u8)"
  shows "(0x80 OR w) AND 0x7F = w" "(0x80 OR w) AND 0x80 \<noteq> 0"
proof -
  have "unat w < 2 ^ 7" using assms by (simp add: word_less_nat_alt)
  then have "take_bit 7 w = w"
    by (simp add: word_unat_eq_iff unsigned_take_bit_eq take_bit_nat_eq_self_iff)
  then have "take_bit 7 (0x80 OR w) = w" by simp
  then show "(0x80 OR w) AND 0x7F = w" by (simp add: take_bit_eq_mask mask_eq_exp_minus_1)
  have "bit (0x80 OR w) 7" by (simp add: bit_or_iff)
  then show "(0x80 OR w) AND 0x80 \<noteq> 0" using and_push_bit_1 [of "0x80 OR w" 7] by simp
qed

lemma readBit_reads:
  assumes "tr_reads rd (b # bits)"
  shows "\<exists>rd'. readBit rd = Inr (of_bool b, rd') \<and> tr_reads rd' bits \<and>
    tr_typeBits rd' = tr_typeBits rd"
proof (cases "tb_isAllZeros (tr_typeBits rd)")
  case False
  let ?n = "tr_curBit rd" and ?tb = "tr_typeBits rd"
  have n: "?n + Suc (length bits) \<le> 8 * unat (getSizeByte ?tb)"
    and bit: "\<And>j. j < Suc (length bits) \<Longrightarrow> tb_bit ?tb (?n + j) = (b # bits) ! j"
    using assms False by (auto simp: tr_reads_def)
  have "?n div 8 \<le> 126" using n getSizeByte_le [of ?tb] by linarith
  then have u: "unat (of_nat (?n div 8) + 1 :: u8) = ?n div 8 + 1" by (rule unat_byte_index)
  moreover have "?n div 8 + 1 \<le> unat (getSizeByte ?tb)" using n by linarith
  ultimately have "readBit rd = Inr (of_bool (tb_bit ?tb ?n), rd\<lparr>tr_curBit := ?n + 1\<rparr>)"
    using False by (simp add: readBit_def Let_def word_le_nat_alt and_exp_eq_0_iff_not_bit tb_bit_def)
  moreover have "tr_reads (rd\<lparr>tr_curBit := ?n + 1\<rparr>) bits"
    using n bit [of "Suc _"] False by (simp add: tr_reads_def)
  ultimately show ?thesis using bit [of 0] by simp
qed (use assms in \<open>simp add: tr_reads_def readBit_def\<close>)

lemma list_two:
  assumes "length xs = 128"
  obtains c d ds where "xs = c # d # ds" "length ds = 126"
proof (cases xs)
  case (Cons c ys)
  with assms show ?thesis using that by (cases ys) simp_all
qed (use assms in simp)

lemma take_1_update: "xs \<noteq> [] \<Longrightarrow> take (Suc 0) (xs[0 := x]) = [x]"
  by (cases xs) simp_all

lemma fromBuffer_stored:
  assumes ok: "bits_ok tb bits"
  shows "\<exists>tb2. fromBuffer v (tb_getBuffer tb @ rest) = Inr (tb2, rest) \<and>
    tr_reads (mkReader tb2) bits \<and> tb_version tb2 = v"
proof -
  define n where "n = (length bits + 7) div 8"
  have len: "length (tb_buf tb) = 128" and le: "length bits \<le> 1008" "n \<le> 126"
    and az: "tb_isAllZeros tb = (\<not> list_ex id bits)"
    and b0: "tb_buf tb ! 0 = 0x80 OR of_nat n"
    and bit: "\<And>i. i < 8 * max 1 n \<Longrightarrow> tb_bit tb i = (i < length bits \<and> bits ! i)"
    using ok by (auto simp: bits_ok_def n_def)
  obtain c d ds where buf: "tb_buf tb = c # d # ds" "length ds = 126"
    by (rule list_two [OF len])
  show ?thesis
  proof (cases "list_ex id bits")
    case False
    have "d = 0"
    proof (rule bit_word_eqI)
      fix i assume "i < LENGTH(8)"
      then have "tb_bit tb i = (i < length bits \<and> bits ! i)" "\<not> (i < length bits \<and> bits ! i)"
        using bit [of i] False by (simp_all add: list_ex_length)
      then show "bit d i = bit 0 i" using \<open>i < LENGTH(8)\<close> buf by (simp add: tb_bit_def)
    qed
    then show ?thesis
      using az False buf by (simp add: tb_getBuffer_def tb_getSize_def fromBuffer_def resetFromBuffer_def
          tr_reads_def mkReader_def mkTypeBits_def tb_reset_def)
  next
    case True
    then have "0 < length bits" by (cases bits) simp_all
    then have "0 < n" unfolding n_def by linarith
    have un: "unat (of_nat n :: u8) = n" using le(2) by (simp add: unsigned_of_nat take_bit_nat_eq_self)
    then have "(of_nat n :: u8) < 0x80" using le(2) by (simp add: word_less_nat_alt)
    note c = size_byte [OF this]
    have c_def: "c = 0x80 OR of_nat n" using b0 buf by simp
    have sz: "getSizeByte tb = of_nat n" "unat (of_nat n :: u8) = n"
      using c c_def un buf by (simp_all add: getSizeByte_def)
    show ?thesis
    proof (cases "n = 1 \<and> d AND 0x80 = 0")
      case one: True
      obtain i where i: "i < length bits" "bits ! i" using True by (auto simp: list_ex_length)
      have le8: "length bits \<le> 8" using one unfolding n_def by linarith
      then have "i < 8" using i by simp
      then have "bit d i" using bit [of i] i one buf by (simp add: tb_bit_def)
      then have "d \<noteq> 0" by auto
      moreover have "tb_getBuffer tb = [d]"
        using one az True sz buf by (simp add: tb_getBuffer_def tb_getSize_def)
      ultimately have "fromBuffer v (tb_getBuffer tb @ rest) =
          Inr ((mkTypeBits v)\<lparr>tb_isAllZeros := False, tb_buf := (tb_buf (mkTypeBits v))[0 := 0x81, 1 := d]\<rparr>, rest)"
        using one by (simp add: fromBuffer_def resetFromBuffer_def setSizeByte_def kMaxBytesNeeded_def)
      then show ?thesis
        using bit one buf le8
        by (auto simp: tr_reads_def mkReader_def getSizeByte_def mkTypeBits_def tb_reset_def tb_bit_def)
    next
      case more: False
      have "tb_getSize tb = n + 1"
        using more az True sz buf by (auto simp: tb_getSize_def Let_def)
      then have "tb_getBuffer tb = c # take n (d # ds)"
        using \<open>0 < n\<close> buf by (simp add: tb_getBuffer_def)
      then have "fromBuffer v (tb_getBuffer tb @ rest) =
          Inr ((mkTypeBits v)\<lparr>tb_isAllZeros := False,
            tb_buf := c # take n (d # ds) @ drop (n + 1) (tb_buf (mkTypeBits v))\<rparr>, rest)"
        using c c_def sz(2) le(2) buf(2)
        by (simp add: fromBuffer_def resetFromBuffer_def getSizeByte_def mkTypeBits_def tb_reset_def
            take_1_update)
      moreover have "tb_bit tb j = bits ! j" if "j < length bits" for j
        using bit [of j] that unfolding n_def by linarith
      ultimately show ?thesis
        using c c_def sz(2) le(2) buf
        by (auto simp: tr_reads_def mkReader_def getSizeByte_def mkTypeBits_def tb_reset_def
            tb_bit_def nth_append n_def)
    qed
  qed
qed

section \<open>Sequences of bits\<close>

primrec appendAll :: "bool list \<Rightarrow> type_bits \<Rightarrow> type_bits result" where
  "appendAll [] tb = Inr tb"
| "appendAll (b # bs) tb = rbind (appendBit (of_bool b) tb) (appendAll bs)"

primrec readAll :: "nat \<Rightarrow> tb_reader \<Rightarrow> bool list result" where
  "readAll 0 rd = Inr []"
| "readAll (Suc n) rd = rbind (readBit rd) (\<lambda>(b, rd'). rbind (readAll n rd') (\<lambda>bs. Inr ((b = 1) # bs)))"

lemma appendAll_ok:
  "bits_ok tb bits \<Longrightarrow> length bits + length bs \<le> 1008 \<Longrightarrow>
     \<exists>tb'. appendAll bs tb = Inr tb' \<and> bits_ok tb' (bits @ bs)"
proof (induction bs arbitrary: tb bits)
  case (Cons b bs)
  obtain tb1 where "appendBit (of_bool b) tb = Inr tb1" "bits_ok tb1 (bits @ [b])"
    using appendBit_ok [OF Cons.prems(1), of b] Cons.prems(2) by auto
  then show ?case using Cons.IH [of tb1 "bits @ [b]"] Cons.prems(2) by simp
qed simp

lemma appendAll_full:
  "bits_ok tb bits \<Longrightarrow> 1008 < length bits + length bs \<Longrightarrow> appendAll bs tb = Inl KeyTooLong"
proof (induction bs arbitrary: tb bits)
  case Nil
  then show ?case by (simp add: bits_ok_def)
next
  case (Cons b bs)
  show ?case
  proof (cases "length bits = 1008")
    case False
    then have "length bits < 1008" using Cons.prems(1) by (auto simp: bits_ok_def)
    then obtain tb1 where "appendBit (of_bool b) tb = Inr tb1" "bits_ok tb1 (bits @ [b])"
      using appendBit_ok [OF Cons.prems(1), of b] by auto
    then show ?thesis using Cons.IH [of tb1 "bits @ [b]"] Cons.prems(2) by simp
  qed (simp add: appendBit_full [OF Cons.prems(1)])
qed

lemma readAll_reads: "tr_reads rd bits \<Longrightarrow> readAll (length bits) rd = Inr bits"
proof (induction bits arbitrary: rd)
  case (Cons b bits)
  then obtain rd' where "readBit rd = Inr (of_bool b, rd')" "tr_reads rd' bits"
    using readBit_reads [OF Cons.prems] by blast
  then show ?case using Cons.IH [of rd'] by (cases b) simp_all
qed simp

text \<open>
  C28: Type bits survive their storage: a sequence of at most 1008 bits can be appended, and
  parsing the stored form (whichever of its three shapes was chosen) consumes exactly the stored
  bytes and reads the same bits back; one bit more is refused as a key that is too long.
\<close>

theorem type_bits_roundtrip:
  "if length bits \<le> 1008
   then \<exists>tb tb2. appendAll bits (mkTypeBits v) = Inr tb \<and>
          fromBuffer v (tb_getBuffer tb @ rest) = Inr (tb2, rest) \<and>
          readAll (length bits) (mkReader tb2) = Inr bits
   else appendAll bits (mkTypeBits v) = Inl KeyTooLong"
proof (cases "length bits \<le> 1008")
  case True
  then obtain tb where tb: "appendAll bits (mkTypeBits v) = Inr tb" "bits_ok tb bits"
    using appendAll_ok [OF bits_ok_new, of bits v] by auto
  then obtain tb2 where "fromBuffer v (tb_getBuffer tb @ rest) = Inr (tb2, rest)"
      "tr_reads (mkReader tb2) bits"
    using fromBuffer_stored by blast
  then show ?thesis using True tb readAll_reads by auto
next
  case False
  then show ?thesis using appendAll_full [OF bits_ok_new, of bits v] by simp
qed

end
