(* ===== verification/Key_String.thy ===== *)
theory Key_String
  imports Decimal128_Model Type_Bits
begin

text \<open>
  \<open>KeyString\<close> (\<open>mongo/db/storage/key_string.cpp\<close>): the append code that turns the values of an
  index key into bytes whose lexicographic order is the order of the values, and records in the
  type bits what the bytes do not say. The state is the record of the class's fields; an append is
  a function from it to the new one, which fails on a failed \<open>invariant\<close> or \<open>uassert\<close>. A value of a
  descending field is appended with every byte flipped. Assertions of debug builds (\<open>dassert\<close>) are
  not part of the model.
\<close>

record key_string =
  ks_version :: ks_version
  ks_typeBits :: type_bits
  ks_buffer :: bytes

datatype discriminator = kInclusive | kExclusiveBefore | kExclusiveAfter

datatype dcm =
    kDCMEqualToDouble
  | kDCMHasContinuationLessThanDoubleRoundedUpTo15Digits
  | kDCMEqualToDoubleRoundedUpTo15Digits
  | kDCMHasContinuationLargerThanDoubleRoundedUpTo15Digits

primrec dcm_bits :: "dcm \<Rightarrow> u64" where
  "dcm_bits kDCMEqualToDouble = 0"
| "dcm_bits kDCMHasContinuationLessThanDoubleRoundedUpTo15Digits = 1"
| "dcm_bits kDCMEqualToDoubleRoundedUpTo15Digits = 2"
| "dcm_bits kDCMHasContinuationLargerThanDoubleRoundedUpTo15Digits = 3"

section \<open>Type bytes\<close>

definition kMinKey :: u8 where "kMinKey = 10"
definition kUndefined :: u8 where "kUndefined = 15"
definition kNullish :: u8 where "kNullish = 20"
definition kNumeric :: u8 where "kNumeric = 30"
definition kStringLike :: u8 where "kStringLike = 60"
definition kObject :: u8 where "kObject = 70"
definition kArray :: u8 where "kArray = 80"
definition kBinData :: u8 where "kBinData = 90"
definition kOID :: u8 where "kOID = 100"
definition kBool :: u8 where "kBool = 110"
definition kDate :: u8 where "kDate = 120"
definition kTimestamp :: u8 where "kTimestamp = 130"
definition kRegEx :: u8 where "kRegEx = 140"
definition kDBRef :: u8 where "kDBRef = 150"
definition kCode :: u8 where "kCode = 160"
definition kCodeWithScope :: u8 where "kCodeWithScope = 170"
definition kMaxKey :: u8 where "kMaxKey = 240"
definition kNumericNaN :: u8 where "kNumericNaN = 30"
definition kNumericNegativeLargeMagnitude :: u8 where "kNumericNegativeLargeMagnitude = 31"
definition kNumericNegative8ByteInt :: u8 where "kNumericNegative8ByteInt = 32"
definition kNumericNegative1ByteInt :: u8 where "kNumericNegative1ByteInt = 39"
definition kNumericNegativeSmallMagnitude :: u8 where "kNumericNegativeSmallMagnitude = 40"
definition kNumericZero :: u8 where "kNumericZero = 41"
definition kNumericPositiveSmallMagnitude :: u8 where "kNumericPositiveSmallMagnitude = 42"
definition kNumericPositive1ByteInt :: u8 where "kNumericPositive1ByteInt = 43"
definition kNumericPositive8ByteInt :: u8 where "kNumericPositive8ByteInt = 50"
definition kNumericPositiveLargeMagnitude :: u8 where "kNumericPositiveLargeMagnitude = 51"
definition kBoolFalse :: u8 where "kBoolFalse = 110"
definition kBoolTrue :: u8 where "kBoolTrue = 111"
definition kEnd :: u8 where "kEnd = 4"
definition kLess :: u8 where "kLess = 1"
definition kGreater :: u8 where "kGreater = 254"

lemmas ctype_defs = kMinKey_def kUndefined_def kNullish_def kNumeric_def kStringLike_def
  kObject_def kArray_def kBinData_def kOID_def kBool_def kDate_def kTimestamp_def kRegEx_def
  kDBRef_def kCode_def kCodeWithScope_def kMaxKey_def kNumericNaN_def
  kNumericNegativeLargeMagnitude_def kNumericNegative8ByteInt_def kNumericNegative1ByteInt_def
  kNumericNegativeSmallMagnitude_def kNumericZero_def kNumericPositiveSmallMagnitude_def
  kNumericPositive1ByteInt_def kNumericPositive8ByteInt_def kNumericPositiveLargeMagnitude_def
  kBoolFalse_def kBoolTrue_def kEnd_def kLess_def kGreater_def

fun bsonTypeToGenericKeyStringType :: "bson \<Rightarrow> u8" where
  "bsonTypeToGenericKeyStringType BMinKey = kMinKey"
| "bsonTypeToGenericKeyStringType BNull = kNullish"
| "bsonTypeToGenericKeyStringType BUndefined = kUndefined"
| "bsonTypeToGenericKeyStringType (BDecimal d) = kNumeric"
| "bsonTypeToGenericKeyStringType (BDouble d) = kNumeric"
| "bsonTypeToGenericKeyStringType (BInt i) = kNumeric"
| "bsonTypeToGenericKeyStringType (BLong l) = kNumeric"
| "bsonTypeToGenericKeyStringType (BString s) = kStringLike"
| "bsonTypeToGenericKeyStringType (BSymbol s) = kStringLike"
| "bsonTypeToGenericKeyStringType (BObject fs) = kObject"
| "bsonTypeToGenericKeyStringType (BArray fs) = kArray"
| "bsonTypeToGenericKeyStringType (BBinData t bs) = kBinData"
| "bsonTypeToGenericKeyStringType (BOid bs) = kOID"
| "bsonTypeToGenericKeyStringType (BBool b) = kBool"
| "bsonTypeToGenericKeyStringType (BDate d) = kDate"
| "bsonTypeToGenericKeyStringType (BTimestamp t) = kTimestamp"
| "bsonTypeToGenericKeyStringType (BRegEx p f) = kRegEx"
| "bsonTypeToGenericKeyStringType (BDBRef ns oid) = kDBRef"
| "bsonTypeToGenericKeyStringType (BCode s) = kCode"
| "bsonTypeToGenericKeyStringType (BCodeWScope c fs) = kCodeWithScope"
| "bsonTypeToGenericKeyStringType BMaxKey = kMaxKey"

definition dbl_one :: u64 where "dbl_one = 0x3FF0000000000000"
definition kTiniestDoubleWith2BitDCM :: u64 where "kTiniestDoubleWith2BitDCM = 0x3000000000000000"
definition kTinyDoubleExponentShift :: int where "kTinyDoubleExponentShift = 256"
definition kTinyDoubleExponentUpshiftFactor :: u64 where "kTinyDoubleExponentUpshiftFactor = 0x4FF0000000000000"
definition kTinyDoubleExponentDownshiftFactor :: u64 where "kTinyDoubleExponentDownshiftFactor = 0x2FF0000000000000"
definition kMinLargeDouble :: u64 where "kMinLargeDouble = 0x43E0000000000000"
definition kMaxIntForDouble :: u64 where "kMaxIntForDouble = 0x4340000000000000"
definition dbl_min :: u64 where "dbl_min = 0x0010000000000000"
definition dbl_max :: u64 where "dbl_max = 0x7FEFFFFFFFFFFFFF"

section \<open>The lowest level\<close>

definition memcpy_flipBits :: "bytes \<Rightarrow> bytes" where
  "memcpy_flipBits bs = map (\<lambda>b. NOT b) bs"

definition ks_appendBytes :: "bytes \<Rightarrow> bool \<Rightarrow> key_string \<Rightarrow> key_string" where
  "ks_appendBytes source invert ks =
     ks\<lparr>ks_buffer := ks_buffer ks @ (if invert then memcpy_flipBits source else source)\<rparr>"

definition ks_append8 :: "u8 \<Rightarrow> bool \<Rightarrow> key_string \<Rightarrow> key_string" where
  "ks_append8 thing invert ks = ks_appendBytes [thing] invert ks"

text \<open>\<open>_append(endian::nativeToBig(thing), invert)\<close>.\<close>

definition ks_appendBig :: "'a::len word \<Rightarrow> bool \<Rightarrow> key_string \<Rightarrow> key_string" where
  "ks_appendBig thing invert ks = ks_appendBytes (be_bytes thing) invert ks"

definition ks_withBits :: "(type_bits \<Rightarrow> type_bits result) \<Rightarrow> key_string \<Rightarrow> key_string result" where
  "ks_withBits f ks = rbind (f (ks_typeBits ks)) (\<lambda>tb. Inr (ks\<lparr>ks_typeBits := tb\<rparr>))"

definition appendPreshiftedIntegerPortion :: "u64 \<Rightarrow> bool \<Rightarrow> bool \<Rightarrow> key_string \<Rightarrow> key_string" where
  "appendPreshiftedIntegerPortion value isNegative invert ks =
     (let bytesNeeded = (64 - countLeadingZeros64 value + 7) div 8;
          used = be_bytes_n bytesNeeded value
      in if isNegative
         then ks_appendBytes used (\<not> invert)
                (ks_append8 (kNumericNegative1ByteInt - of_nat (bytesNeeded - 1)) invert ks)
         else ks_appendBytes used invert
                (ks_append8 (kNumericPositive1ByteInt + of_nat (bytesNeeded - 1)) invert ks))"

text \<open>A string with each NUL written as \<open>00 FF\<close>, then a NUL.\<close>

function appendStringLike :: "bytes \<Rightarrow> bool \<Rightarrow> key_string \<Rightarrow> key_string" where
  "appendStringLike str invert ks =
     (let firstNul = length (takeWhile (\<lambda>b. b \<noteq> 0) str);
          ks1 = ks_appendBytes (take firstNul str) invert ks
      in if firstNul = length str then ks_append8 0 invert ks1
         else appendStringLike (drop (firstNul + 1) str) invert (ks_appendBytes [0, 0xFF] invert ks1))"
  by pat_completeness auto
termination
proof (relation "measure (\<lambda>(str, invert, ks). length str)")
  fix str :: bytes and n assume "n = length (takeWhile (\<lambda>b. b \<noteq> 0) str)" "n \<noteq> length str"
  then have "n < length str" using length_takeWhile_le [of "\<lambda>b. b \<noteq> 0" str] by simp
  then show "((drop (n + 1) str, a, b), (str, c, d)) \<in> measure (\<lambda>(str, invert, ks). length str)"
    for a b c d by simp
qed simp

declare appendStringLike.simps [simp del]

section \<open>Numbers\<close>

definition appendSmallDouble :: "u64 \<Rightarrow> dcm \<Rightarrow> bool \<Rightarrow> key_string \<Rightarrow> key_string result" where
  "appendSmallDouble value d invert ks =
     (let isNegative = dbl_less value 0;
          magnitude = (if isNegative then dbl_neg value else value);
          ks1 = ks_append8 (if isNegative then kNumericNegativeSmallMagnitude
                            else kNumericPositiveSmallMagnitude) invert ks;
          inv = (if isNegative then \<not> invert else invert)
      in if ks_version ks = V0 then Inr (ks_appendBig value inv ks1)
         else if dbl_le kTiniestDoubleWith2BitDCM magnitude
         then Inr (ks_appendBig (push_bit 2 magnitude OR dcm_bits d) inv ks1)
         else if d = kDCMEqualToDoubleRoundedUpTo15Digits then Inl InvariantFailure
         else let scaled = dbl_ldexp magnitude kTinyDoubleExponentShift;
                  encoded = (push_bit 1 scaled OR of_bool (d \<noteq> kDCMEqualToDouble)) + push_bit 62 1
              in Inr (ks_appendBig encoded inv ks1))"

definition appendLargeDouble :: "u64 \<Rightarrow> dcm \<Rightarrow> bool \<Rightarrow> key_string \<Rightarrow> key_string result" where
  "appendLargeDouble value d invert ks =
     (if d = kDCMEqualToDoubleRoundedUpTo15Digits then Inl InvariantFailure
      else let positive = dbl_less 0 value;
               encoded = (if ks_version ks = V0 then value
                          else if isfinite value
                          then (push_bit 1 value AND NOT (push_bit 63 1)) OR of_bool (d \<noteq> kDCMEqualToDouble)
                          else NOT 0)
           in Inr (ks_appendBig encoded (if positive then invert else \<not> invert)
                (ks_append8 (if positive then kNumericPositiveLargeMagnitude
                             else kNumericNegativeLargeMagnitude) invert ks)))"

definition appendInteger :: "u64 \<Rightarrow> bool \<Rightarrow> key_string \<Rightarrow> key_string result" where
  "appendInteger num invert ks =
     (if num = push_bit 63 1 then appendLargeDouble 0xC3E0000000000000 kDCMEqualToDouble invert ks
      else if num = 0 then Inr (ks_append8 kNumericZero invert ks)
      else let isNegative = (num <s 0); magnitude = (if isNegative then - num else num)
           in Inr (appendPreshiftedIntegerPortion (push_bit 1 magnitude) isNegative invert ks))"

text \<open>The V0 encoding of a number with a fraction: the mantissa bytes that hold fractional bits.\<close>

definition appendFractionV0 :: "u64 \<Rightarrow> u64 \<Rightarrow> bool \<Rightarrow> bool \<Rightarrow> key_string \<Rightarrow> key_string" where
  "appendFractionV0 num integerPart isNegative invert ks =
     (let fractionalBits = 53 - (64 - countLeadingZeros64 integerPart);
          fractionalBytes = (fractionalBits + 7) div 8;
          mantissa = num AND NOT (push_bit fractionalBits (-1))
      in ks_appendBytes (be_bytes_n fractionalBytes mantissa) (if isNegative then \<not> invert else invert)
           (appendPreshiftedIntegerPortion (push_bit 1 integerPart OR 1) isNegative invert ks))"

definition appendFractionV1 :: "u64 \<Rightarrow> u64 \<Rightarrow> dcm \<Rightarrow> bool \<Rightarrow> bool \<Rightarrow> key_string \<Rightarrow> key_string result" where
  "appendFractionV1 magnitude integerPart d isNegative invert ks =
     (let fractionalBytes = countLeadingZeros64 (push_bit 1 integerPart) div 8;
          ctype = (if isNegative then kNumericNegative8ByteInt + of_nat fractionalBytes
                   else kNumericPositive8ByteInt - of_nat fractionalBytes);
          ks1 = ks_append8 ctype invert ks;
          encoding = dbl_to_u64 (dbl_ldexp magnitude (8 * int fractionalBytes))
                     + push_bit (fractionalBytes * 8) (integerPart + 1)
      in if encoding AND 3 \<noteq> 0 then Inl InvariantFailure
         else Inr (ks_appendBig (encoding OR dcm_bits d) (if isNegative then \<not> invert else invert) ks1))"

definition appendDoubleWithoutTypeBits :: "u64 \<Rightarrow> dcm \<Rightarrow> bool \<Rightarrow> key_string \<Rightarrow> key_string result" where
  "appendDoubleWithoutTypeBits num d invert ks =
     (let isNegative = dbl_less num 0;
          magnitude = (if isNegative then dbl_neg num else num)
      in if \<not> dbl_le dbl_one magnitude then
           (if dbl_less 0 magnitude then appendSmallDouble num d invert ks
            else if dbl_eq num 0 then Inr (ks_append8 kNumericZero invert ks)
            else if isnan num then Inr (ks_append8 kNumericNaN invert ks)
            else Inl InvariantFailure)
         else if dbl_less magnitude kMinLargeDouble then
           (let integerPart = dbl_to_u64 magnitude in
            if dbl_eq (u64_to_dbl integerPart) magnitude \<and> d = kDCMEqualToDouble
            then Inr (appendPreshiftedIntegerPortion (push_bit 1 integerPart) isNegative invert ks)
            else if ks_version ks = V0 then
              (if d = kDCMEqualToDouble then Inr (appendFractionV0 num integerPart isNegative invert ks)
               else Inl InvariantFailure)
            else appendFractionV1 magnitude integerPart d isNegative invert ks)
         else appendLargeDouble num d invert ks)"

definition appendNumberDouble :: "u64 \<Rightarrow> bool \<Rightarrow> key_string \<Rightarrow> key_string result" where
  "appendNumberDouble num invert ks =
     rbind (if dbl_eq num 0 \<and> signbit num then ks_withBits (tb_appendZero kNegativeDoubleZero) ks
            else ks_withBits tb_appendNumberDouble ks)
       (appendDoubleWithoutTypeBits num kDCMEqualToDouble invert)"

definition appendNumberLong :: "u64 \<Rightarrow> bool \<Rightarrow> key_string \<Rightarrow> key_string result" where
  "appendNumberLong num invert ks = rbind (ks_withBits tb_appendNumberLong ks) (appendInteger num invert)"

definition appendNumberInt :: "u32 \<Rightarrow> bool \<Rightarrow> key_string \<Rightarrow> key_string result" where
  "appendNumberInt num invert ks = rbind (ks_withBits tb_appendNumberInt ks) (appendInteger (scast num) invert)"

section \<open>Decimals\<close>

definition appendTinyDecimalWithoutTypeBits ::
  "decimal_lib \<Rightarrow> dec128 \<Rightarrow> u64 \<Rightarrow> bool \<Rightarrow> key_string \<Rightarrow> key_string result" where
  "appendTinyDecimalWithoutTypeBits D dec bin invert ks =
     (let isNegative = bid128_isSigned D dec;
          inv = (if isNegative then \<not> invert else invert);
          magnitude = (if isNegative then dec_negate dec else dec);
          ks1 = ks_append8 (if isNegative then kNumericNegativeSmallMagnitude
                            else kNumericPositiveSmallMagnitude) invert ks
      in if dbl_eq bin 0 then
           (let normalized = dec_normalize D magnitude; hi = high64 normalized; lo = low64 normalized
            in if hi AND push_bit 62 3 \<noteq> 0 then Inl InvariantFailure
               else Inr (ks_appendBig lo inv (ks_appendBig hi inv ks1)))
         else
           rbind (dec_fromDouble D kTinyDoubleExponentUpshiftFactor kRoundTo34Digits kRoundTowardZero) (\<lambda>up.
           rbind (dec_fromDouble D kTinyDoubleExponentDownshiftFactor kRoundTo34Digits kRoundTowardZero) (\<lambda>down.
             let scaledDec = fst (bid128_mul D magnitude up kRoundTowardZero);
                 scaled1 = fst (bid128_to_binary64 D scaledDec kRoundTowardZero);
                 scaled2 = dbl_ldexp (dbl_mag bin) kTinyDoubleExponentShift;
                 scaledBin = (if dbl_less scaled1 scaled2 then scaled2 else scaled1);
                 encoded = (push_bit 1 scaledBin OR 1) + push_bit 62 1
             in rbind (dec_fromDouble D scaledBin kRoundTo34Digits kRoundTowardZero) (\<lambda>stored.
                  let storedVal = dec_add D (fst (bid128_mul D stored down kRoundTowardZero)) kLargestNegativeExponentZero;
                      decDiff = fst (bid128_sub D magnitude storedVal kRoundTiesToEven)
                  in Inr (ks_appendBig (getCoefficientLow decDiff) inv (ks_appendBig encoded inv ks1))))))"

definition appendHugeDecimalWithoutTypeBits ::
  "decimal_lib \<Rightarrow> dec128 \<Rightarrow> bool \<Rightarrow> key_string \<Rightarrow> key_string" where
  "appendHugeDecimalWithoutTypeBits D dec invert ks =
     (let isNegative = bid128_isSigned D dec;
          inv = (if isNegative then \<not> invert else invert);
          normalizedMagnitude = dec_normalize D (if isNegative then dec_negate dec else dec);
          hi = high64 normalizedMagnitude OR push_bit 63 1
      in ks_appendBig (low64 normalizedMagnitude) inv (ks_appendBig hi inv
           (ks_append8 (if isNegative then kNumericNegativeLargeMagnitude
                        else kNumericPositiveLargeMagnitude) invert ks)))"

text \<open>The continuation: what the stored value leaves of the decimal.\<close>

definition appendDecimalContinuation ::
  "decimal_lib \<Rightarrow> dec128 \<Rightarrow> dec128 \<Rightarrow> bool \<Rightarrow> bool \<Rightarrow> key_string \<Rightarrow> key_string result" where
  "appendDecimalContinuation D dec stored isNegative invert ks =
     (if bid128_isNaN D stored then Inl InvariantFailure
      else let storedValue = dec_normalize D stored;
               decDiff = fst (bid128_sub D dec storedValue kRoundTiesToEven)
           in if \<not> (bid128_isSigned D decDiff = bid128_isSigned D dec \<or> bid128_isZero D decDiff)
                 \<or> getBiasedExponent decDiff \<noteq> getBiasedExponent storedValue
                 \<or> getCoefficientHigh decDiff \<noteq> 0
              then Inl InvariantFailure
              else Inr (ks_appendBig (getCoefficientLow decDiff) (if isNegative then \<not> invert else invert) ks))"

text \<open>
  A finite decimal that is not exactly a double and lies in the range of the normal doubles, by
  the size of its truncation \<open>bin\<close>.
\<close>

definition appendInexactDecimal ::
  "decimal_lib \<Rightarrow> dec128 \<Rightarrow> u64 \<Rightarrow> bool \<Rightarrow> bool \<Rightarrow> key_string \<Rightarrow> key_string result" where
  "appendInexactDecimal D dec bin isNegative invert ks =
     (let absBin = dbl_mag bin;
          away = (if isNegative then kRoundTowardNegative else kRoundTowardPositive);
          continue = (\<lambda>ks1. rbind (dec_fromDouble D bin kRoundTo34Digits away) (\<lambda>storedValue.
             appendDecimalContinuation D dec storedValue isNegative invert ks1))
      in if dbl_le kMinLargeDouble absBin then
           rbind (appendLargeDouble bin kDCMHasContinuationLargerThanDoubleRoundedUpTo15Digits invert ks) continue
         else if dbl_less absBin kTiniestDoubleWith2BitDCM then
           rbind (appendSmallDouble bin kDCMHasContinuationLargerThanDoubleRoundedUpTo15Digits invert ks) continue
         else if dbl_le kMaxIntForDouble absBin then
           (let q = bid128_quantize D dec kNormalizedZero kRoundTowardZero;
                truncated = fst q;
                integerPart = getCoefficientLow truncated;
                hasFraction = hasFlag (snd q) kInexact;
                neg = bid128_isSigned D truncated;
                ks1 = appendPreshiftedIntegerPortion (push_bit 1 integerPart OR of_bool hasFraction) neg invert ks;
                ks2 = (if push_bit 55 1 \<le>s integerPart then ks1
                       else ks_append8 3 (if neg then \<not> invert else invert) ks1)
            in if \<not> hasFraction then Inr ks1
               else appendDecimalContinuation D dec (dec_fromParts neg kExponentBias 0 integerPart) isNegative invert ks2)
         else if getCoefficientHigh dec = 0 \<and> getCoefficientLow dec < 1000000000000000 then
           appendDoubleWithoutTypeBits bin kDCMEqualToDoubleRoundedUpTo15Digits invert ks
         else
           rbind (dec_fromDouble D bin kRoundTo15Digits away) (\<lambda>decFromBin.
             if bid128_quiet_equal D decFromBin dec
             then appendDoubleWithoutTypeBits bin kDCMEqualToDoubleRoundedUpTo15Digits invert ks
             else rbind (appendDoubleWithoutTypeBits bin
                    (if bid128_quiet_less D dec decFromBin \<noteq> isNegative
                     then kDCMHasContinuationLessThanDoubleRoundedUpTo15Digits
                     else kDCMHasContinuationLargerThanDoubleRoundedUpTo15Digits) invert ks) continue))"

definition appendNumberDecimal :: "decimal_lib \<Rightarrow> dec128 \<Rightarrow> bool \<Rightarrow> key_string \<Rightarrow> key_string result" where
  "appendNumberDecimal D dec invert ks =
     (let isNegative = bid128_isSigned D dec in
      if bid128_isZero D dec then
        (let zeroExp = getBiasedExponent dec;
             zeroExp = (if isNegative then zeroExp + (kMaxBiasedExponent + 1) else zeroExp)
         in rbind (ks_withBits (tb_appendDecimalZero zeroExp) ks) (\<lambda>ks1. Inr (ks_append8 kNumericZero invert ks1)))
      else if bid128_isNaN D dec then ks_withBits tb_appendNumberDecimal (ks_append8 kNumericNaN invert ks)
      else if bid128_isInf D dec then
        ks_withBits tb_appendNumberDecimal
          (ks_appendBig (NOT 0 :: u64) (if isNegative then \<not> invert else invert)
            (ks_append8 (if isNegative then kNumericNegativeLargeMagnitude
                         else kNumericPositiveLargeMagnitude) invert ks))
      else
        rbind (ks_withBits tb_appendNumberDecimal ks) (\<lambda>ks1.
        rbind (ks_withBits (tb_appendDecimalExponent (ucast (getBiasedExponent dec AND 63))) ks1) (\<lambda>ks2.
          let r = bid128_to_binary64 D dec kRoundTowardZero; bin = fst r; flags = snd r in
          if \<not> hasFlag flags kInexact \<and> \<not> hasFlag flags kOverflowFlag
          then appendDoubleWithoutTypeBits bin kDCMEqualToDouble invert ks2
          else if dbl_less (dbl_mag bin) dbl_min then appendTinyDecimalWithoutTypeBits D dec bin invert ks2
          else if dbl_le dbl_max (dbl_mag bin) then Inr (appendHugeDecimalWithoutTypeBits D dec invert ks2)
          else appendInexactDecimal D dec bin isNegative invert ks2)))"

section \<open>Values\<close>

definition appendBool :: "bool \<Rightarrow> bool \<Rightarrow> key_string \<Rightarrow> key_string" where
  "appendBool val invert = ks_append8 (if val then kBoolTrue else kBoolFalse) invert"

definition appendDate :: "u64 \<Rightarrow> bool \<Rightarrow> key_string \<Rightarrow> key_string" where
  "appendDate val invert ks = ks_appendBig (val XOR push_bit 63 1) invert (ks_append8 kDate invert ks)"

definition appendTimestamp :: "u64 \<Rightarrow> bool \<Rightarrow> key_string \<Rightarrow> key_string" where
  "appendTimestamp val invert ks = ks_appendBig val invert (ks_append8 kTimestamp invert ks)"

definition appendOID :: "bytes \<Rightarrow> bool \<Rightarrow> key_string \<Rightarrow> key_string" where
  "appendOID val invert ks = ks_appendBytes val invert (ks_append8 kOID invert ks)"

definition appendString :: "bytes \<Rightarrow> bool \<Rightarrow> key_string \<Rightarrow> key_string result" where
  "appendString val invert ks = rbind (ks_withBits tb_appendString ks) (\<lambda>ks1.
     Inr (appendStringLike val invert (ks_append8 kStringLike invert ks1)))"

definition appendSymbol :: "bytes \<Rightarrow> bool \<Rightarrow> key_string \<Rightarrow> key_string result" where
  "appendSymbol val invert ks = rbind (ks_withBits tb_appendSymbol ks) (\<lambda>ks1.
     Inr (appendStringLike val invert (ks_append8 kStringLike invert ks1)))"

definition appendCode :: "bytes \<Rightarrow> bool \<Rightarrow> key_string \<Rightarrow> key_string" where
  "appendCode val invert ks = appendStringLike val invert (ks_append8 kCode invert ks)"

definition appendBinData :: "u8 \<Rightarrow> bytes \<Rightarrow> bool \<Rightarrow> key_string \<Rightarrow> key_string" where
  "appendBinData subtype val invert ks =
     (let ks1 = ks_append8 kBinData invert ks;
          ks2 = (if length val < 0xFF then ks_append8 (of_nat (length val)) invert ks1
                 else ks_appendBig (of_nat (length val) :: u32) invert (ks_append8 0xFF invert ks1))
      in ks_appendBytes val invert (ks_append8 subtype invert ks2))"

definition appendRegex :: "bytes \<Rightarrow> bytes \<Rightarrow> bool \<Rightarrow> key_string \<Rightarrow> key_string" where
  "appendRegex pat flags invert ks =
     ks_append8 0 invert (ks_appendBytes flags invert (ks_append8 0 invert
       (ks_appendBytes pat invert (ks_append8 kRegEx invert ks))))"

definition appendDBRef :: "bytes \<Rightarrow> bytes \<Rightarrow> bool \<Rightarrow> key_string \<Rightarrow> key_string" where
  "appendDBRef ns oid invert ks =
     ks_appendBytes oid invert (ks_appendBytes ns invert
       (ks_appendBig (of_nat (length ns) :: u32) invert (ks_append8 kDBRef invert ks)))"

text \<open>The name, when one is given, goes before the value with its terminating NUL.\<close>

definition appendName :: "bytes option \<Rightarrow> bool \<Rightarrow> key_string \<Rightarrow> key_string" where
  "appendName name invert ks =
     (case name of None \<Rightarrow> ks | Some n \<Rightarrow> ks_appendBytes (n @ [0]) invert ks)"

fun appendBsonValue :: "decimal_lib \<Rightarrow> bson \<Rightarrow> bool \<Rightarrow> bytes option \<Rightarrow> key_string \<Rightarrow> key_string result"
and appendBson :: "decimal_lib \<Rightarrow> bson_obj \<Rightarrow> bool \<Rightarrow> key_string \<Rightarrow> key_string result"
and appendElements :: "decimal_lib \<Rightarrow> bson_obj \<Rightarrow> bool \<Rightarrow> key_string \<Rightarrow> key_string result"
where
  "appendBsonValue D BMinKey invert name ks = Inr (ks_append8 kMinKey invert (appendName name invert ks))"
| "appendBsonValue D BMaxKey invert name ks = Inr (ks_append8 kMaxKey invert (appendName name invert ks))"
| "appendBsonValue D BUndefined invert name ks = Inr (ks_append8 kUndefined invert (appendName name invert ks))"
| "appendBsonValue D BNull invert name ks = Inr (ks_append8 kNullish invert (appendName name invert ks))"
| "appendBsonValue D (BDouble d) invert name ks = appendNumberDouble d invert (appendName name invert ks)"
| "appendBsonValue D (BString s) invert name ks = appendString s invert (appendName name invert ks)"
| "appendBsonValue D (BObject fs) invert name ks =
     appendBson D fs invert (ks_append8 kObject invert (appendName name invert ks))"
| "appendBsonValue D (BArray fs) invert name ks =
     rbind (appendElements D fs invert (ks_append8 kArray invert (appendName name invert ks)))
       (\<lambda>ks1. Inr (ks_append8 0 invert ks1))"
| "appendBsonValue D (BBinData t bs) invert name ks = Inr (appendBinData t bs invert (appendName name invert ks))"
| "appendBsonValue D (BOid bs) invert name ks = Inr (appendOID bs invert (appendName name invert ks))"
| "appendBsonValue D (BBool b) invert name ks = Inr (appendBool b invert (appendName name invert ks))"
| "appendBsonValue D (BDate d) invert name ks = Inr (appendDate d invert (appendName name invert ks))"
| "appendBsonValue D (BRegEx p f) invert name ks = Inr (appendRegex p f invert (appendName name invert ks))"
| "appendBsonValue D (BDBRef ns oid) invert name ks = Inr (appendDBRef ns oid invert (appendName name invert ks))"
| "appendBsonValue D (BSymbol s) invert name ks = appendSymbol s invert (appendName name invert ks)"
| "appendBsonValue D (BCode s) invert name ks = Inr (appendCode s invert (appendName name invert ks))"
| "appendBsonValue D (BCodeWScope c fs) invert name ks =
     appendBson D fs invert (appendStringLike c invert (ks_append8 kCodeWithScope invert (appendName name invert ks)))"
| "appendBsonValue D (BInt i) invert name ks = appendNumberInt i invert (appendName name invert ks)"
| "appendBsonValue D (BTimestamp t) invert name ks = Inr (appendTimestamp t invert (appendName name invert ks))"
| "appendBsonValue D (BLong l) invert name ks = appendNumberLong l invert (appendName name invert ks)"
| "appendBsonValue D (BDecimal d) invert name ks =
     (if ks_version ks = V0 then Inl UnsupportedFormat
      else appendNumberDecimal D d invert (appendName name invert ks))"
| "appendBson D [] invert ks = Inr (ks_append8 0 invert ks)"
| "appendBson D ((n, v) # fs) invert ks =
     rbind (appendBsonValue D v invert (Some n) (ks_append8 (bsonTypeToGenericKeyStringType v) invert ks))
       (appendBson D fs invert)"
| "appendElements D [] invert ks = Inr ks"
| "appendElements D ((n, v) # fs) invert ks =
     rbind (appendBsonValue D v invert None ks) (appendElements D fs invert)"

section \<open>Whole keys\<close>

text \<open>\<open>Ordering\<close>: bit \<open>i\<close> says that field \<open>i\<close> is descending.\<close>

definition ord_descending :: "u32 \<Rightarrow> nat \<Rightarrow> bool" where
  "ord_descending ord i = (push_bit i 1 AND ord \<noteq> 0)"

text \<open>
  The fields in order. A field name, when not empty, is a query discriminator that replaces the one
  passed in, and only the last field may have one.
\<close>

fun appendFields ::
  "decimal_lib \<Rightarrow> bson_obj \<Rightarrow> u32 \<Rightarrow> nat \<Rightarrow> discriminator \<Rightarrow> key_string \<Rightarrow> (discriminator \<times> key_string) result" where
  "appendFields D [] ord i disc ks = Inr (disc, ks)"
| "appendFields D ((n, v) # fs) ord i disc ks =
     rbind (appendBsonValue D v (ord_descending ord i) None ks) (\<lambda>ks1.
       if n = [] then appendFields D fs ord (i + 1) disc ks1
       else rbind (rguard ((n ! 0 = of_char (CHR ''l'') \<or> n ! 0 = of_char (CHR ''g'')) \<and> fs = []) InvariantFailure) (\<lambda>_.
         appendFields D fs ord (i + 1)
           (if n ! 0 = of_char (CHR ''l'') then kExclusiveBefore else kExclusiveAfter) ks1))"

definition appendAllElementsForIndexing ::
  "decimal_lib \<Rightarrow> bson_obj \<Rightarrow> u32 \<Rightarrow> discriminator \<Rightarrow> key_string \<Rightarrow> key_string result" where
  "appendAllElementsForIndexing D obj ord disc ks =
     rbind (appendFields D obj ord 0 disc ks) (\<lambda>(disc', ks1).
       Inr (ks_append8 kEnd False (case disc' of
           kExclusiveBefore \<Rightarrow> ks_append8 kLess False ks1
         | kExclusiveAfter \<Rightarrow> ks_append8 kGreater False ks1
         | kInclusive \<Rightarrow> ks1)))"

definition resetToEmpty :: "key_string \<Rightarrow> key_string" where
  "resetToEmpty ks = ks\<lparr>ks_buffer := [], ks_typeBits := tb_reset (ks_typeBits ks)\<rparr>"

definition resetToKey ::
  "decimal_lib \<Rightarrow> bson_obj \<Rightarrow> u32 \<Rightarrow> discriminator \<Rightarrow> key_string \<Rightarrow> key_string result" where
  "resetToKey D obj ord disc ks = appendAllElementsForIndexing D obj ord disc (resetToEmpty ks)"

definition mkKeyString :: "ks_version \<Rightarrow> key_string" where
  "mkKeyString v = \<lparr>ks_version = v, ks_typeBits = mkTypeBits v, ks_buffer = []\<rparr>"

definition appendTypeBits :: "type_bits \<Rightarrow> key_string \<Rightarrow> key_string" where
  "appendTypeBits tb ks =
     (if tb_isAllZeros tb then ks_append8 0 False ks
      else ks_appendBytes (tb_getBuffer tb) False ks)"

text \<open>\<open>compare\<close>: by the common prefix, then by length.\<close>

definition ks_compare :: "key_string \<Rightarrow> key_string \<Rightarrow> int" where
  "ks_compare x y =
     (let a = length (ks_buffer x); b = length (ks_buffer y); m = min a b;
          cmp = sv_compare (take m (ks_buffer x)) (take m (ks_buffer y))
      in if cmp \<noteq> 0 then (if cmp < 0 then -1 else 1)
         else if a = b then 0 else if a < b then -1 else 1)"

end
