(* ===== verification/Key_Decoder.thy ===== *)
theory Key_Decoder
  imports Key_String
begin

text \<open>
  \<open>CdcKeyDecoder\<close> (\<open>base/cdc_key_decoder.cpp\<close>): decoding a key from its bytes alone, for a logged
  delete that has no type bits beside it. The reader of the source is the list of bytes left; a
  read past the end fails as \<open>BufReader\<close> does. The file's own copy of the type bytes of
  \<open>key_string.cpp\<close> has the same values, so \<open>Key_String\<close>'s are used. Nested objects and arrays make the
  value decoder recursive; that it always comes back is proved with its definition, by the bytes
  it has left.
\<close>

definition numBytesForInt :: "u8 \<Rightarrow> nat" where
  "numBytesForInt ctype =
     (if kNumericPositive1ByteInt \<le> ctype then unat (ctype - kNumericPositive1ByteInt) + 1
      else unat (kNumericNegative1ByteInt - ctype) + 1)"

section \<open>Readers\<close>

definition flip_if :: "bool \<Rightarrow> bytes \<Rightarrow> bytes" where
  "flip_if inverted bs = (if inverted then memcpy_flipBits bs else bs)"

text \<open>\<open>reader->skip(n)\<close>, flipped by \<open>memcpyFlipBits\<close> when the field is inverted.\<close>

definition skipBytes :: "nat \<Rightarrow> bool \<Rightarrow> bytes \<Rightarrow> (bytes \<times> bytes) result" where
  "skipBytes n inverted r = rbind (read_exact Overflow n r) (\<lambda>(bs, r'). Inr (flip_if inverted bs, r'))"

text \<open>\<open>endian::bigToNative(readType<T>(reader, inverted))\<close>.\<close>

definition readBig :: "bool \<Rightarrow> bytes \<Rightarrow> ('a::len word \<times> bytes) result" where
  "readBig inverted r = rbind (read_be Overflow r) (\<lambda>(t, r'). Inr (if inverted then NOT t else t, r'))"

definition readType8 :: "bool \<Rightarrow> bytes \<Rightarrow> (u8 \<times> bytes) result" where
  "readType8 inverted r = readBig inverted r"

definition canPeek :: "bytes \<Rightarrow> bool" where
  "canPeek r = (r \<noteq> [])"

text \<open>Up to, and past, the first byte equal to \<open>term\<close>.\<close>

definition readUntil :: "u8 \<Rightarrow> bytes \<Rightarrow> (bytes \<times> bytes) result" where
  "readUntil term r =
     (let s = takeWhile (\<lambda>b. b \<noteq> term) r in
      if length s = length r then Inl BadValue else Inr (s, drop (length s + 1) r))"

definition readCString :: "bytes \<Rightarrow> (bytes \<times> bytes) result" where
  "readCString r = readUntil 0 r"

definition readInvertedCString :: "bytes \<Rightarrow> (bytes \<times> bytes) result" where
  "readInvertedCString r = rbind (readUntil 0xFF r) (\<lambda>(s, r'). Inr (memcpy_flipBits s, r'))"

lemma readUntil_shrinks: "readUntil t r = Inr (s, r') \<Longrightarrow> length r' < length r"
  by (auto simp: readUntil_def Let_def split: if_splits dest: length_takeWhile_le [THEN le_neq_implies_less])

text \<open>
  The loops over the parts of a string with NULs: the parts that follow, each with the byte that
  stands for its NUL before it.
\<close>

function readMoreParts :: "bytes \<Rightarrow> (bytes \<times> bytes) result" where
  "readMoreParts r =
     (if canPeek r \<and> r ! 0 = 0xFF
      then rbind (readCString (drop 1 r)) (\<lambda>(part, r1).
             rbind (readMoreParts r1) (\<lambda>(rest, r2). Inr (0 # part @ rest, r2)))
      else Inr ([], r))"
  by pat_completeness auto
termination
  by (relation "measure length") (auto simp: readCString_def canPeek_def dest!: readUntil_shrinks)

definition readCStringWithNuls :: "bytes \<Rightarrow> (bytes \<times> bytes) result" where
  "readCStringWithNuls r = rbind (readCString r) (\<lambda>(initial, r1).
     if \<not> canPeek r1 \<or> r1 ! 0 \<noteq> 0xFF then Inr (initial, r1)
     else rbind (readMoreParts r1) (\<lambda>(rest, r2). Inr (initial @ rest, r2)))"

function readInvertedParts :: "bytes \<Rightarrow> (bytes \<times> bytes) result" where
  "readInvertedParts r = rbind (readUntil 0xFF r) (\<lambda>(part, r1).
     if canPeek r1 \<and> r1 ! 0 = 0
     then rbind (readInvertedParts (drop 1 r1)) (\<lambda>(rest, r2). Inr (part @ 0xFF # rest, r2))
     else Inr (part, r1))"
  by pat_completeness auto
termination
  by (relation "measure length") (auto dest!: readUntil_shrinks)

definition readInvertedCStringWithNuls :: "bytes \<Rightarrow> (bytes \<times> bytes) result" where
  "readInvertedCStringWithNuls r = rbind (readInvertedParts r) (\<lambda>(out, r'). Inr (memcpy_flipBits out, r'))"

declare readMoreParts.simps [simp del] readInvertedParts.simps [simp del]

text \<open>A field's string and a name or regex part, by the field's direction.\<close>

definition readStringField :: "bool \<Rightarrow> bytes \<Rightarrow> (bytes \<times> bytes) result" where
  "readStringField inverted r = (if inverted then readInvertedCStringWithNuls r else readCStringWithNuls r)"

definition readName :: "bool \<Rightarrow> bytes \<Rightarrow> (bytes \<times> bytes) result" where
  "readName inverted r = (if inverted then readInvertedCString r else readCString r)"

section \<open>Numbers\<close>

definition appendCanonicalInt :: "u64 \<Rightarrow> bson" where
  "appendCanonicalInt value =
     (if - (2 ^ 31) \<le> sint value \<and> sint value \<le> 2 ^ 31 - 1 then BInt (ucast value) else BLong value)"

definition readDecimalContinuation ::
  "decimal_lib \<Rightarrow> bytes \<Rightarrow> bool \<Rightarrow> dec128 \<Rightarrow> (dec128 \<times> bytes) result" where
  "readDecimalContinuation D r inverted num =
     rbind (readBig inverted r) (\<lambda>(continuation :: u64, r').
       let num1 = dec_normalize D num; neg = bid128_isSigned D num1; expo = ucast (getBiasedExponent num1)
       in rbind (rguard (dec_isValid neg expo 0 continuation) BadValue) (\<lambda>_.
            let s = bid128_add D num1 (dec_fromParts neg expo 0 continuation) kRoundTiesToEven
            in rbind (rguard (\<not> hasFlag (snd s) kInexact) BadValue) (\<lambda>_. Inr (fst s, r'))))"

definition negate_if :: "bool \<Rightarrow> dec128 \<Rightarrow> dec128" where
  "negate_if isNegative dec = (if isNegative then dec_negate dec else dec)"

definition dbl_neg_if :: "bool \<Rightarrow> u64 \<Rightarrow> u64" where
  "dbl_neg_if isNegative bin = (if isNegative then dbl_neg bin else bin)"

text \<open>\<open>kNumericNegativeLargeMagnitude\<close> and \<open>kNumericPositiveLargeMagnitude\<close>; \<open>inverted\<close> is the
  field's direction, which a negative value reverses.\<close>

definition decodeLarge :: "decimal_lib \<Rightarrow> bool \<Rightarrow> bytes \<Rightarrow> bool \<Rightarrow> (bson \<times> bytes) result" where
  "decodeLarge D isNegative r inverted =
     (let inv = (if isNegative then \<not> inverted else inverted) in
      rbind (readBig inv r) (\<lambda>(encoded :: u64, r1).
        if encoded AND push_bit 63 1 = 0 then
          (let hasDecimalContinuation = (encoded AND 1 \<noteq> 0);
               bin = dbl_neg_if isNegative (drop_bit 1 encoded OR push_bit 62 1)
           in if \<not> hasDecimalContinuation then Inr (BDouble bin, r1)
              else rbind (dec_fromDouble D bin kRoundTo34Digits
                           (if isNegative then kRoundTowardNegative else kRoundTowardPositive)) (\<lambda>dec.
                   rbind (readDecimalContinuation D r1 inv dec) (\<lambda>(dec, r2). Inr (BDecimal dec, r2))))
        else if encoded = NOT 0 then
          Inr (BDouble (if isNegative then dbl_neg dbl_infinity else dbl_infinity), r1)
        else
          (let highbits = encoded AND NOT (push_bit 63 1) in
           rbind (readBig inv r1) (\<lambda>(lowbits :: u64, r2).
             Inr (BDecimal (negate_if isNegative (lowbits, highbits)), r2)))))"

text \<open>\<open>kNumericNegativeSmallMagnitude\<close> and \<open>kNumericPositiveSmallMagnitude\<close>, by the top two bits.\<close>

definition decodeSmall :: "decimal_lib \<Rightarrow> bool \<Rightarrow> bytes \<Rightarrow> bool \<Rightarrow> (bson \<times> bytes) result" where
  "decodeSmall D isNegative r inverted =
     (let inv = (if isNegative then \<not> inverted else inverted) in
      rbind (readBig inv r) (\<lambda>(encoded :: u64, r1).
        let sel = drop_bit 62 encoded in
        if sel = 0 then
          rbind (readBig inv r1) (\<lambda>(lowbits :: u64, r2).
            Inr (BDecimal (negate_if isNegative (lowbits, encoded)), r2))
        else if sel = 1 \<or> sel = 2 then
          (let hasDecimalContinuation = (encoded AND 1 \<noteq> 0);
               scaledBin = drop_bit 1 (encoded - push_bit 62 1)
           in if \<not> hasDecimalContinuation
              then Inr (BDouble (dbl_neg_if isNegative (dbl_ldexp scaledBin (- kTinyDoubleExponentShift))), r1)
              else
                rbind (if dbl_less scaledBin (dbl_ldexp dbl_min kTinyDoubleExponentShift)
                       then rbind (dec_fromDouble D scaledBin kRoundTo34Digits kRoundTowardZero) (\<lambda>scaledDec.
                            rbind (dec_fromDouble D kTinyDoubleExponentDownshiftFactor kRoundTo34Digits kRoundTowardZero)
                              (\<lambda>down. Inr (fst (bid128_mul D scaledDec down kRoundTowardZero))))
                       else dec_fromDouble D (dbl_ldexp scaledBin (- kTinyDoubleExponentShift))
                              kRoundTo34Digits kRoundTowardPositive) (\<lambda>dec.
                rbind (readDecimalContinuation D r1 inv dec) (\<lambda>(dec, r2).
                  Inr (BDecimal (negate_if isNegative dec), r2))))
        else
          (let d = encoded AND 3; bin = drop_bit 2 encoded in
           if d = dcm_bits kDCMEqualToDouble then Inr (BDouble (dbl_neg_if isNegative bin), r1)
           else if d = dcm_bits kDCMEqualToDoubleRoundedUpTo15Digits
           then rbind (dec_fromDouble D bin kRoundTo15Digits kRoundTowardPositive) (\<lambda>dec.
                  Inr (BDecimal (negate_if isNegative dec), r1))
           else rbind (dec_fromDouble D bin kRoundTo34Digits kRoundTowardPositive) (\<lambda>dec.
                rbind (readDecimalContinuation D r1 inv dec) (\<lambda>(dec, r2).
                  Inr (BDecimal (negate_if isNegative dec), r2))))))"

text \<open>Bytes shifted into an accumulator, one at a time.\<close>

primrec shiftInBytes :: "nat \<Rightarrow> u64 \<Rightarrow> bool \<Rightarrow> bytes \<Rightarrow> (u64 \<times> bytes) result" where
  "shiftInBytes 0 acc inverted r = Inr (acc, r)"
| "shiftInBytes (Suc n) acc inverted r =
     rbind (readType8 inverted r) (\<lambda>(b, r'). shiftInBytes n (push_bit 8 acc OR ucast b) inverted r')"

text \<open>The eight negative and eight positive integer type bytes.\<close>

definition decodeInteger :: "decimal_lib \<Rightarrow> u8 \<Rightarrow> bytes \<Rightarrow> bool \<Rightarrow> (bson \<times> bytes) result" where
  "decodeInteger D ctype r inverted =
     (let isNegative = (ctype \<le> kNumericNegative1ByteInt);
          inv = (if isNegative then \<not> inverted else inverted)
      in rbind (shiftInBytes (numBytesForInt ctype) 0 inv r) (\<lambda>(encodedIntegerPart, r1).
        let haveFractionalPart = (encodedIntegerPart AND 1 \<noteq> 0);
            integerPart = drop_bit 1 encodedIntegerPart
        in if \<not> haveFractionalPart
           then Inr (appendCanonicalInt (if isNegative then - integerPart else integerPart), r1)
           else let fracBytes = 8 - numBytesForInt ctype in
             rbind (shiftInBytes fracBytes integerPart inv r1) (\<lambda>(encodedFraction, r2).
               let bin = dbl_ldexp (u64_to_dbl (encodedFraction AND NOT 3)) (- 8 * int fracBytes);
                   d = (if fracBytes \<noteq> 0 then encodedFraction AND 3
                        else dcm_bits kDCMHasContinuationLargerThanDoubleRoundedUpTo15Digits)
               in if d = dcm_bits kDCMEqualToDouble then Inr (BDouble (dbl_neg_if isNegative bin), r2)
                  else if d = dcm_bits kDCMEqualToDoubleRoundedUpTo15Digits
                  then rbind (dec_fromDouble D bin kRoundTo15Digits kRoundTowardPositive) (\<lambda>dec.
                         Inr (BDecimal (negate_if isNegative dec), r2))
                  else rbind (if sint integerPart > 2 ^ 53 then Inr (bid128_from_int64 D integerPart)
                              else dec_fromDouble D bin kRoundTo34Digits kRoundTowardPositive) (\<lambda>dec.
                       rbind (readDecimalContinuation D r2 inv dec) (\<lambda>(dec, r3).
                         Inr (BDecimal (negate_if isNegative dec), r3))))))"

section \<open>What a reader consumes\<close>

text \<open>
  A reader that succeeds leaves at most what it was given. The rules follow the way the readers
  are put together.
\<close>

definition consumes :: "bytes \<Rightarrow> ('a \<times> bytes) result \<Rightarrow> bool" where
  "consumes r m \<longleftrightarrow> (\<forall>x r'. m = Inr (x, r') \<longrightarrow> length r' \<le> length r)"

lemma consumesD: "consumes r m \<Longrightarrow> m = Inr (x, r') \<Longrightarrow> length r' \<le> length r"
  by (simp add: consumes_def)

lemma consumes_Inl [simp]: "consumes r (Inl e)"
  by (simp add: consumes_def)

lemma consumes_Inr [simp]: "consumes r (Inr (x, r')) \<longleftrightarrow> length r' \<le> length r"
  by (simp add: consumes_def)

lemma consumes_trans: "length r1 \<le> length r \<Longrightarrow> consumes r1 m \<Longrightarrow> consumes r m"
  by (fastforce simp: consumes_def)

lemma consumes_rbind:
  assumes "consumes r m"
    and "\<And>x r1. m = Inr (x, r1) \<Longrightarrow> length r1 \<le> length r \<Longrightarrow> consumes r1 (f (x, r1))"
  shows "consumes r (rbind m f)"
proof (cases m)
  case (Inr p)
  obtain x r1 where "m = Inr (x, r1)" using Inr by (cases p) simp
  then show ?thesis using assms consumes_trans consumesD by fastforce
qed simp

lemma consumes_rbind_pure:
  "(\<And>x. consumes r (f x)) \<Longrightarrow> consumes r (rbind (m :: unit result) f)"
  "(\<And>x. consumes r (g x)) \<Longrightarrow> consumes r (rbind (n :: dec128 result) g)"
  by (cases m, simp_all) (cases n, simp_all)

lemma consumes_if: "(b \<Longrightarrow> consumes r m) \<Longrightarrow> (\<not> b \<Longrightarrow> consumes r n) \<Longrightarrow> consumes r (if b then m else n)"
  by simp

lemma consumes_branch: "consumes r m \<Longrightarrow> consumes r n \<Longrightarrow> consumes r (if b then m else n)"
  by simp

lemma consumes_readBig: "consumes r (readBig inverted r :: ('a::len word \<times> bytes) result)"
  by (auto simp: consumes_def readBig_def read_be_def Let_def split: if_splits)

lemma consumes_readType8: "consumes r (readType8 inverted r)"
  by (simp add: readType8_def consumes_readBig)

lemma readType8_shrinks: "readType8 inverted r = Inr (b, r') \<Longrightarrow> length r' < length r"
  by (auto simp: readType8_def readBig_def read_be_def Let_def split: if_splits)

lemma consumes_skipBytes: "consumes r (skipBytes n inverted r)"
  by (auto simp: consumes_def skipBytes_def read_exact_def split: if_splits)

lemma consumes_readUntil: "consumes r (readUntil t r)"
  by (auto simp: consumes_def dest: readUntil_shrinks)

lemma consumes_readName: "consumes r (readName inverted r)"
  by (simp add: readName_def readCString_def readInvertedCString_def consumes_readUntil consumes_rbind)

lemma consumes_readMoreParts: "consumes r (readMoreParts r)"
proof (induction r rule: readMoreParts.induct)
  case (1 r)
  have "consumes r (readCString (drop 1 r))"
    by (rule consumes_trans [OF _ consumes_readUntil [of "drop 1 r" 0, folded readCString_def]]) simp
  then show ?case
    by (subst readMoreParts.simps) (auto intro!: consumes_rbind 1)
qed

lemma consumes_readInvertedParts: "consumes r (readInvertedParts r)"
proof (induction r rule: readInvertedParts.induct)
  case (1 r)
  have "consumes r1 (readInvertedParts (drop 1 r1))"
    if "readUntil 0xFF r = Inr (part, r1)" "canPeek r1 \<and> r1 ! 0 = 0" for part r1
    by (rule consumes_trans [OF _ 1 [OF that(1) refl that(2)]]) simp
  then show ?case
    by (subst readInvertedParts.simps) (auto intro!: consumes_rbind consumes_readUntil)
qed

lemma consumes_readStringField: "consumes r (readStringField inverted r)"
proof (cases inverted)
  case True
  have "consumes r (readInvertedCStringWithNuls r)"
    unfolding readInvertedCStringWithNuls_def
    by (rule consumes_rbind [OF consumes_readInvertedParts]) simp
  then show ?thesis using True by (simp add: readStringField_def)
next
  case False
  have "consumes r (readCStringWithNuls r)"
    unfolding readCStringWithNuls_def readCString_def
  proof (rule consumes_rbind [OF consumes_readUntil])
    fix x r1
    have "consumes r1 (rbind (readMoreParts r1) (\<lambda>(rest, r2). Inr (x @ rest, r2)))"
      by (rule consumes_rbind [OF consumes_readMoreParts]) simp
    then show "consumes r1 (case (x, r1) of (initial, r1) \<Rightarrow>
        if \<not> canPeek r1 \<or> r1 ! 0 \<noteq> 0xFF then Inr (initial, r1)
        else rbind (readMoreParts r1) (\<lambda>(rest, r2). Inr (initial @ rest, r2)))" by simp
  qed
  then show ?thesis using False by (simp add: readStringField_def)
qed

lemma consumes_readDecimalContinuation: "consumes r (readDecimalContinuation D r inverted num)"
  by (auto simp: readDecimalContinuation_def Let_def intro!: consumes_rbind consumes_rbind_pure consumes_readBig)

lemma consumes_shiftInBytes: "consumes r (shiftInBytes n acc inverted r)"
  by (induction n arbitrary: acc r) (auto intro!: consumes_rbind consumes_readType8)

lemmas consumes_intros = consumes_rbind consumes_readBig consumes_readType8 consumes_skipBytes
  consumes_readName consumes_readStringField consumes_readDecimalContinuation consumes_shiftInBytes

lemma consumes_decodeLarge: "consumes r (decodeLarge D isNegative r inverted)"
  unfolding decodeLarge_def Let_def
  by (rule consumes_rbind [OF consumes_readBig])
    (auto intro!: consumes_if consumes_intros consumes_rbind_pure)

lemma consumes_decodeSmall: "consumes r (decodeSmall D isNegative r inverted)"
  unfolding decodeSmall_def Let_def
  by (rule consumes_rbind [OF consumes_readBig])
    (auto intro!: consumes_if consumes_intros consumes_rbind_pure)

lemma consumes_decodeInteger: "consumes r (decodeInteger D ctype r inverted)"
  unfolding decodeInteger_def Let_def
  by (rule consumes_rbind [OF consumes_shiftInBytes])
    (auto intro!: consumes_if consumes_intros consumes_rbind_pure)

section \<open>Values\<close>

text \<open>Every value that holds no other value.\<close>

definition decodeLeaf :: "decimal_lib \<Rightarrow> u8 \<Rightarrow> bytes \<Rightarrow> bool \<Rightarrow> (bson \<times> bytes) result" where
  "decodeLeaf D ctype r inverted =
     (if ctype = kMinKey then Inr (BMinKey, r)
      else if ctype = kMaxKey then Inr (BMaxKey, r)
      else if ctype = kNullish then Inr (BNull, r)
      else if ctype = kUndefined then Inr (BUndefined, r)
      else if ctype = kBoolTrue then Inr (BBool True, r)
      else if ctype = kBoolFalse then Inr (BBool False, r)
      else if ctype = kDate then
        rbind (readBig inverted r) (\<lambda>(w, r1). Inr (BDate (w XOR push_bit 63 1), r1))
      else if ctype = kTimestamp then rbind (readBig inverted r) (\<lambda>(w, r1). Inr (BTimestamp w, r1))
      else if ctype = kOID then rbind (skipBytes 12 inverted r) (\<lambda>(bs, r1). Inr (BOid bs, r1))
      else if ctype = kStringLike then rbind (readStringField inverted r) (\<lambda>(s, r1). Inr (BString s, r1))
      else if ctype = kCode then rbind (readStringField inverted r) (\<lambda>(s, r1). Inr (BCode s, r1))
      else if ctype = kBinData then
        rbind (readType8 inverted r) (\<lambda>(sz, r1).
        rbind (if sz = 0xFF then rbind (readBig inverted r1) (\<lambda>(n :: u32, r2). Inr (unat n, r2))
               else Inr (unat sz, r1)) (\<lambda>(n, r2).
        rbind (readType8 inverted r2) (\<lambda>(subType, r3).
        rbind (skipBytes n inverted r3) (\<lambda>(bs, r4). Inr (BBinData subType bs, r4)))))
      else if ctype = kRegEx then
        rbind (readName inverted r) (\<lambda>(pat, r1).
        rbind (readName inverted r1) (\<lambda>(flags, r2). Inr (BRegEx pat flags, r2)))
      else if ctype = kDBRef then
        rbind (readBig inverted r) (\<lambda>(n :: u32, r1).
        rbind (skipBytes (unat n) inverted r1) (\<lambda>(ns, r2).
        rbind (skipBytes 12 inverted r2) (\<lambda>(oid, r3). Inr (BDBRef ns oid, r3))))
      else if ctype = kNumericNaN then Inr (BDouble dbl_quiet_NaN, r)
      else if ctype = kNumericZero then Inr (BInt 0, r)
      else if ctype = kNumericNegativeLargeMagnitude then decodeLarge D True r inverted
      else if ctype = kNumericPositiveLargeMagnitude then decodeLarge D False r inverted
      else if ctype = kNumericNegativeSmallMagnitude then decodeSmall D True r inverted
      else if ctype = kNumericPositiveSmallMagnitude then decodeSmall D False r inverted
      else if (kNumericNegative8ByteInt \<le> ctype \<and> ctype \<le> kNumericNegative1ByteInt) \<or>
              (kNumericPositive1ByteInt \<le> ctype \<and> ctype \<le> kNumericPositive8ByteInt)
      then decodeInteger D ctype r inverted
      else Inl BadValue)"

lemma consumes_decodeLeaf: "consumes r (decodeLeaf D ctype r inverted)"
  unfolding decodeLeaf_def
  by (intro consumes_branch)
    (simp_all add: consumes_decodeLarge consumes_decodeSmall consumes_decodeInteger,
     auto intro!: consumes_if consumes_intros)

function toBsonValueCanonical :: "decimal_lib \<Rightarrow> u8 \<Rightarrow> bytes \<Rightarrow> bool \<Rightarrow> (bson \<times> bytes) result"
and toBsonFieldsCanonical :: "decimal_lib \<Rightarrow> bytes \<Rightarrow> bool \<Rightarrow> (bson_obj \<times> bytes) result"
and toBsonElementsCanonical :: "decimal_lib \<Rightarrow> nat \<Rightarrow> bytes \<Rightarrow> bool \<Rightarrow> (bson_obj \<times> bytes) result"
where
  "toBsonValueCanonical D ctype r inverted =
     (if ctype = kObject then
        rbind (toBsonFieldsCanonical D r inverted) (\<lambda>(fs, r1). Inr (BObject fs, r1))
      else if ctype = kArray then
        rbind (toBsonElementsCanonical D 0 r inverted) (\<lambda>(fs, r1). Inr (BArray fs, r1))
      else if ctype = kCodeWithScope then
        rbind (readStringField inverted r) (\<lambda>(code, r1).
        rbind (toBsonFieldsCanonical D r1 inverted) (\<lambda>(fs, r2). Inr (BCodeWScope code fs, r2)))
      else decodeLeaf D ctype r inverted)"
| "toBsonFieldsCanonical D r inverted =
     rbind (readType8 inverted r) (\<lambda>(generic, r1).
       if generic = 0 then Inr ([], r1)
       else rbind (readName inverted r1) (\<lambda>(name, r2).
            rbind (readType8 inverted r2) (\<lambda>(ctype, r3).
            rbind (toBsonValueCanonical D ctype r3 inverted) (\<lambda>(v, r4).
            rbind (toBsonFieldsCanonical D r4 inverted) (\<lambda>(fs, r5). Inr ((name, v) # fs, r5))))))"
| "toBsonElementsCanonical D index r inverted =
     rbind (readType8 inverted r) (\<lambda>(elemType, r1).
       if elemType = 0 then Inr ([], r1)
       else rbind (toBsonValueCanonical D elemType r1 inverted) (\<lambda>(v, r2).
            rbind (toBsonElementsCanonical D (index + 1) r2 inverted) (\<lambda>(fs, r3).
              Inr ((numStr index, v) # fs, r3))))"
  by pat_completeness auto

termination
proof -
  have value_consumes:
      "toBsonValueCanonical_toBsonFieldsCanonical_toBsonElementsCanonical_dom (Inl (D, ctype, r, inverted)) \<Longrightarrow> consumes r (toBsonValueCanonical D ctype r inverted)"
    and "toBsonValueCanonical_toBsonFieldsCanonical_toBsonElementsCanonical_dom (Inr (Inl (D, r, inverted))) \<Longrightarrow> consumes r (toBsonFieldsCanonical D r inverted)"
    and "toBsonValueCanonical_toBsonFieldsCanonical_toBsonElementsCanonical_dom (Inr (Inr (D, index, r, inverted))) \<Longrightarrow> consumes r (toBsonElementsCanonical D index r inverted)"
    for D ctype r inverted index
  proof (induction D ctype r inverted and D r inverted and D index r inverted rule: toBsonValueCanonical_toBsonFieldsCanonical_toBsonElementsCanonical.pinduct)
    case (1 D ctype r inverted)
    then show ?case
      by (auto simp: toBsonValueCanonical.psimps consumes_decodeLeaf
          intro!: consumes_if consumes_rbind consumes_readStringField)
  next
    case (2 D r inverted)
    then show ?case
      by (auto simp: toBsonFieldsCanonical.psimps
          intro!: consumes_if consumes_rbind consumes_readType8 consumes_readName)
  next
    case (3 D index r inverted)
    then show ?case
      by (auto simp: toBsonElementsCanonical.psimps
          intro!: consumes_if consumes_rbind consumes_readType8)
  qed
  show "All toBsonValueCanonical_toBsonFieldsCanonical_toBsonElementsCanonical_dom"
  proof (relation "measure (case_sum (\<lambda>(D, ctype, r, inverted). 2 * length r + 1)
      (case_sum (\<lambda>(D, r, inverted). 2 * length r) (\<lambda>(D, index, r, inverted). 2 * length r)))",
      goal_cases)
    case (4 D ctype r inverted x code r1)
    then show ?case using consumesD [OF consumes_readStringField, of inverted r code r1] by simp
  next
    case (5 D r inverted x generic r1 y name r2 z ctype r3)
    then have "length r1 < length r" "length r2 \<le> length r1" "length r3 < length r2"
      by (metis readType8_shrinks, metis consumesD [OF consumes_readName], metis readType8_shrinks)
    then show ?case by simp
  next
    case (6 D r inverted x generic r1 y name r2 z ctype r3 u v r4)
    then have "length r1 < length r" "length r2 \<le> length r1" "length r3 < length r2" "length r4 \<le> length r3"
      by (metis readType8_shrinks, metis consumesD [OF consumes_readName], metis readType8_shrinks,
          metis consumesD [OF value_consumes])
    then show ?case by simp
  next
    case (7 D index r inverted x elemType r1)
    then show ?case using readType8_shrinks [of inverted r elemType r1] by simp
  next
    case (8 D index r inverted x elemType r1 y v r2)
    then have "length r1 < length r" "length r2 \<le> length r1"
      by (metis readType8_shrinks, metis consumesD [OF value_consumes])
    then show ?case by simp
  qed simp_all
qed

declare toBsonValueCanonical.simps [simp del] toBsonFieldsCanonical.simps [simp del]
  toBsonElementsCanonical.simps [simp del]

lemma toBsonValueCanonical_consumes:
  "consumes r (toBsonValueCanonical D ctype r inverted)"
  "consumes r (toBsonFieldsCanonical D r inverted)"
  "consumes r (toBsonElementsCanonical D index r inverted)"
proof (induction D ctype r inverted and D r inverted and D index r inverted
    rule: toBsonValueCanonical_toBsonFieldsCanonical_toBsonElementsCanonical.induct)
  case (1 D ctype r inverted)
  then show ?case
    by (subst toBsonValueCanonical.simps)
      (auto simp: consumes_decodeLeaf intro!: consumes_if consumes_rbind consumes_readStringField)
next
  case (2 D r inverted)
  then show ?case
    by (subst toBsonFieldsCanonical.simps)
      (auto intro!: consumes_if consumes_rbind consumes_readType8 consumes_readName)
next
  case (3 D index r inverted)
  then show ?case
    by (subst toBsonElementsCanonical.simps) (auto intro!: consumes_if consumes_rbind consumes_readType8)
qed

section \<open>Whole keys\<close>

text \<open>
  The loop over the fields of a key; a discriminator before a field's type byte is skipped, and
  the end byte or the end of the buffer ends the key. Every field's name is empty.
\<close>

function toBsonLoop :: "decimal_lib \<Rightarrow> u32 \<Rightarrow> nat \<Rightarrow> bytes \<Rightarrow> bson_obj result" where
  "toBsonLoop D ord i r =
     (if r = [] then Inr []
      else let invert = ord_descending ord i in
        rbind (readType8 invert r) (\<lambda>(c, r1).
        rbind (if c = kLess \<or> c = kGreater then readType8 invert r1 else Inr (c, r1)) (\<lambda>(ctype, r2).
          if ctype = kEnd then Inr []
          else rbind (toBsonValueCanonical D ctype r2 invert) (\<lambda>(v, r3).
               rbind (toBsonLoop D ord (i + 1) r3) (\<lambda>fs. Inr (([], v) # fs))))))"
  by pat_completeness auto
termination
proof (relation "measure (\<lambda>(D, ord, i, r). length r)", goal_cases)
  case (2 D ord i r x xa c r1 xb ctype r2 xc v r3)
  then have "length r1 < length r" "length r2 \<le> length r1" "length r3 \<le> length r2"
    by (metis readType8_shrinks, metis readType8_shrinks less_imp_le order_refl Inr_inject prod.inject,
        metis consumesD [OF toBsonValueCanonical_consumes(1)])
  then show ?case by simp
qed simp

declare toBsonLoop.simps [simp del]

definition toBsonCanonical :: "decimal_lib \<Rightarrow> bytes \<Rightarrow> u32 \<Rightarrow> bson_obj result" where
  "toBsonCanonical D buf ord = toBsonLoop D ord 0 buf"

text \<open>\<open>Ordering::make(BSONObj())\<close> is \<open>0\<close>: every field ascending.\<close>

definition decodeIdKey :: "decimal_lib \<Rightarrow> bytes \<Rightarrow> bytes \<Rightarrow> bson_obj result" where
  "decodeIdKey D keyString fieldName =
     rbind (toBsonCanonical D keyString 0) (\<lambda>decoded.
       case decoded of
         [(n, value)] \<Rightarrow> Inr [(fieldName, value)]
       | _ \<Rightarrow> Inl BadValue)"

text \<open>The document key, and the key's own bytes that \<open>keyStringOut\<close> returns.\<close>

definition decodeLoggedIdKey :: "decimal_lib \<Rightarrow> bytes \<Rightarrow> bytes \<Rightarrow> (bson_obj \<times> bytes) result" where
  "decodeLoggedIdKey D loggedKey fieldName =
     rbind (read_le BadValue loggedKey) (\<lambda>(len :: u16, r).
     rbind (rguard (unat len \<le> length r) BadValue) (\<lambda>_.
       let keyString = take (unat len) r in
       rbind (decodeIdKey D keyString fieldName) (\<lambda>doc. Inr (doc, keyString))))"

end
