(* ===== verification/Key_Leaves.thy ===== *)
theory Key_Leaves
  imports Key_Decoder
begin

text \<open>
  What each append of the key encoding adds to the buffer, and what the decoder of logged keys reads
  from exactly those bytes, whatever follows them: strings, integers and doubles. What the decoder
  gives for a value is \<open>canonical\<close>: the value itself up to the representation the type bits would
  have told (the narrowest integer for an integral number, one zero, one NaN, a string for a
  symbol), with the elements of an array numbered from zero.
\<close>

section \<open>What the decoder is expected to give\<close>

definition canonical_double :: "u64 \<Rightarrow> bson" where
  "canonical_double d =
     (if isnan d then BDouble dbl_quiet_NaN
      else if dbl_mag d = 0 then BInt 0
      else if dbl_one \<le> dbl_mag d \<and> dbl_mag d < kMinLargeDouble \<and> dbl_integral d
      then appendCanonicalInt (if signbit d then - dbl_to_u64 d else dbl_to_u64 d)
      else BDouble d)"

definition canonical_long :: "u64 \<Rightarrow> bson" where
  "canonical_long l = (if l = push_bit 63 1 then BDouble 0xC3E0000000000000 else appendCanonicalInt l)"

fun canonical :: "bson \<Rightarrow> bson"
and canonical_fields :: "bson_obj \<Rightarrow> bson_obj"
and canonical_elements :: "nat \<Rightarrow> bson_obj \<Rightarrow> bson_obj" where
  "canonical (BDouble d) = canonical_double d"
| "canonical (BInt i) = BInt i"
| "canonical (BLong l) = canonical_long l"
| "canonical (BSymbol s) = BString s"
| "canonical (BObject fs) = BObject (canonical_fields fs)"
| "canonical (BArray fs) = BArray (canonical_elements 0 fs)"
| "canonical (BCodeWScope c fs) = BCodeWScope c (canonical_fields fs)"
| "canonical v = v"
| "canonical_fields [] = []"
| "canonical_fields ((n, v) # fs) = (n, canonical v) # canonical_fields fs"
| "canonical_elements i [] = []"
| "canonical_elements i ((n, v) # fs) = (numStr i, canonical v) # canonical_elements (i + 1) fs"

text \<open>
  The values a key can hold: names and the parts of a regular expression are C strings, an object
  id has twelve bytes and lengths fit the \<open>int32_t\<close> they are kept in. Decimals are not covered.
\<close>

fun key_value :: "bson \<Rightarrow> bool" and key_fields :: "bson_obj \<Rightarrow> bool" and key_elements :: "bson_obj \<Rightarrow> bool" where
  "key_value (BObject fs) = key_fields fs"
| "key_value (BArray fs) = key_elements fs"
| "key_value (BCodeWScope c fs) = key_fields fs"
| "key_value (BBinData t bs) = (length bs < 2 ^ 31)"
| "key_value (BOid bs) = (length bs = 12)"
| "key_value (BRegEx p f) = (0 \<notin> set p \<and> 0 \<notin> set f)"
| "key_value (BDBRef ns oid) = (length ns < 2 ^ 31 \<and> length oid = 12)"
| "key_value (BDecimal d) = False"
| "key_value v = True"
| "key_fields [] = True"
| "key_fields ((n, v) # fs) = (0 \<notin> set n \<and> key_value v \<and> key_fields fs)"
| "key_elements [] = True"
| "key_elements ((n, v) # fs) = (key_value v \<and> key_elements fs)"

section \<open>Flipped bytes\<close>

lemma length_flip_if [simp]: "length (flip_if iv p) = length p"
  by (simp add: flip_if_def memcpy_flipBits_def)

lemma flip_if_Nil [simp]: "flip_if iv [] = []"
  by (simp add: flip_if_def memcpy_flipBits_def)

lemma flip_if_append [simp]: "flip_if iv (p @ q) = flip_if iv p @ flip_if iv q"
  by (simp add: flip_if_def memcpy_flipBits_def)

lemma flip_if_Cons: "flip_if iv (b # p) = (if iv then NOT b else b) # flip_if iv p"
  by (simp add: flip_if_def memcpy_flipBits_def)

lemma flip_if_False [simp]: "flip_if False p = p"
  by (simp add: flip_if_def)

lemma flip_if_twice [simp]: "flip_if iv (flip_if iv p) = p"
  by (simp add: flip_if_def memcpy_flipBits_def comp_def)

lemma flip_if_neg: "flip_if (if neg then \<not> iv else iv) p = flip_if iv (flip_if neg p)"
  by (simp add: flip_if_def memcpy_flipBits_def comp_def)

lemma ks_appendBytes_buffer [simp]:
  "ks_buffer (ks_appendBytes bs iv ks) = ks_buffer ks @ flip_if iv bs"
  "ks_version (ks_appendBytes bs iv ks) = ks_version ks"
  by (simp_all add: ks_appendBytes_def flip_if_def)

lemma ks_append8_buffer [simp]:
  "ks_buffer (ks_append8 b iv ks) = ks_buffer ks @ flip_if iv [b]"
  "ks_version (ks_append8 b iv ks) = ks_version ks"
  by (simp_all add: ks_append8_def)

lemma ks_appendBig_buffer [simp]:
  "ks_buffer (ks_appendBig w iv ks) = ks_buffer ks @ flip_if iv (be_bytes w)"
  "ks_version (ks_appendBig w iv ks) = ks_version ks"
  by (simp_all add: ks_appendBig_def)

lemma ks_withBits_buffer:
  "ks_withBits f ks = Inr ks' \<Longrightarrow> ks_buffer ks' = ks_buffer ks \<and> ks_version ks' = ks_version ks"
  by (auto simp: ks_withBits_def)

lemma be_bytes_n_not: "8 * n \<le> LENGTH('a) \<Longrightarrow> be_bytes_n n (NOT w) = map (\<lambda>b. NOT b) (be_bytes_n n (w :: 'a::len word))"
proof (induction n)
  case (Suc n)
  have "ucast (drop_bit (8 * n) (NOT w)) = (NOT (ucast (drop_bit (8 * n) w)) :: u8)"
    by (rule bit_word_eqI) (use Suc.prems in \<open>auto simp: bit_simps\<close>)
  then show ?case using Suc by simp
qed simp

lemma be_bytes_not: "flip_if iv (be_bytes w) = be_bytes (if iv then NOT w else (w :: 'a::len word))"
  using be_bytes_n_not [of "LENGTH('a) div 8" w]
  by (simp add: flip_if_def memcpy_flipBits_def be_bytes_def)

section \<open>The readers on what was appended\<close>

lemma readBig_flip [simp]:
  "8 dvd LENGTH('a) \<Longrightarrow> readBig iv (flip_if iv (be_bytes w) @ rest) = Inr (w :: 'a::len word, rest)"
  by (simp add: readBig_def be_bytes_not)

lemma readType8_flip [simp]: "readType8 iv (flip_if iv [b] @ rest) = Inr (b, rest)"
  using readBig_flip [of iv b rest] by (simp add: readType8_def)

lemma readType8_flip_Cons [simp]: "readType8 iv (flip_if iv (b # p) @ rest) = Inr (b, flip_if iv p @ rest)"
  using readType8_flip [of iv b "flip_if iv p @ rest"] flip_if_append [of iv "[b]" p] by simp

lemma skipBytes_flip [simp]: "n = length bs \<Longrightarrow> skipBytes n iv (flip_if iv bs @ rest) = Inr (bs, rest)"
  by (simp add: skipBytes_def)

lemma readUntil_append: "t \<notin> set s \<Longrightarrow> readUntil t (s @ t # rest) = Inr (s, rest)"
proof -
  assume "t \<notin> set s"
  then have "takeWhile (\<lambda>b. b \<noteq> t) (s @ t # rest) = s"
    by (subst takeWhile_append2) auto
  then show ?thesis by (simp add: readUntil_def)
qed

lemma not_eq_FF: "0xFF = NOT x \<longleftrightarrow> x = (0 :: u8)"
proof
  assume "0xFF = NOT x"
  then have "x = NOT 0xFF" by (metis bit.double_compl)
  then show "x = 0" by simp
qed simp

lemma not_eq_0: "0 = NOT x \<longleftrightarrow> x = (0xFF :: u8)"
proof
  assume "0 = NOT x"
  then have "x = NOT 0" by (metis bit.double_compl)
  then show "x = 0xFF" by simp
qed simp

lemma readName_flip: "0 \<notin> set n \<Longrightarrow> readName iv (flip_if iv (n @ [0]) @ rest) = Inr (n, rest)"
proof (cases iv)
  case True
  assume "0 \<notin> set n"
  then have "0xFF \<notin> set (memcpy_flipBits n)"
    by (auto simp: memcpy_flipBits_def not_eq_FF)
  then have "readUntil 0xFF (memcpy_flipBits n @ 0xFF # rest) = Inr (memcpy_flipBits n, rest)"
    by (rule readUntil_append)
  moreover have "flip_if True (n @ [0]) @ rest = memcpy_flipBits n @ 0xFF # rest"
    by (simp add: flip_if_def memcpy_flipBits_def)
  ultimately show ?thesis
    using True by (simp add: readName_def readInvertedCString_def memcpy_flipBits_def comp_def)
next
  case False
  assume "0 \<notin> set n"
  then show ?thesis using False readUntil_append [of 0 n rest]
    by (simp add: readName_def readCString_def flip_if_def)
qed

section \<open>Strings\<close>

fun escaped :: "bytes \<Rightarrow> bytes" where
  "escaped [] = []"
| "escaped (b # bs) = (if b = 0 then [0, 0xFF] else [b]) @ escaped bs"

lemma escaped_append [simp]: "escaped (a @ b) = escaped a @ escaped b"
  by (induction a) simp_all

lemma escaped_no_nul: "0 \<notin> set s \<Longrightarrow> escaped s = s"
  by (induction s) auto

lemma appendStringLike_buffer:
  "ks_buffer (appendStringLike s iv ks) = ks_buffer ks @ flip_if iv (escaped s @ [0]) \<and>
   ks_version (appendStringLike s iv ks) = ks_version ks"
proof (induction s iv ks rule: appendStringLike.induct)
  case (1 s iv ks)
  define n where "n = length (takeWhile (\<lambda>b. b \<noteq> 0) s)"
  have unfold: "appendStringLike s iv ks =
      (if n = length s then ks_append8 0 iv (ks_appendBytes (take n s) iv ks)
       else appendStringLike (drop (n + 1) s) iv (ks_appendBytes [0, 0xFF] iv (ks_appendBytes (take n s) iv ks)))"
    by (subst appendStringLike.simps) (simp only: Let_def n_def)
  have take: "take n s = takeWhile (\<lambda>b. b \<noteq> 0) s" 
    unfolding n_def by (rule takeWhile_eq_take [symmetric])
  then have nonul: "0 \<notin> set (take n s)" using set_takeWhileD by fastforce
  show ?case
  proof (cases "n = length s")
    case True
    then show ?thesis using nonul by (simp add: unfold escaped_no_nul)
  next
    case False
    then have "n < length s" using length_takeWhile_le [of "\<lambda>b. b \<noteq> 0" s] n_def by simp
    then have "s ! n = 0" using nth_length_takeWhile [of "\<lambda>b. b \<noteq> 0" s] n_def by simp
    then have sq: "s = take n s @ 0 # drop (n + 1) s" using id_take_nth_drop [OF \<open>n < length s\<close>] by simp
    have esc: "escaped s = take n s @ [0, 0xFF] @ escaped (drop (n + 1) s)"
      using arg_cong [OF sq, of escaped]
      by (simp only: escaped_append escaped_no_nul [OF nonul] escaped.simps(2) simp_thms if_True)
    show ?thesis
      using 1 [OF n_def refl False] False by (simp add: unfold esc flip_if_Cons)
  qed
qed

text \<open>What may follow a value: not the byte that would continue a string.\<close>

definition may_follow :: "bool \<Rightarrow> bytes \<Rightarrow> bool" where
  "may_follow iv rest \<longleftrightarrow> rest = [] \<or> rest ! 0 \<noteq> (if iv then 0 else 0xFF)"

lemma may_follow_flip [simp]: "may_follow iv (flip_if iv (b # p) @ rest) \<longleftrightarrow> b \<noteq> 0xFF"
  using not_eq_0 [of b] by (auto simp: may_follow_def flip_if_Cons)

lemma readMoreParts_escaped:
  "may_follow False rest \<Longrightarrow> readMoreParts (0xFF # escaped s @ 0 # rest) = Inr (0 # s, rest)"
proof (induction s rule: length_induct)
  case (1 s)
  have stop: "readMoreParts rest = Inr ([], rest)"
    using 1(2) by (subst readMoreParts.simps) (auto simp: may_follow_def canPeek_def)
  show ?case
  proof (cases "0 \<in> set s")
    case False
    then show ?thesis using stop readUntil_append [of 0 s rest]
      by (subst readMoreParts.simps) (simp add: canPeek_def readCString_def escaped_no_nul)
  next
    case True
    then obtain a s' where s: "s = a @ 0 # s'" "0 \<notin> set a" by (meson split_list_first)
    then have "readMoreParts (0xFF # escaped s' @ 0 # rest) = Inr (0 # s', rest)" using 1 by simp
    then show ?thesis using s readUntil_append [of 0 a "0xFF # escaped s' @ 0 # rest"]
      by (subst readMoreParts.simps) (simp add: canPeek_def readCString_def escaped_no_nul)
  qed
qed

lemma readInvertedParts_escaped:
  "may_follow True rest \<Longrightarrow>
     readInvertedParts (memcpy_flipBits (escaped s) @ 0xFF # rest) = Inr (memcpy_flipBits s, rest)"
proof (induction s rule: length_induct)
  case (1 s)
  have fl: "0xFF \<notin> set (memcpy_flipBits a)" if "0 \<notin> set a" for a
    using that by (auto simp: memcpy_flipBits_def not_eq_FF)
  show ?case
  proof (cases "0 \<in> set s")
    case False
    then show ?thesis using readUntil_append [OF fl [OF False], of rest] 1(2)
      by (subst readInvertedParts.simps) (auto simp: canPeek_def escaped_no_nul may_follow_def)
  next
    case True
    then obtain a s' where s: "s = a @ 0 # s'" "0 \<notin> set a" by (meson split_list_first)
    then have "readInvertedParts (memcpy_flipBits (escaped s') @ 0xFF # rest) = Inr (memcpy_flipBits s', rest)"
      using 1 by simp
    moreover have "memcpy_flipBits (escaped s) @ 0xFF # rest =
        memcpy_flipBits a @ 0xFF # 0 # memcpy_flipBits (escaped s') @ 0xFF # rest"
      and "memcpy_flipBits s = memcpy_flipBits a @ 0xFF # memcpy_flipBits s'"
      using s by (simp_all add: memcpy_flipBits_def escaped_no_nul)
    ultimately show ?thesis
      using readUntil_append [OF fl [OF s(2)], of "0 # memcpy_flipBits (escaped s') @ 0xFF # rest"]
      by (subst readInvertedParts.simps) (simp add: canPeek_def)
  qed
qed

lemma readStringField_flip:
  assumes "may_follow iv rest"
  shows "readStringField iv (flip_if iv (escaped s @ [0]) @ rest) = Inr (s, rest)"
proof (cases iv)
  case True
  have "flip_if True (escaped s @ [0]) @ rest = memcpy_flipBits (escaped s) @ 0xFF # rest"
    by (simp add: flip_if_def memcpy_flipBits_def)
  then show ?thesis using True assms readInvertedParts_escaped [of rest s]
    by (simp add: readStringField_def readInvertedCStringWithNuls_def memcpy_flipBits_def comp_def)
next
  case False
  show ?thesis
  proof (cases "0 \<in> set s")
    case nonul: False
    then show ?thesis using False assms readUntil_append [OF nonul, of rest]
      by (auto simp: readStringField_def readCStringWithNuls_def readCString_def flip_if_def
          escaped_no_nul may_follow_def canPeek_def)
  next
    case True
    then obtain a s' where s: "s = a @ 0 # s'" "0 \<notin> set a" by (meson split_list_first)
    then show ?thesis
      using False assms readUntil_append [OF s(2), of "0xFF # escaped s' @ 0 # rest"]
        readMoreParts_escaped [of rest s']
      by (simp add: readStringField_def readCStringWithNuls_def readCString_def flip_if_def
          escaped_no_nul canPeek_def)
  qed
qed

section \<open>Integers\<close>

lemma shiftInBytes_flip:
  "shiftInBytes (length bs) acc iv (flip_if iv bs @ rest)
     = Inr (push_bit (8 * length bs) acc OR be_word bs, rest)"
proof -
  have "shiftInBytes (length bs) acc iv (flip_if iv bs @ rest)
      = Inr (foldl (\<lambda>acc b. push_bit 8 acc OR ucast b) acc bs, rest)"
    by (induction bs arbitrary: acc) simp_all
  then show ?thesis by (simp add: foldl_be_word)
qed

definition int_ctype :: "bool \<Rightarrow> nat \<Rightarrow> u8" where
  "int_ctype neg n = (if neg then kNumericNegative1ByteInt - of_nat (n - 1)
                      else kNumericPositive1ByteInt + of_nat (n - 1))"

lemma int_ctype:
  assumes "1 \<le> n" "n \<le> 8"
  shows "numBytesForInt (int_ctype neg n) = n"
    and "int_ctype neg n \<le> kNumericNegative1ByteInt \<longleftrightarrow> neg"
    and "10 \<le> int_ctype neg n" "int_ctype neg n \<le> 240"
    and "toBsonValueCanonical D (int_ctype neg n) r iv = decodeInteger D (int_ctype neg n) r iv"
proof -
  have "n \<in> {1, 2, 3, 4, 5, 6, 7, 8}" using assms by auto
  then have c: "int_ctype neg n \<in> (if neg then {39, 38, 37, 36, 35, 34, 33, 32} else {43, 44, 45, 46, 47, 48, 49, 50})"
      "numBytesForInt (int_ctype neg n) = n"
    by (auto simp: int_ctype_def ctype_defs numBytesForInt_def)
  then show "numBytesForInt (int_ctype neg n) = n" by blast
  show "int_ctype neg n \<le> kNumericNegative1ByteInt \<longleftrightarrow> neg" "10 \<le> int_ctype neg n" "int_ctype neg n \<le> 240"
    using c(1) by (auto simp: ctype_defs split: if_splits)
  have "c \<in> {39, 38, 37, 36, 35, 34, 33, 32, 43, 44, 45, 46, 47, 48, 49, 50} \<Longrightarrow>
      toBsonValueCanonical D c r iv = decodeInteger D c r iv" for c
    by (elim insertE emptyE; simp add: toBsonValueCanonical.simps decodeLeaf_def ctype_defs)
  then show "toBsonValueCanonical D (int_ctype neg n) r iv = decodeInteger D (int_ctype neg n) r iv"
    using c(1) by (auto split: if_splits)
qed

lemma preshifted_bytes:
  assumes "v \<noteq> 0"
  defines "n \<equiv> (64 - countLeadingZeros64 v + 7) div 8"
  shows "1 \<le> n" "n \<le> 8" "be_word (be_bytes_n n v) = v"
proof -
  have "bitlen (uint v) \<le> 64" using uint_bounded [of v] by (intro bitlen_le) simp_all
  moreover have "0 < uint v" using assms(1) by (simp add: word_uint_eq_iff less_le)
  ultimately have len: "0 < bitlen (uint v)" "bitlen (uint v) \<le> 64"
    by (simp_all add: bitlen_pos)
  then have n: "n = (bitlen (uint v) + 7) div 8" by (simp add: n_def countLeadingZeros64_def)
  show "1 \<le> n" "n \<le> 8" using len unfolding n by linarith+
  have "bitlen (uint v) \<le> 8 * n" using n by linarith
  then have "(2 :: int) ^ bitlen (uint v) \<le> 2 ^ (8 * n)" by (intro power_increasing) simp_all
  then have "uint v < 2 ^ (8 * n)" using bitlen_upper [of "uint v"] by (simp del: power_increasing_iff)
  then have "take_bit (8 * n) v = v"
    by (simp only: word_uint_eq_iff unsigned_take_bit_eq) (simp add: take_bit_int_eq_self_iff)
  then show "be_word (be_bytes_n n v) = v" by (simp add: be_word_be_bytes_n)
qed

lemma uint_drop_bit: "uint (drop_bit n w) = uint (w :: 'a::len word) div 2 ^ n"
  using uint_bounded [of w]
  by (simp only: unsigned_drop_bit_eq) (simp add: drop_bit_eq_div take_bit_int_eq_self)

lemma shift_in_out:
  fixes m :: u64
  assumes "uint m < 2 ^ 63"
  shows "drop_bit 1 (push_bit 1 m) = m" "push_bit 1 m AND 1 = 0"
proof -
  have "uint (push_bit 1 m) = uint m * 2" using uint_push_bit [of m 1] assms by simp
  then have "uint (drop_bit 1 (push_bit 1 m)) = uint m" by (simp only: uint_drop_bit) simp
  then show "drop_bit 1 (push_bit 1 m) = m" by (simp only: word_uint_eq_iff)
  show "push_bit 1 m AND 1 = 0" by (simp add: and_one_eq mod_2_eq_odd)
qed

text \<open>The bytes of an integer magnitude, and what the decoder makes of them.\<close>

lemma preshifted_roundtrip:
  assumes m: "uint m < 2 ^ 63" "m \<noteq> 0" and v: "v = push_bit 1 m"
  defines "n \<equiv> (64 - countLeadingZeros64 v + 7) div 8"
  shows "ks_buffer (appendPreshiftedIntegerPortion v neg iv ks)
      = ks_buffer ks @ flip_if iv (int_ctype neg n # flip_if neg (be_bytes_n n v))"
    and "ks_version (appendPreshiftedIntegerPortion v neg iv ks) = ks_version ks"
    and "10 \<le> int_ctype neg n" "int_ctype neg n \<le> 240"
    and "toBsonValueCanonical D (int_ctype neg n) (flip_if iv (flip_if neg (be_bytes_n n v)) @ rest) iv
      = Inr (appendCanonicalInt (if neg then - m else m), rest)"
proof -
  have io: "drop_bit 1 v = m" "v AND 1 = 0" unfolding v by (rule shift_in_out [OF m(1)])+
  have "v \<noteq> 0" using io(1) m(2) by auto
  note pb = preshifted_bytes [OF this, folded n_def]
  note c = int_ctype [OF pb(1,2), where neg = neg]
  note fl = flip_if_neg [of neg iv "be_bytes_n n v"]
  show "ks_buffer (appendPreshiftedIntegerPortion v neg iv ks)
      = ks_buffer ks @ flip_if iv (int_ctype neg n # flip_if neg (be_bytes_n n v))"
    "ks_version (appendPreshiftedIntegerPortion v neg iv ks) = ks_version ks"
    unfolding appendPreshiftedIntegerPortion_def Let_def n_def [symmetric]
    by (simp_all add: int_ctype_def flip_if_Cons)
  show "10 \<le> int_ctype neg n" "int_ctype neg n \<le> 240" by (rule c)+
  have "shiftInBytes n 0 (if neg then \<not> iv else iv) (flip_if iv (flip_if neg (be_bytes_n n v)) @ rest) = Inr (v, rest)"
    using shiftInBytes_flip [of "be_bytes_n n v" 0 "if neg then \<not> iv else iv" rest] pb(3) fl by simp
  then show "toBsonValueCanonical D (int_ctype neg n) (flip_if iv (flip_if neg (be_bytes_n n v)) @ rest) iv
      = Inr (appendCanonicalInt (if neg then - m else m), rest)"
    unfolding c(5) decodeInteger_def Let_def c(2) c(1) using io by simp
qed

section \<open>One value\<close>

text \<open>The decoder makes \<open>v\<close> of the bytes \<open>p\<close>, whatever may follow them.\<close>

definition decodes :: "decimal_lib \<Rightarrow> bool \<Rightarrow> bytes \<Rightarrow> bson \<Rightarrow> bool" where
  "decodes D iv p v \<longleftrightarrow> p \<noteq> [] \<and> 10 \<le> p ! 0 \<and> p ! 0 \<le> 240 \<and>
     (\<forall>rest. may_follow iv rest \<longrightarrow> toBsonValueCanonical D (p ! 0) (flip_if iv (tl p) @ rest) iv = Inr (v, rest))"

definition appended :: "decimal_lib \<Rightarrow> bool \<Rightarrow> key_string \<Rightarrow> key_string \<Rightarrow> bson \<Rightarrow> bool" where
  "appended D iv ks ks' v \<longleftrightarrow> ks_version ks' = ks_version ks \<and>
     (\<exists>p. ks_buffer ks' = ks_buffer ks @ flip_if iv p \<and> decodes D iv p v)"

lemma appendedI:
  assumes "ks_buffer ks' = ks_buffer ks @ flip_if iv (c # p)" "ks_version ks' = ks_version ks"
    and "10 \<le> c" "c \<le> 240"
    and "\<And>rest. may_follow iv rest \<Longrightarrow> toBsonValueCanonical D c (flip_if iv p @ rest) iv = Inr (v, rest)"
  shows "appended D iv ks ks' v"
  unfolding appended_def decodes_def using assms by (intro conjI exI [of _ "c # p"]) simp_all

lemma toBsonValue_leaf:
  "c \<noteq> kObject \<Longrightarrow> c \<noteq> kArray \<Longrightarrow> c \<noteq> kCodeWithScope \<Longrightarrow>
     toBsonValueCanonical D c r iv = decodeLeaf D c r iv"
  by (simp add: toBsonValueCanonical.simps)

lemma bit_top:
  "bit (0x8000000000000000 :: u64) n \<longleftrightarrow> n = 63" "bit (0x4000000000000000 :: u64) n \<longleftrightarrow> n = 62"
  "bit (0x8000000000000000 :: int) n \<longleftrightarrow> n = 63" "bit (0x4000000000000000 :: int) n \<longleftrightarrow> n = 62"
  using bit_exp_iff [of 63 n, where 'a = "64 word"] bit_exp_iff [of 62 n, where 'a = "64 word"]
    bit_exp_iff [of 63 n, where 'a = int] bit_exp_iff [of 62 n, where 'a = int] by auto

lemma bit_62I: "2 ^ 62 \<le> uint (w :: u64) \<Longrightarrow> uint w < 2 ^ 63 \<Longrightarrow> bit w 62"
proof -
  assume "2 ^ 62 \<le> uint w" "uint w < 2 ^ 63"
  then have "uint w div 2 ^ 62 = 1" by (simp add: div_pos_geq)
  then have "bit (uint w) 62" by (simp add: bit_iff_odd)
  then show ?thesis by (simp add: bit_uint_iff)
qed

lemma sign_mag:
  "signbit d \<Longrightarrow> dbl_neg (dbl_mag d) = d" "\<not> signbit d \<Longrightarrow> dbl_mag d = d" "signbit d \<Longrightarrow> dbl_neg d = dbl_mag d"
  "dbl_mag (dbl_mag d) = dbl_mag d"
  by (auto intro!: bit_word_eqI simp: signbit_def dbl_mag_def dbl_neg_def bit_simps bit_top)
    (metis Suc_numeral less_antisym semiring_norm(2,5,8))

lemma signbit_mag: "\<not> signbit (dbl_mag d)"
  by (simp add: signbit_def dbl_mag_def bit_take_bit_iff)

lemma dbl_less_0: "dbl_less d 0 \<longleftrightarrow> \<not> isnan d \<and> signbit d \<and> dbl_mag d \<noteq> 0"
  and dbl_0_less: "dbl_less 0 d \<longleftrightarrow> \<not> isnan d \<and> \<not> signbit d \<and> dbl_mag d \<noteq> 0"
proof -
  have "\<not> isnan 0" "dbl_key 0 = 0" by (simp_all add: isnan_def dbl_mag_def dbl_key_def dbl_infinity_def)
  moreover have "0 < uint (dbl_mag d) \<longleftrightarrow> dbl_mag d \<noteq> 0"
    using uint_nonnegative [of "dbl_mag d"] uint_0_iff [of "dbl_mag d"] by linarith
  ultimately show "dbl_less d 0 \<longleftrightarrow> \<not> isnan d \<and> signbit d \<and> dbl_mag d \<noteq> 0"
    and "dbl_less 0 d \<longleftrightarrow> \<not> isnan d \<and> \<not> signbit d \<and> dbl_mag d \<noteq> 0"
    by (auto simp: dbl_less_def dbl_key_def)
qed

lemma large_double_bits:
  "bit (dbl_mag d) 62 \<Longrightarrow> drop_bit 1 (push_bit 1 d AND NOT (push_bit 63 1)) OR push_bit 62 1 = dbl_mag d"
  "(push_bit 1 d AND NOT (push_bit 63 1)) AND push_bit 63 1 = (0 :: u64)"
  "(push_bit 1 d AND NOT (push_bit 63 1)) AND 1 = (0 :: u64)"
proof -
  let ?e = "push_bit 1 d AND NOT (push_bit 63 1)"
  have e: "bit ?e n \<longleftrightarrow> 1 \<le> n \<and> n < 63 \<and> bit d (n - 1)" if "n < 64" for n
    using that by (simp only: bit_and_iff bit_not_iff bit_push_bit_iff bit_1_iff) auto
  show "drop_bit 1 ?e OR push_bit 62 1 = dbl_mag d" if "bit (dbl_mag d) 62"
  proof (rule bit_word_eqI)
    fix n assume "n < LENGTH(64)"
    then have "bit (drop_bit 1 ?e) n \<longleftrightarrow> n < 62 \<and> bit d n"
      using e [of "n + 1"] bit_imp_le_length [of ?e "n + 1"] by (simp only: bit_drop_bit_eq comp_def) auto
    moreover have "bit (push_bit 62 1 :: u64) n \<longleftrightarrow> n = 62"
      using bit_top(2) [of n] by simp
    ultimately show "bit (drop_bit 1 ?e OR push_bit 62 1) n = bit (dbl_mag d) n"
      using that unfolding bit_or_iff dbl_mag_def bit_take_bit_iff
      by (cases "n = 62") (simp_all, linarith)
  qed
  show "?e AND push_bit 63 1 = 0"
    by (simp only: and.assoc bit.conj_cancel_left) simp
  show "?e AND 1 = 0"
    using e [of 0] by (simp only: and_one_eq mod_2_eq_odd bit_0 [symmetric]) (simp only: of_bool_eq not_one_le_zero simp_thms zero_less_numeral)
qed

lemma readBig_signed:
  "readBig (if neg then \<not> iv else iv) (flip_if iv (flip_if neg (be_bytes w)) @ rest) = Inr (w :: u64, rest)"
  using readBig_flip [of "if neg then \<not> iv else iv" w rest] by (simp add: flip_if_neg)

lemma appendLargeDouble_ok:
  assumes d: "kMinLargeDouble \<le> dbl_mag d" "\<not> isnan d" and v1: "ks_version ks = V1"
  shows "\<exists>ks'. appendLargeDouble d kDCMEqualToDouble iv ks = Inr ks' \<and> appended D iv ks ks' (BDouble d)"
proof -
  have "dbl_mag d \<noteq> 0" using d(1) by (auto simp: kMinLargeDouble_def)
  then have pos: "dbl_less 0 d \<longleftrightarrow> \<not> signbit d" using d(2) by (simp add: dbl_0_less)
  define encoded :: u64 where "encoded = (if isfinite d then push_bit 1 d AND NOT (push_bit 63 1) else NOT 0)"
  define c where "c = (if signbit d then kNumericNegativeLargeMagnitude else kNumericPositiveLargeMagnitude)"
  have dec: "decodeLarge D (signbit d) (flip_if iv (flip_if (signbit d) (be_bytes encoded)) @ rest) iv = Inr (BDouble d, rest)" for rest
  proof (cases "isfinite d")
    case True
    have "0x43E0000000000000 \<le> uint (dbl_mag d)" using d(1) by (simp add: kMinLargeDouble_def word_le_def)
    then have b62: "bit (dbl_mag d) 62" using dbl_mag_less [of d] by (intro bit_62I) simp_all
    have "drop_bit 1 encoded OR push_bit 62 1 = dbl_mag d"
      using large_double_bits(1) [OF b62] True by (simp only: encoded_def if_True)
    moreover have "encoded AND push_bit 63 1 = 0" "encoded AND 1 = 0"
      using large_double_bits(2,3) [of d] True by (simp_all only: encoded_def if_True)
    ultimately show ?thesis
      unfolding decodeLarge_def Let_def readBig_signed rbind_Inr prod.case dbl_neg_if_def
      using sign_mag(1,2) [of d] by simp
  next
    case False
    then have "dbl_mag d = dbl_infinity" using d(2) by (auto simp: isfinite_def isnan_def)
    then have "d = (if signbit d then dbl_neg dbl_infinity else dbl_infinity)"
      using sign_mag(1,2) [of d] by auto
    then show ?thesis
      unfolding decodeLarge_def Let_def readBig_signed rbind_Inr prod.case
      using False by (simp add: encoded_def)
  qed
  have "appendLargeDouble d kDCMEqualToDouble iv ks =
      Inr (ks_appendBig encoded (if signbit d then \<not> iv else iv) (ks_append8 c iv ks))"
    using v1 by (simp add: appendLargeDouble_def Let_def pos encoded_def c_def)
  moreover have "appended D iv ks (ks_appendBig encoded (if signbit d then \<not> iv else iv) (ks_append8 c iv ks)) (BDouble d)"
  proof (rule appendedI [of _ _ _ c "flip_if (signbit d) (be_bytes encoded)"])
    show "toBsonValueCanonical D c (flip_if iv (flip_if (signbit d) (be_bytes encoded)) @ rest) iv = Inr (BDouble d, rest)" for rest
      using dec [of rest] by (cases "signbit d") (simp_all add: c_def toBsonValue_leaf decodeLeaf_def ctype_defs)
  qed (auto simp: c_def ctype_defs flip_if_Cons flip_if_neg)
  ultimately show ?thesis by blast
qed

lemma bit_63_iff: "bit (w :: u64) 63 \<longleftrightarrow> 2 ^ 63 \<le> uint w"
proof -
  have "uint w div 2 ^ 63 = (if 2 ^ 63 \<le> uint w then 1 else 0)"
    using uint_bounded [of w] by (simp add: div_pos_geq)
  moreover have "bit w 63 \<longleftrightarrow> odd (uint w div 2 ^ 63)"
    using bit_uint_iff [of w 63] bit_iff_odd [of "uint w" 63] by simp
  ultimately show ?thesis by simp
qed

lemma sint_u64: "sint (w :: u64) = (if uint w < 2 ^ 63 then uint w else uint w - 2 ^ 64)"
  using uint_bounded [of w] bit_63_iff [of w]
  by (simp add: sint_uint signed_take_bit_eq_if_positive signed_take_bit_eq_if_negative bit_uint_iff
      signed_take_bit_eq_take_bit_minus take_bit_int_eq_self flip: not_less)

lemma uint_neg: "w \<noteq> 0 \<Longrightarrow> uint (- w :: u64) = 2 ^ 64 - uint w"
proof -
  assume "w \<noteq> 0"
  then have "uint w \<noteq> 0" by (simp add: uint_0_iff)
  then show ?thesis
    using uint_bounded [of w] by (simp add: uint_word_ariths zmod_zminus1_eq_if)
qed

lemma appendInteger_ok:
  assumes v1: "ks_version ks = V1"
  shows "\<exists>ks'. appendInteger num iv ks = Inr ks' \<and> appended D iv ks ks' (canonical_long num)"
proof -
  consider "num = push_bit 63 1" | "num = 0" | "num \<noteq> push_bit 63 1" "num \<noteq> 0" by blast
  then show ?thesis
  proof cases
    case 1
    have "kMinLargeDouble \<le> dbl_mag 0xC3E0000000000000" "\<not> isnan 0xC3E0000000000000"
      by (simp_all add: kMinLargeDouble_def dbl_mag_def isnan_def dbl_infinity_def)
    from appendLargeDouble_ok [OF this v1, of iv D] show ?thesis
      using 1 by (simp add: appendInteger_def canonical_long_def)
  next
    case 2
    have "appended D iv ks (ks_append8 kNumericZero iv ks) (BInt 0)"
      by (rule appendedI [of _ _ _ kNumericZero "[]"]) (simp_all add: toBsonValue_leaf decodeLeaf_def ctype_defs)
    then show ?thesis using 2 by (simp add: appendInteger_def canonical_long_def appendCanonicalInt_def)
  next
    case 3
    define neg where "neg = (num <s 0)"
    define m where "m = (if neg then - num else num)"
    have neg: "neg \<longleftrightarrow> 2 ^ 63 \<le> uint num"
      using sint_u64 [of num] uint_bounded [of num] by (auto simp: neg_def word_sless_alt)
    have "uint num \<noteq> 2 ^ 63" using 3(1) by (simp add: word_uint_eq_iff)
    then have m: "uint m < 2 ^ 63" "m \<noteq> 0"
      using neg 3(2) uint_neg [OF 3(2)] by (auto simp: m_def)
    note pr = preshifted_roundtrip [OF m refl, where neg = neg]
    have "appended D iv ks (appendPreshiftedIntegerPortion (push_bit 1 m) neg iv ks)
        (appendCanonicalInt (if neg then - m else m))"
      by (rule appendedI [OF pr(1,2,3,4,5)])
    moreover have "(if neg then - m else m) = num" by (simp add: m_def)
    ultimately show ?thesis
      using 3 unfolding appendInteger_def canonical_long_def Let_def neg_def [symmetric] m_def [symmetric]
      by simp
  qed
qed

section \<open>Doubles\<close>

lemma dbl_order_mag:
  assumes "dbl_mag d = d" "dbl_mag e = e" "\<not> isnan d" "\<not> isnan e"
  shows "dbl_le d e \<longleftrightarrow> d \<le> e" "dbl_less d e \<longleftrightarrow> d < e" "dbl_eq d e \<longleftrightarrow> d = e"
proof -
  have s: "\<not> signbit d" "\<not> signbit e"
    using assms(1,2) by (metis bit_take_bit_iff dbl_mag_def less_irrefl signbit_def)+
  then show "dbl_le d e \<longleftrightarrow> d \<le> e" "dbl_less d e \<longleftrightarrow> d < e" "dbl_eq d e \<longleftrightarrow> d = e"
    using assms by (simp_all add: dbl_le_def dbl_less_def dbl_eq_def dbl_key_def word_le_def word_less_def word_uint_eq_iff)
qed

lemma dbl_constants:
  "dbl_mag dbl_one = dbl_one" "\<not> isnan dbl_one"
  "dbl_mag kMinLargeDouble = kMinLargeDouble" "\<not> isnan kMinLargeDouble"
  "dbl_mag kTiniestDoubleWith2BitDCM = kTiniestDoubleWith2BitDCM" "\<not> isnan kTiniestDoubleWith2BitDCM"
  by (simp_all add: dbl_one_def kMinLargeDouble_def kTiniestDoubleWith2BitDCM_def dbl_mag_def isnan_def dbl_infinity_def)

text \<open>A positive double below one that keeps two bits for the marker.\<close>

lemma small_double_bits:
  assumes "kTiniestDoubleWith2BitDCM \<le> m" "m < dbl_one"
  shows "drop_bit 62 (push_bit 2 m) = 3" "drop_bit 2 (push_bit 2 m) = m" "push_bit 2 m AND 3 = 0"
proof -
  have b: "0x3000000000000000 \<le> uint m" "uint m < 0x3FF0000000000000"
    using assms by (simp_all add: kTiniestDoubleWith2BitDCM_def dbl_one_def word_le_def word_less_def)
  then have u: "uint (push_bit 2 m) = uint m * 4" using uint_push_bit [of m 2] by simp
  have "uint (drop_bit 62 (push_bit 2 m)) = 3" unfolding uint_drop_bit u using b by simp
  then show "drop_bit 62 (push_bit 2 m) = 3" by (simp add: word_uint_eq_iff)
  have "uint (drop_bit 2 (push_bit 2 m)) = uint m" unfolding uint_drop_bit u by simp
  then show "drop_bit 2 (push_bit 2 m) = m" by (simp only: word_uint_eq_iff)
  have "take_bit 2 (push_bit 2 m) = 0" by (simp only: take_bit_push_bit) simp
  then show "push_bit 2 m AND 3 = 0" by (simp add: take_bit_eq_mask mask_eq_exp_minus_1)
qed

text \<open>A scaled tiny double, with one bit for the marker.\<close>

lemma tiny_double_bits:
  fixes w :: u64
  assumes "uint w < 2 ^ 62"
  defines "e \<equiv> push_bit 1 w + push_bit 62 1"
  shows "drop_bit 62 e = 1 \<or> drop_bit 62 e = 2" "e AND 1 = 0" "drop_bit 1 (e - push_bit 62 1) = w"
proof -
  have p: "uint (push_bit 1 w) = uint w * 2" using uint_push_bit [of w 1] assms(1) by simp
  have "uint e = uint w * 2 + 2 ^ 62"
    unfolding e_def using p assms(1) by (simp add: uint_plus_if_size word_size)
  then have "1 * 2 ^ 62 \<le> uint e" "uint e < 3 * 2 ^ 62" using assms(1) by simp_all
  then have "1 \<le> uint (drop_bit 62 e)" "uint (drop_bit 62 e) < 3"
    unfolding uint_drop_bit by (intro int_div_bounds; simp)+
  then have "uint (drop_bit 62 e) = 1 \<or> uint (drop_bit 62 e) = 2" by linarith
  then show "drop_bit 62 e = 1 \<or> drop_bit 62 e = 2" by (auto simp: word_uint_eq_iff)
  show "e AND 1 = 0" by (simp add: e_def and_one_eq mod_2_eq_odd)
  have "e - push_bit 62 1 = push_bit 1 w" by (simp add: e_def)
  then show "drop_bit 1 (e - push_bit 62 1) = w"
    using shift_in_out(1) [of w] assms(1) by simp
qed

lemma appendSmallDouble_ok:
  assumes d: "dbl_mag d \<noteq> 0" "dbl_mag d < dbl_one" and v1: "ks_version ks = V1"
  shows "\<exists>ks'. appendSmallDouble d kDCMEqualToDouble iv ks = Inr ks' \<and> appended D iv ks ks' (BDouble d)"
proof -
  define m where "m = dbl_mag d"
  have nan: "\<not> isnan d" "\<not> isnan m"
    using d(2) by (simp_all add: m_def isnan_def dbl_one_def dbl_infinity_def sign_mag word_less_def)
  have neg: "dbl_less d 0 \<longleftrightarrow> signbit d" using d(1) nan by (simp add: dbl_less_0)
  have mag: "(if signbit d then dbl_neg d else d) = m" "dbl_neg_if (signbit d) m = d" "dbl_mag m = m"
    by (simp_all add: m_def sign_mag dbl_neg_if_def)
  define c where "c = (if signbit d then kNumericNegativeSmallMagnitude else kNumericPositiveSmallMagnitude)"
  define e where "e = (if kTiniestDoubleWith2BitDCM \<le> m then push_bit 2 m
    else push_bit 1 (dbl_ldexp m kTinyDoubleExponentShift) + push_bit 62 1)"
  have dec: "decodeSmall D (signbit d) (flip_if iv (flip_if (signbit d) (be_bytes e)) @ rest) iv = Inr (BDouble d, rest)" for rest
  proof (cases "kTiniestDoubleWith2BitDCM \<le> m")
    case True
    note b = small_double_bits [OF True d(2) [folded m_def]]
    then show ?thesis
      unfolding decodeSmall_def Let_def readBig_signed rbind_Inr prod.case
      using True mag(2) by (simp add: e_def)
  next
    case False
    then have "uint m < 768 * 2 ^ 52" by (simp add: kTiniestDoubleWith2BitDCM_def word_le_def)
    then have "dbl_expo m < 768" unfolding dbl_expo_def mag(3) by (intro int_div_bounds) simp_all
    note t = dbl_ldexp_tiny [OF mag(3) _ this]
    have t: "uint (dbl_ldexp m 256) < 2 ^ 62" "dbl_ldexp (dbl_ldexp m 256) (- 256) = m"
      using t d(1) by (simp_all add: m_def)
    note b = tiny_double_bits [OF t(1)]
    have e: "e = push_bit 1 (dbl_ldexp m 256) + push_bit 62 1"
      using False by (simp add: e_def kTinyDoubleExponentShift_def)
    have "drop_bit 62 e \<noteq> 0" using b(1) unfolding e by auto
    then show ?thesis
      unfolding decodeSmall_def Let_def readBig_signed rbind_Inr prod.case
      using b [folded e] t(2) mag(2) by (simp add: kTinyDoubleExponentShift_def)
  qed
  have "appendSmallDouble d kDCMEqualToDouble iv ks =
      Inr (ks_appendBig e (if signbit d then \<not> iv else iv) (ks_append8 c iv ks))"
    using v1 dbl_order_mag(1) [OF dbl_constants(5) mag(3) dbl_constants(6) nan(2)]
    unfolding appendSmallDouble_def Let_def neg mag(1) by (simp add: e_def c_def)
  moreover have "appended D iv ks (ks_appendBig e (if signbit d then \<not> iv else iv) (ks_append8 c iv ks)) (BDouble d)"
  proof (rule appendedI [of _ _ _ c "flip_if (signbit d) (be_bytes e)"])
    show "toBsonValueCanonical D c (flip_if iv (flip_if (signbit d) (be_bytes e)) @ rest) iv = Inr (BDouble d, rest)" for rest
      using dec [of rest] by (cases "signbit d") (simp_all add: c_def toBsonValue_leaf decodeLeaf_def ctype_defs)
  qed (auto simp: c_def ctype_defs flip_if_Cons flip_if_neg)
  ultimately show ?thesis by blast
qed

lemma be_bytes_n_split:
  "be_bytes_n (i + j) w = be_bytes_n i (drop_bit (8 * j) w) @ be_bytes_n j w"
  by (induction i) (simp_all add: distrib_left add.commute)

lemma uint_add_exact: "uint a + uint b < 2 ^ LENGTH('a) \<Longrightarrow> uint (a + b :: 'a::len word) = uint a + uint b"
  by (simp add: uint_plus_if_size word_size)

lemma and_not_disjoint: "a AND b = 0 \<Longrightarrow> a AND NOT b = (a :: 'a::len word)"
proof (rule bit_word_eqI)
  fix n assume "a AND b = 0" "n < LENGTH('a)"
  then show "bit (a AND NOT b) n = bit a n"
    using bit_and_iff [of a b n] by (auto simp: bit_and_iff bit_not_iff)
qed

lemma push_take_or:
  "push_bit k a OR take_bit k b = push_bit k a + take_bit k (b :: 'a::len word)"
  by (rule disjunctive_add [symmetric]) (auto simp: bit_simps)

lemma and_3_iff: "w AND 3 = 0 \<longleftrightarrow> uint (w :: u64) mod 4 = 0"
proof -
  have "w AND 3 = take_bit 2 w" by (simp add: take_bit_eq_mask mask_eq_exp_minus_1)
  moreover have "uint (take_bit 2 w) = uint w mod 4"
    by (simp only: unsigned_take_bit_eq) (simp add: take_bit_eq_mod)
  ultimately show ?thesis by (metis uint_0_iff)
qed

text \<open>
  The word of a number with a fraction: above the fractional bytes the doubled integer part plus
  one, and the fixed-point value when the integer part is shifted in again over the low bytes.
\<close>

lemma fraction_word:
  fixes ip enc :: u64
  assumes fb: "0 < fb" "fb < 8"
    and enc: "uint ip * 2 ^ (8 * fb) \<le> uint enc" "uint enc < (uint ip + 1) * 2 ^ (8 * fb)"
    and fits: "(2 * uint ip + 2) * 2 ^ (8 * fb) \<le> 2 ^ 64" and four: "uint enc mod 4 = 0"
  defines "W \<equiv> enc + push_bit (fb * 8) (ip + 1)"
  shows "W AND 3 = 0" "drop_bit (8 * fb) W AND 1 \<noteq> 0" "drop_bit 1 (drop_bit (8 * fb) W) = ip"
    and "push_bit (8 * fb) ip OR take_bit (8 * fb) W = enc"
proof -
  define P :: int where "P = 2 ^ (8 * fb)"
  define i where "i = uint ip"
  obtain k where k: "fb = Suc k" using fb(1) by (cases fb) simp_all
  then have P: "0 < P" "P mod 4 = 0" "256 \<le> P" by (simp_all add: P_def power_add)
  have i: "0 \<le> i" "i * P \<le> uint enc" "uint enc < (i + 1) * P" "(2 * i + 2) * P \<le> 2 ^ 64"
    using enc fits by (simp_all add: i_def P_def)
  then have le: "(i + 1) * P \<le> 2 ^ 63" by (simp add: algebra_simps)
  have "(i + 1) * 256 \<le> (i + 1) * P" using i(1) P(3) by (intro mult_left_mono) simp_all
  then have "i + 1 < 2 ^ 64" using le by simp
  then have ip1: "uint (ip + 1) = i + 1" by (simp add: uint_add_exact i_def)
  have psh: "uint (push_bit (fb * 8) (ip + 1)) = (i + 1) * P"
    using uint_push_bit [of "ip + 1" "fb * 8"] le by (simp add: ip1 P_def mult.commute [of fb])
  have W: "uint W = uint enc + (i + 1) * P"
    unfolding W_def using i(3) le psh by (subst uint_add_exact) simp_all
  have "uint W mod 4 = 0" using P(2) four unfolding W mod_eq_0_iff_dvd by (intro dvd_add dvd_mult)
  then show "W AND 3 = 0" by (simp add: and_3_iff)
  define r where "r = uint enc - i * P"
  have r: "0 \<le> r" "r < P" "uint W = (2 * i + 1) * P + r" using i W by (simp_all add: r_def algebra_simps)
  have hi: "uint (drop_bit (8 * fb) W) = 2 * i + 1"
    unfolding uint_drop_bit P_def [symmetric] r(3) using r(1,2) P(1) by simp
  have "uint (drop_bit (8 * fb) W AND 1) = 1"
    by (simp only: unsigned_and_eq hi) (simp add: and_one_eq)
  then show "drop_bit (8 * fb) W AND 1 \<noteq> 0" by force
  have "uint (drop_bit 1 (drop_bit (8 * fb) W)) = i" unfolding uint_drop_bit [of 1] hi by simp
  then show "drop_bit 1 (drop_bit (8 * fb) W) = ip" by (simp only: word_uint_eq_iff i_def)
  have lo: "uint (take_bit (8 * fb) W) = r"
    by (simp only: unsigned_take_bit_eq) (use r P(1) in \<open>simp add: take_bit_eq_mod flip: P_def\<close>)
  have "i * P < 2 ^ LENGTH(64)" using i(2) uint_bounded [of enc] by simp
  then have "uint (push_bit (8 * fb) ip) = i * P"
    using uint_push_bit [of ip "8 * fb"] by (simp add: i_def P_def)
  moreover have "i * P + r < 2 ^ 64" using le i(3) by (simp add: r_def)
  ultimately have "uint (push_bit (8 * fb) ip OR take_bit (8 * fb) W) = i * P + r"
    unfolding push_take_or using lo by (subst uint_add_exact) simp_all
  then show "push_bit (8 * fb) ip OR take_bit (8 * fb) W = enc"
    by (simp only: word_uint_eq_iff r_def)
qed

lemma appendFractionV1_ok:
  assumes m: "dbl_mag m = m" "dbl_one \<le> m" "m < kMinLargeDouble" "\<not> dbl_integral m"
  shows "\<exists>ks'. appendFractionV1 m (dbl_to_u64 m) kDCMEqualToDouble neg iv ks = Inr ks' \<and>
    appended D iv ks ks' (BDouble (dbl_neg_if neg m))"
proof -
  have m': "0x3FF0000000000000 \<le> m" "m < 0x43E0000000000000"
    using m(2,3) by (simp_all add: dbl_one_def kMinLargeDouble_def)
  define fb ip where "fb = frac_bytes m" and "ip = dbl_to_u64 m"
  define enc where "enc = dbl_to_u64 (dbl_ldexp m (8 * int fb))"
  define W where "W = enc + push_bit (fb * 8) (ip + 1)"
  note fbb = frac_bytes_bounds [OF m(1) m' m(4), folded fb_def]
  note fr = dbl_fraction [OF m(1) m' m(4), folded fb_def, folded enc_def ip_def]
  note mid = dbl_mid_parts [OF m(1) m'] dbl_mant_bounds(2) [of m]
  have "uint ip < 2 ^ nat (dbl_scale m + 53)"
    using dbl_trunc_bounds [OF mid(1) mid(5) mid(2,3)] uint_dbl_to_u64(1) [OF m(1) m'] by (simp add: ip_def)
  then have "(2 * uint ip + 2) * 2 ^ (8 * fb) \<le> (2 * 2 ^ nat (dbl_scale m + 53)) * 2 ^ (8 * fb)"
    by (intro mult_right_mono) simp_all
  also have "\<dots> = 2 ^ (1 + nat (dbl_scale m + 53) + 8 * fb)" by (simp add: power_add)
  also have "\<dots> \<le> (2 :: int) ^ 64" using fbb mid(2) by (intro power_increasing) simp_all
  finally have fits: "(2 * uint ip + 2) * 2 ^ (8 * fb) \<le> 2 ^ 64" .
  note w = fraction_word [OF fbb(3,4) fr(3,4) fits fr(2), folded W_def]
  define n where "n = 8 - fb"
  have n: "1 \<le> n" "n \<le> 8" "n + fb = 8" "8 - n = fb" using fbb(3,4) by (simp_all add: n_def)
  note c = int_ctype [OF n(1,2), where neg = neg]
  define hi where "hi = be_bytes_n n (drop_bit (8 * fb) W)"
  define lo where "lo = be_bytes_n fb W"
  have split: "be_bytes W = hi @ lo"
    using be_bytes_n_split [of n fb W] n(3) by (simp add: be_bytes_def hi_def lo_def)
  have "take_bit (8 * n) (drop_bit (8 * fb) W) = drop_bit (8 * fb) W"
  proof (rule bit_word_eqI)
    show "bit (take_bit (8 * n) (drop_bit (8 * fb) W)) j = bit (drop_bit (8 * fb) W) j" for j
      using bit_imp_le_length [of W "8 * fb + j"] n(3) by (auto simp: bit_take_bit_iff bit_drop_bit_eq)
  qed
  then have words: "be_word hi = drop_bit (8 * fb) W" "be_word lo = take_bit (8 * fb) W"
    by (simp_all add: hi_def lo_def be_word_be_bytes_n)
  let ?iv = "if neg then \<not> iv else iv"
  have enc3: "enc AND 3 = 0" using fr(2) by (simp add: and_3_iff)
  note enc = and_not_disjoint [OF enc3] enc3
  have dec: "toBsonValueCanonical D (int_ctype neg n) (flip_if iv (flip_if neg (be_bytes W)) @ rest) iv
      = Inr (BDouble (dbl_neg_if neg m), rest)" for rest
  proof -
    have fl: "flip_if iv (flip_if neg (be_bytes W)) @ rest = flip_if ?iv hi @ flip_if ?iv lo @ rest"
      by (simp add: split flip_if_neg)
    have s1: "shiftInBytes n 0 ?iv (flip_if ?iv hi @ flip_if ?iv lo @ rest) = Inr (drop_bit (8 * fb) W, flip_if ?iv lo @ rest)"
      using shiftInBytes_flip [of hi 0 ?iv "flip_if ?iv lo @ rest"] by (simp add: words hi_def [THEN arg_cong [of _ _ length]])
    have s2: "shiftInBytes fb ip ?iv (flip_if ?iv lo @ rest) = Inr (enc, rest)"
      using shiftInBytes_flip [of lo ip ?iv rest] w(4) by (simp add: words lo_def [THEN arg_cong [of _ _ length]])
    show ?thesis
      unfolding c(5) decodeInteger_def Let_def c(2) c(1) fl s1 rbind_Inr prod.case w(3) n(4) s2 enc
      using w(2) fbb(3) fr(5) by simp
  qed
  have "appendFractionV1 m ip kDCMEqualToDouble neg iv ks =
      Inr (ks_appendBig W ?iv (ks_append8 (int_ctype neg n) iv ks))"
  proof -
    have "int_ctype neg n = (if neg then kNumericNegative8ByteInt + of_nat fb else kNumericPositive8ByteInt - of_nat fb)"
      using fbb(3,4) by (auto simp: int_ctype_def ctype_defs n_def of_nat_diff)
    then show ?thesis
      using w(1) by (simp add: appendFractionV1_def Let_def enc_def W_def fb_def ip_def frac_bytes_def)
  qed
  moreover have "appended D iv ks (ks_appendBig W ?iv (ks_append8 (int_ctype neg n) iv ks)) (BDouble (dbl_neg_if neg m))"
    by (rule appendedI [of _ _ _ "int_ctype neg n" "flip_if neg (be_bytes W)"])
      (auto simp: c(3,4) dec flip_if_Cons flip_if_neg)
  ultimately show ?thesis by (auto simp: ip_def)
qed

lemma dbl_round_positive:
  assumes "0 \<le> m"
  shows "dbl_mag (dbl_round m e) = dbl_round m e" "\<not> isnan (dbl_round m e)"
proof -
  obtain x where x: "dbl_round m e = word_of_int x" "0 \<le> x" "x \<le> uint dbl_infinity"
  proof (cases "m = 0")
    case False
    define q where "q = max (int (bitlen m) + e - 53) (-1074)"
    define M where "M = (if q \<le> e then m * 2 ^ nat (e - q)
      else let k = nat (q - e); d = m div 2 ^ k; r = m mod 2 ^ k
           in if 2 ^ k < 2 * r \<or> (2 ^ k = 2 * r \<and> odd d) then d + 1 else d)"
    have "0 \<le> M" using assms by (simp add: M_def Let_def pos_imp_zdiv_nonneg_iff)
    moreover have "0 \<le> q + 1074" by (simp add: q_def)
    ultimately have "0 \<le> min ((q + 1074) * 2 ^ 52 + M) (uint dbl_infinity)" by simp
    moreover have "dbl_round m e = word_of_int (min ((q + 1074) * 2 ^ 52 + M) (uint dbl_infinity))"
      using False unfolding dbl_round_def q_def [symmetric] M_def Let_def by simp
    ultimately show ?thesis using that by (metis min.cobounded2)
  qed (use that [of 0] in \<open>simp add: dbl_round_def\<close>)
  then have u: "uint (dbl_round m e) = x"
    by (simp add: uint_word_of_int_exact dbl_infinity_def)
  then have "uint (dbl_mag (dbl_round m e)) = uint (dbl_round m e)"
    using x(2,3) by (simp add: uint_dbl_mag dbl_infinity_def)
  then show mag: "dbl_mag (dbl_round m e) = dbl_round m e" by (simp add: word_uint_eq_iff)
  show "\<not> isnan (dbl_round m e)" using u x(3) by (simp add: isnan_def mag word_less_def)
qed

lemma appendDouble_ok:
  assumes v1: "ks_version ks = V1"
  shows "\<exists>ks'. appendDoubleWithoutTypeBits d kDCMEqualToDouble iv ks = Inr ks' \<and>
    appended D iv ks ks' (canonical_double d)"
proof -
  define m where "m = dbl_mag d"
  have mag: "dbl_mag m = m" by (simp add: m_def sign_mag)
  have nanm: "isnan m = isnan d" by (simp add: m_def isnan_def sign_mag)
  have byte: "appended D iv ks (ks_append8 c iv ks) v"
    if "10 \<le> c" "c \<le> 240" "\<And>r. toBsonValueCanonical D c r iv = Inr (v, r)" for c v
    by (rule appendedI [of _ _ _ c "[]"]) (use that in simp_all)
  consider "isnan d" | "\<not> isnan d" "m = 0" | "\<not> isnan d" "m \<noteq> 0" "m < dbl_one"
    | "\<not> isnan d" "dbl_one \<le> m" "m < kMinLargeDouble" | "\<not> isnan d" "kMinLargeDouble \<le> m"
    by (meson linorder_not_le)
  then show ?thesis
  proof cases
    case 1
    have "appended D iv ks (ks_append8 kNumericNaN iv ks) (BDouble dbl_quiet_NaN)"
      by (rule byte) (simp_all add: toBsonValue_leaf decodeLeaf_def ctype_defs)
    then show ?thesis
      using 1 by (simp add: appendDoubleWithoutTypeBits_def dbl_less_def dbl_le_def dbl_eq_def canonical_double_def)
  next
    case 2
    have "appended D iv ks (ks_append8 kNumericZero iv ks) (BInt 0)"
      by (rule byte) (simp_all add: toBsonValue_leaf decodeLeaf_def ctype_defs)
    moreover have "dbl_key d = 0" "\<not> dbl_le dbl_one d" "dbl_eq d 0"
      using 2 by (simp_all add: dbl_key_def dbl_le_def dbl_eq_def dbl_one_def m_def dbl_mag_def signbit_def
          isnan_def dbl_infinity_def)
    ultimately show ?thesis
      using 2 by (simp add: appendDoubleWithoutTypeBits_def dbl_less_0 dbl_0_less canonical_double_def m_def)
  next
    case 3
    then have "dbl_less d 0 \<longleftrightarrow> signbit d" by (simp add: dbl_less_0 m_def)
    then have md: "(if dbl_less d 0 then dbl_neg d else d) = m" by (simp add: m_def sign_mag)
    have "\<not> signbit m" using signbit_mag [of m] mag by simp
    then have "dbl_less 0 m" using 3 nanm mag by (simp add: dbl_0_less)
    moreover have "\<not> dbl_le dbl_one m"
      using 3 dbl_order_mag(1) [OF dbl_constants(1) mag dbl_constants(2)] nanm by (simp add: not_le)
    moreover have "canonical_double d = BDouble d" using 3 by (auto simp: canonical_double_def m_def)
    ultimately show ?thesis
      using appendSmallDouble_ok [of d ks iv D] 3 v1
      unfolding appendDoubleWithoutTypeBits_def Let_def md by (simp add: m_def)
  next
    case 4
    then have "m \<noteq> 0" by (auto simp: dbl_one_def)
    then have neg: "dbl_less d 0 \<longleftrightarrow> signbit d" using 4 by (simp add: dbl_less_0 m_def)
    then have md: "(if signbit d then dbl_neg d else d) = m" by (simp add: m_def sign_mag)
    have ord: "dbl_le dbl_one m" "dbl_less m kMinLargeDouble"
      using 4 dbl_order_mag(1) [OF dbl_constants(1) mag dbl_constants(2)]
        dbl_order_mag(2) [OF mag dbl_constants(3) _ dbl_constants(4)] nanm by auto
    have m': "0x3FF0000000000000 \<le> m" "m < 0x43E0000000000000"
      using 4 by (simp_all add: dbl_one_def kMinLargeDouble_def)
    have "dbl_mag (u64_to_dbl (dbl_to_u64 m)) = u64_to_dbl (dbl_to_u64 m)" "\<not> isnan (u64_to_dbl (dbl_to_u64 m))"
      by (simp_all add: u64_to_dbl_def dbl_round_positive)
    then have test: "dbl_eq (u64_to_dbl (dbl_to_u64 m)) m \<longleftrightarrow> dbl_integral m"
      using dbl_order_mag(3) [OF _ mag] dbl_integer_test [OF mag m'] nanm 4(1) by simp
    have same: "dbl_to_u64 d = dbl_to_u64 m" "dbl_integral d = dbl_integral m"
      by (simp_all add: dbl_to_u64_def dbl_integral_def dbl_mant_def dbl_scale_def dbl_expo_def m_def sign_mag)
    show ?thesis
    proof (cases "dbl_integral m")
      case True
      have u: "uint (dbl_to_u64 m) < 2 ^ 63" "dbl_to_u64 m \<noteq> 0"
        using uint_dbl_to_u64 [OF mag m'] by auto
      note pr = preshifted_roundtrip [OF u refl, where neg = "signbit d"]
      have "appended D iv ks (appendPreshiftedIntegerPortion (push_bit 1 (dbl_to_u64 m)) (signbit d) iv ks) (canonical_double d)"
        using appendedI [OF pr(1,2,3,4,5), of D iv ks] 4 True \<open>m \<noteq> 0\<close> same
        by (cases "signbit d") (simp_all add: canonical_double_def flip: m_def)
      then show ?thesis
        using ord test True unfolding appendDoubleWithoutTypeBits_def Let_def neg md by simp
    next
      case False
      have "canonical_double d = BDouble (dbl_neg_if (signbit d) m)"
        using 4 False \<open>m \<noteq> 0\<close> same by (simp add: canonical_double_def dbl_neg_if_def m_def sign_mag)
      then show ?thesis
        using appendFractionV1_ok [OF mag 4(2,3) False, of "signbit d" iv ks D] ord test False v1
        unfolding appendDoubleWithoutTypeBits_def Let_def neg md by simp
    qed
  next
    case 5
    then have "m \<noteq> 0" by (auto simp: kMinLargeDouble_def)
    then have neg: "dbl_less d 0 \<longleftrightarrow> signbit d" using 5 by (simp add: dbl_less_0 m_def)
    then have md: "(if signbit d then dbl_neg d else d) = m" by (simp add: m_def sign_mag)
    have "dbl_one \<le> m" using 5(2) by (rule order_trans [rotated]) (simp add: dbl_one_def kMinLargeDouble_def)
    then have ord: "dbl_le dbl_one m" "\<not> dbl_less m kMinLargeDouble"
      using 5 dbl_order_mag(1) [OF dbl_constants(1) mag dbl_constants(2)]
        dbl_order_mag(2) [OF mag dbl_constants(3) _ dbl_constants(4)] nanm by auto
    have "canonical_double d = BDouble d" using 5 \<open>m \<noteq> 0\<close> by (auto simp: canonical_double_def m_def)
    then show ?thesis
      using appendLargeDouble_ok [of d ks iv D] 5 v1 ord
      unfolding appendDoubleWithoutTypeBits_def Let_def neg md by (simp add: m_def)
  qed
qed

end
