(* ===== verification/Key_Roundtrip.thy ===== *)
theory Key_Roundtrip
  imports Key_Leaves Eloq_Key_Record
begin

text \<open>
  That the decoder of logged keys inverts the key encoding: every value, nested objects and arrays
  included, whole keys, and the logged form of an \<open>_id\<close> key.
\<close>

section \<open>Leaves\<close>

lemma appendedI_leaf:
  assumes "ks_buffer ks' = ks_buffer ks @ flip_if iv (c # p)" "ks_version ks' = ks_version ks"
    and "10 \<le> c" "c \<le> 240" "c \<noteq> kObject" "c \<noteq> kArray" "c \<noteq> kCodeWithScope"
    and "\<And>rest. may_follow iv rest \<Longrightarrow> decodeLeaf D c (flip_if iv p @ rest) iv = Inr (v, rest)"
  shows "appended D iv ks ks' v"
  by (rule appendedI [OF assms(1-4)]) (use assms(5-) in \<open>simp add: toBsonValue_leaf\<close>)

lemma appended_same:
  "ks_buffer ks1 = ks_buffer ks \<Longrightarrow> ks_version ks1 = ks_version ks \<Longrightarrow>
     appended D iv ks1 ks' v \<longleftrightarrow> appended D iv ks ks' v"
  by (simp add: appended_def)

lemma appended_byte:
  assumes "\<And>r. decodeLeaf D c r iv = Inr (v, r)" "10 \<le> c" "c \<le> 240" "c \<notin> {kObject, kArray, kCodeWithScope}"
  shows "appended D iv ks (ks_append8 c iv ks) v"
  by (rule appendedI_leaf [of _ _ _ c "[]"]) (use assms in simp_all)

lemma appendBytes_ok:
  "appended D iv ks (ks_append8 kMinKey iv ks) BMinKey"
  "appended D iv ks (ks_append8 kMaxKey iv ks) BMaxKey"
  "appended D iv ks (ks_append8 kUndefined iv ks) BUndefined"
  "appended D iv ks (ks_append8 kNullish iv ks) BNull"
  "appended D iv ks (appendBool b iv ks) (BBool b)"
  unfolding appendBool_def by (rule appended_byte; simp add: decodeLeaf_def ctype_defs)+

lemma appendBinData_ok:
  assumes "length bs < 2 ^ 31"
  shows "appended D iv ks (appendBinData t bs iv ks) (BBinData t bs)"
proof (cases "length bs < 0xFF")
  case True
  then have u: "unat (of_nat (length bs) :: u8) = length bs" by (simp add: unat_of_nat)
  then have "(of_nat (length bs) :: u8) \<noteq> 0xFF" using True by (auto dest: arg_cong [where f = unat])
  then show ?thesis
    by (intro appendedI_leaf [of _ _ _ kBinData "of_nat (length bs) # t # bs"])
      (use True u in \<open>simp add: appendBinData_def flip_if_Cons\<close>,
       use u in \<open>simp_all add: appendBinData_def Let_def ctype_defs decodeLeaf_def\<close>)
next
  case False
  have u: "unat (of_nat (length bs) :: u32) = length bs" using assms by (simp add: unat_of_nat)
  then show ?thesis
    by (intro appendedI_leaf [of _ _ _ kBinData "0xFF # be_bytes (of_nat (length bs) :: u32) @ t # bs"])
      (use False in \<open>simp add: appendBinData_def flip_if_Cons\<close>,
       use u in \<open>simp_all add: appendBinData_def Let_def ctype_defs decodeLeaf_def\<close>)
qed

lemma appendRegex_ok:
  assumes "0 \<notin> set p" "0 \<notin> set f"
  shows "appended D iv ks (appendRegex p f iv ks) (BRegEx p f)"
proof (rule appendedI_leaf [of _ _ _ kRegEx "(p @ [0]) @ f @ [0]"])
  show "decodeLeaf D kRegEx (flip_if iv ((p @ [0]) @ f @ [0]) @ rest) iv = Inr (BRegEx p f, rest)" for rest
    using readName_flip [OF assms(1), of iv "flip_if iv (f @ [0]) @ rest"] readName_flip [OF assms(2), of iv rest]
    unfolding flip_if_append [of iv "p @ [0]"] append_assoc [of "flip_if iv (p @ [0])"]
    by (simp add: decodeLeaf_def ctype_defs del: flip_if_append)
qed (simp_all add: appendRegex_def ctype_defs flip_if_Cons)

lemma appendDBRef_ok:
  assumes "length ns < 2 ^ 31" "length oid = 12"
  shows "appended D iv ks (appendDBRef ns oid iv ks) (BDBRef ns oid)"
proof -
  have u: "unat (of_nat (length ns) :: u32) = length ns" using assms by (simp add: unat_of_nat)
  then show ?thesis
    by (intro appendedI_leaf [of _ _ _ kDBRef "be_bytes (of_nat (length ns) :: u32) @ ns @ oid"])
      (simp add: appendDBRef_def flip_if_Cons,
       use u assms(2) in \<open>simp_all add: appendDBRef_def ctype_defs decodeLeaf_def\<close>)
qed

lemma appendFixed_ok:
  "appended D iv ks (appendDate d iv ks) (BDate d)"
  "appended D iv ks (appendTimestamp d iv ks) (BTimestamp d)"
  "length oid = 12 \<Longrightarrow> appended D iv ks (appendOID oid iv ks) (BOid oid)"
  by (rule appendedI_leaf [of _ _ _ kDate "be_bytes (d XOR push_bit 63 1)"],
      simp add: appendDate_def flip_if_Cons, simp_all add: appendDate_def ctype_defs decodeLeaf_def xor.assoc,
      rule appendedI_leaf [of _ _ _ kTimestamp "be_bytes d"],
      simp add: appendTimestamp_def flip_if_Cons, simp_all add: appendTimestamp_def ctype_defs decodeLeaf_def,
      rule appendedI_leaf [of _ _ _ kOID oid],
      simp add: appendOID_def flip_if_Cons, simp_all add: appendOID_def ctype_defs decodeLeaf_def)

lemma appendStrings_ok:
  "appended D iv ks (appendStringLike s iv (ks_append8 kStringLike iv ks)) (BString s)"
  "appended D iv ks (appendCode s iv ks) (BCode s)"
  by (rule appendedI_leaf [of _ _ _ kStringLike "escaped s @ [0]"],
      simp add: appendStringLike_buffer flip_if_Cons,
      simp_all add: appendStringLike_buffer readStringField_flip ctype_defs decodeLeaf_def del: flip_if_append,
      rule appendedI_leaf [of _ _ _ kCode "escaped s @ [0]"],
      simp add: appendCode_def appendStringLike_buffer flip_if_Cons,
      simp_all add: appendCode_def appendStringLike_buffer readStringField_flip ctype_defs decodeLeaf_def
        del: flip_if_append)

lemma appendStrings_bits_ok:
  "appendString s iv ks = Inr ks' \<Longrightarrow> appended D iv ks ks' (BString s)"
  "appendSymbol s iv ks = Inr ks' \<Longrightarrow> appended D iv ks ks' (BString s)"
  by (auto simp: appendString_def appendSymbol_def dest!: ks_withBits_buffer
      intro: iffD1 [OF appended_same appendStrings_ok(1)])

lemma canonical_long_int: "canonical_long (scast i) = BInt (i :: u32)"
proof -
  have "sint (scast i :: u64) = sint i" by (simp add: sint_up_scast is_up)
  moreover have "- (2 ^ 31) \<le> sint i" "sint i \<le> 2 ^ 31 - 1"
    using sint_range_size [of i] by (simp_all add: word_size)
  moreover have "sint (push_bit 63 1 :: u64) = - (2 ^ 63)" by (simp add: sint_u64)
  moreover have "ucast (scast i :: u64) = i" by (rule bit_word_eqI) (simp add: bit_simps)
  ultimately show ?thesis by (auto simp: canonical_long_def appendCanonicalInt_def)
qed

lemma appendNumber_ok:
  assumes v1: "ks_version ks = V1"
  shows "appendNumberDouble d iv ks = Inr ks' \<Longrightarrow> appended D iv ks ks' (canonical_double d)"
    and "appendNumberLong l iv ks = Inr ks' \<Longrightarrow> appended D iv ks ks' (canonical_long l)"
    and "appendNumberInt i iv ks = Inr ks' \<Longrightarrow> appended D iv ks ks' (BInt i)"
proof -
  have bits: "ks_version ks1 = V1 \<and> appended D iv ks ks' = appended D iv ks1 ks'" if "ks_withBits f ks = Inr ks1" for f ks1
    using ks_withBits_buffer [OF that] v1 by (simp add: appended_def fun_eq_iff)
  show "appendNumberDouble d iv ks = Inr ks' \<Longrightarrow> appended D iv ks ks' (canonical_double d)"
    using bits appendDouble_ok [of _ d iv D] by (fastforce simp: appendNumberDouble_def split: if_splits)
  show "appendNumberLong l iv ks = Inr ks' \<Longrightarrow> appended D iv ks ks' (canonical_long l)"
    using bits appendInteger_ok [of _ l iv D] by (fastforce simp: appendNumberLong_def)
  show "appendNumberInt i iv ks = Inr ks' \<Longrightarrow> appended D iv ks ks' (BInt i)"
    using bits appendInteger_ok [of _ "scast i" iv D] canonical_long_int [of i] by (fastforce simp: appendNumberInt_def)
qed

section \<open>Nested values\<close>

definition fields_appended :: "decimal_lib \<Rightarrow> bool \<Rightarrow> key_string \<Rightarrow> key_string \<Rightarrow> bson_obj \<Rightarrow> bool" where
  "fields_appended D iv ks ks' fs \<longleftrightarrow> ks_version ks' = ks_version ks \<and>
     (\<exists>c p. ks_buffer ks' = ks_buffer ks @ flip_if iv (c # p) \<and> c \<noteq> 0xFF \<and>
        (\<forall>rest. toBsonFieldsCanonical D (flip_if iv (c # p) @ rest) iv = Inr (fs, rest)))"

definition elements_appended :: "decimal_lib \<Rightarrow> bool \<Rightarrow> key_string \<Rightarrow> key_string \<Rightarrow> (nat \<Rightarrow> bson_obj) \<Rightarrow> bool" where
  "elements_appended D iv ks ks' fs \<longleftrightarrow> ks_version ks' = ks_version ks \<and>
     (\<exists>p. ks_buffer ks' = ks_buffer ks @ flip_if iv p \<and> (p \<noteq> [] \<longrightarrow> p ! 0 \<noteq> 0xFF) \<and>
        (\<forall>i rest. toBsonElementsCanonical D i (flip_if iv (p @ [0]) @ rest) iv = Inr (fs i, rest)))"

lemma appendedE:
  assumes "appended D iv ks ks' v"
  obtains c p where "ks_version ks' = ks_version ks" "ks_buffer ks' = ks_buffer ks @ flip_if iv (c # p)"
    "c \<noteq> 0" "c \<noteq> 0xFF" "c \<noteq> kLess" "c \<noteq> kGreater" "c \<noteq> kEnd"
    "\<And>rest. may_follow iv rest \<Longrightarrow> toBsonValueCanonical D c (flip_if iv p @ rest) iv = Inr (v, rest)"
proof -
  obtain p where p: "ks_version ks' = ks_version ks" "ks_buffer ks' = ks_buffer ks @ flip_if iv p" "p \<noteq> []"
    "10 \<le> p ! 0" "p ! 0 \<le> 240"
    "\<And>rest. may_follow iv rest \<Longrightarrow> toBsonValueCanonical D (p ! 0) (flip_if iv (tl p) @ rest) iv = Inr (v, rest)"
    using assms by (auto simp: appended_def decodes_def)
  obtain c q where cq: "p = c # q" using p(3) by (cases p) auto
  have "c \<noteq> x" if "x < 10 \<or> 240 < x" for x using p(4,5) that by (auto simp: cq)
  then have "c \<noteq> 0" "c \<noteq> 0xFF" "c \<noteq> kLess" "c \<noteq> kGreater" "c \<noteq> kEnd" by (simp_all add: ctype_defs)
  then show ?thesis using p(1,2,6) by (intro that [of c q]) (simp_all add: cq)
qed

lemma fields_appended_Nil: "fields_appended D iv ks (ks_append8 0 iv ks) []"
  unfolding fields_appended_def
  by (intro conjI exI [of _ 0] exI [of _ "[]"] allI) (simp_all add: toBsonFieldsCanonical.simps)

lemma fields_appended_Cons:
  assumes ks1: "ks_buffer ks1 = ks_buffer ks @ flip_if iv (g # n @ [0])" "ks_version ks1 = ks_version ks"
    and g: "g \<noteq> 0" "g \<noteq> 0xFF" and n: "0 \<notin> set n"
    and v: "appended D iv ks1 ks2 v" and fs: "fields_appended D iv ks2 ks3 fs"
  shows "fields_appended D iv ks ks3 ((n, v) # fs)"
proof -
  obtain c p where p: "ks_version ks2 = ks_version ks1" "ks_buffer ks2 = ks_buffer ks1 @ flip_if iv (c # p)"
    "\<And>rest. may_follow iv rest \<Longrightarrow> toBsonValueCanonical D c (flip_if iv p @ rest) iv = Inr (v, rest)"
    by (rule appendedE [OF v]) blast
  obtain d q where q: "ks_version ks3 = ks_version ks2" "ks_buffer ks3 = ks_buffer ks2 @ flip_if iv (d # q)" "d \<noteq> 0xFF"
    "\<And>rest. toBsonFieldsCanonical D (flip_if iv (d # q) @ rest) iv = Inr (fs, rest)"
    using fs by (auto simp: fields_appended_def)
  have "toBsonFieldsCanonical D (flip_if iv (g # (n @ [0]) @ (c # p) @ d # q) @ rest) iv = Inr ((n, v) # fs, rest)" for rest
  proof -
    have "readName iv (flip_if iv ((n @ [0]) @ (c # p) @ d # q) @ rest) =
        Inr (n, flip_if iv (c # p @ d # q) @ rest)"
      using readName_flip [OF n, of iv "flip_if iv (c # p @ d # q) @ rest"]
      by (simp add: flip_if_Cons)
    moreover have "toBsonValueCanonical D c (flip_if iv (p @ d # q) @ rest) iv = Inr (v, flip_if iv (d # q) @ rest)"
      using p(3) [of "flip_if iv (d # q) @ rest"] q(3) by simp
    ultimately show ?thesis
      using g(1) q(4) by (subst toBsonFieldsCanonical.simps) (simp del: flip_if_append append_assoc append_Cons)
  qed
  then show ?thesis
    unfolding fields_appended_def using ks1 p(1,2) q(1,2) g(2)
    by (intro conjI exI [of _ g] exI [of _ "(n @ [0]) @ (c # p) @ d # q"]) (simp_all add: flip_if_Cons)
qed

lemma elements_appended_Cons:
  assumes v: "appended D iv ks ks1 v" and fs: "elements_appended D iv ks1 ks2 fs"
  shows "elements_appended D iv ks ks2 (\<lambda>i. (numStr i, v) # fs (i + 1))"
proof -
  obtain c p where p: "ks_version ks1 = ks_version ks" "ks_buffer ks1 = ks_buffer ks @ flip_if iv (c # p)"
    "c \<noteq> 0" "c \<noteq> 0xFF"
    "\<And>rest. may_follow iv rest \<Longrightarrow> toBsonValueCanonical D c (flip_if iv p @ rest) iv = Inr (v, rest)"
    by (rule appendedE [OF v]) blast
  obtain q where q: "ks_version ks2 = ks_version ks1" "ks_buffer ks2 = ks_buffer ks1 @ flip_if iv q"
    "q \<noteq> [] \<Longrightarrow> q ! 0 \<noteq> 0xFF"
    "\<And>i rest. toBsonElementsCanonical D i (flip_if iv (q @ [0]) @ rest) iv = Inr (fs i, rest)"
    using fs by (auto simp: elements_appended_def)
  have "toBsonElementsCanonical D i (flip_if iv (c # p @ q @ [0]) @ rest) iv = Inr ((numStr i, v) # fs (i + 1), rest)" for i rest
  proof -
    have "may_follow iv (flip_if iv (q @ [0]) @ rest)" using q(3) by (cases q) (simp_all del: flip_if_append)
    then have "toBsonValueCanonical D c (flip_if iv (p @ q @ [0]) @ rest) iv = Inr (v, flip_if iv (q @ [0]) @ rest)"
      using p(5) [of "flip_if iv (q @ [0]) @ rest"] by simp
    then show ?thesis using p(3) q(4) by (subst toBsonElementsCanonical.simps) (simp del: flip_if_append)
  qed
  then show ?thesis
    unfolding elements_appended_def using p(1,2,4) q(1,2)
    by (intro conjI exI [of _ "c # p @ q"]) (simp_all add: flip_if_Cons)
qed

lemma generic_type_byte: "bsonTypeToGenericKeyStringType v \<noteq> 0" "bsonTypeToGenericKeyStringType v \<noteq> 0xFF"
  by (cases v; simp add: ctype_defs)+

lemma appendName_version [simp]: "ks_version (appendName name iv ks) = ks_version ks"
  by (simp add: appendName_def split: option.splits)

lemma appended_object:
  assumes "fields_appended D iv (ks_append8 kObject iv ks) ks' fs"
  shows "appended D iv ks ks' (BObject fs)"
proof -
  obtain c p where p: "ks_version ks' = ks_version ks" "ks_buffer ks' = ks_buffer ks @ flip_if iv (kObject # c # p)"
    "\<And>rest. toBsonFieldsCanonical D (flip_if iv (c # p) @ rest) iv = Inr (fs, rest)"
    using assms by (auto simp: fields_appended_def flip_if_Cons)
  show ?thesis
    by (rule appendedI [OF p(2,1)]) (use p(3) in \<open>simp_all add: toBsonValueCanonical.simps ctype_defs\<close>)
qed

lemma appended_array:
  assumes "elements_appended D iv (ks_append8 kArray iv ks) ks' fs"
  shows "appended D iv ks (ks_append8 0 iv ks') (BArray (fs 0))"
proof -
  obtain p where p: "ks_version ks' = ks_version ks" "ks_buffer ks' = ks_buffer ks @ flip_if iv (kArray # p)"
    "\<And>i rest. toBsonElementsCanonical D i (flip_if iv (p @ [0]) @ rest) iv = Inr (fs i, rest)"
    using assms by (auto simp: elements_appended_def flip_if_Cons)
  show ?thesis
    by (rule appendedI [of _ _ _ kArray "p @ [0]"])
      (use p in \<open>simp_all add: toBsonValueCanonical.simps ctype_defs flip_if_Cons\<close>)
qed

lemma appended_code_with_scope:
  assumes "fields_appended D iv (appendStringLike s iv (ks_append8 kCodeWithScope iv ks)) ks' fs"
  shows "appended D iv ks ks' (BCodeWScope s fs)"
proof -
  obtain c p where p: "ks_version ks' = ks_version ks" "c \<noteq> 0xFF"
    "ks_buffer ks' = ks_buffer ks @ flip_if iv (kCodeWithScope # (escaped s @ [0]) @ c # p)"
    "\<And>rest. toBsonFieldsCanonical D (flip_if iv (c # p) @ rest) iv = Inr (fs, rest)"
    using assms by (auto simp: fields_appended_def flip_if_Cons appendStringLike_buffer)
  show ?thesis
  proof (rule appendedI [OF p(3,1)])
    fix rest
    have "readStringField iv (flip_if iv ((escaped s @ [0]) @ c # p) @ rest) = Inr (s, flip_if iv (c # p) @ rest)"
      using readStringField_flip [of iv "flip_if iv (c # p) @ rest" s] p(2)
      unfolding flip_if_append [of iv "escaped s @ [0]"] append_assoc [of "flip_if iv (escaped s @ [0])"]
      by (simp del: flip_if_append)
    then show "toBsonValueCanonical D kCodeWithScope (flip_if iv ((escaped s @ [0]) @ c # p) @ rest) iv =
        Inr (BCodeWScope s fs, rest)"
      by (simp add: toBsonValueCanonical.simps ctype_defs p(4) del: flip_if_append)
  qed (simp_all add: ctype_defs)
qed

lemma appendBsonValue_ok:
  "key_value v \<Longrightarrow> ks_version ks = V1 \<Longrightarrow> appendBsonValue D v iv name ks = Inr ks' \<Longrightarrow>
     appended D iv (appendName name iv ks) ks' (canonical v)"
  "key_fields fs \<Longrightarrow> ks_version ks = V1 \<Longrightarrow> appendBson D fs iv ks = Inr ks' \<Longrightarrow>
     fields_appended D iv ks ks' (canonical_fields fs)"
  "key_elements fs \<Longrightarrow> ks_version ks = V1 \<Longrightarrow> appendElements D fs iv ks = Inr ks' \<Longrightarrow>
     elements_appended D iv ks ks' (\<lambda>i. canonical_elements i fs)"
proof (induction D v iv name ks and D fs iv ks and D fs iv ks arbitrary: ks' and ks' and ks'
    rule: appendBsonValue_appendBson_appendElements.induct)
  case (8 D fs iv name ks)
  then show ?case by (auto intro!: appended_array)
next
  case (23 D n v fs iv ks)
  let ?g = "bsonTypeToGenericKeyStringType v"
  obtain ks1 where ks1: "appendBsonValue D v iv (Some n) (ks_append8 ?g iv ks) = Inr ks1" "appendBson D fs iv ks1 = Inr ks'"
    using "23.prems" by auto
  have v: "appended D iv (ks_appendBytes (n @ [0]) iv (ks_append8 ?g iv ks)) ks1 (canonical v)"
    using "23.IH"(1) [OF _ _ ks1(1)] "23.prems" by (simp add: appendName_def)
  then have "fields_appended D iv ks1 ks' (canonical_fields fs)"
    using "23.IH"(2) [OF ks1(1) _ _ ks1(2)] ks1 "23.prems" by (simp add: appended_def)
  then show ?case
    using fields_appended_Cons [OF _ _ generic_type_byte _ v] "23.prems" by (simp add: flip_if_Cons)
next
  case (25 D n v fs iv ks)
  obtain ks1 where ks1: "appendBsonValue D v iv None ks = Inr ks1" "appendElements D fs iv ks1 = Inr ks'"
    using "25.prems" by auto
  have v: "appended D iv ks ks1 (canonical v)"
    using "25.IH"(1) [OF _ _ ks1(1)] "25.prems" by (simp add: appendName_def)
  then have "elements_appended D iv ks1 ks' (\<lambda>i. canonical_elements i fs)"
    using "25.IH"(2) [OF ks1(1) _ _ ks1(2)] ks1 "25.prems" by (simp add: appended_def)
  then show ?case using elements_appended_Cons [OF v] by simp
next
  case (24 D iv ks)
  then show ?case
    by (auto simp: elements_appended_def toBsonElementsCanonical.simps intro: exI [of _ "[]"])
qed (auto simp: appendBinData_ok appendRegex_ok appendDBRef_ok appendFixed_ok appendStrings_ok
    appendBytes_ok appended_object appended_code_with_scope fields_appended_Nil appendStringLike_buffer
    intro!: appendNumber_ok dest: appendStrings_bits_ok)

section \<open>Whole keys\<close>

text \<open>How a key ends: its discriminator, when it has one, and the end byte, never inverted.\<close>

definition key_end :: "discriminator \<Rightarrow> bytes" where
  "key_end disc = (case disc of kInclusive \<Rightarrow> [] | kExclusiveBefore \<Rightarrow> [kLess] | kExclusiveAfter \<Rightarrow> [kGreater]) @ [kEnd]"

definition key_starts :: "bytes \<Rightarrow> bool" where
  "key_starts bs \<longleftrightarrow> bs \<noteq> [] \<and> bs ! 0 \<noteq> 0 \<and> bs ! 0 \<noteq> 0xFF"

lemma key_starts_may_follow: "key_starts bs \<Longrightarrow> may_follow iv bs"
  by (auto simp: key_starts_def may_follow_def)

lemma key_starts_end: "key_starts (key_end disc)"
  by (cases disc) (simp_all add: key_starts_def key_end_def ctype_defs)

lemma key_starts_value: "c \<noteq> 0 \<Longrightarrow> c \<noteq> 0xFF \<Longrightarrow> key_starts (flip_if iv (c # p) @ r)"
  using not_eq_FF [of c] not_eq_0 [of c] by (auto simp: key_starts_def flip_if_Cons)

lemma toBsonLoop_end: "\<not> ord_descending ord i \<Longrightarrow> toBsonLoop D ord i (key_end disc) = Inr []"
  using readType8_flip_Cons [of False _ _ "[]"]
  by (subst toBsonLoop.simps, cases disc) (simp_all add: key_end_def ctype_defs)

lemma appendFields_ok:
  assumes "appendFields D obj ord i disc ks = Inr (disc', ks')" "ks_version ks = V1"
    and "\<forall>(n, v) \<in> set obj. key_value v" "\<not> ord_descending ord (i + length obj)"
  shows "ks_version ks' = V1 \<and> (\<exists>p. ks_buffer ks' = ks_buffer ks @ p \<and> key_starts (p @ key_end disc') \<and>
    toBsonLoop D ord i (p @ key_end disc') = Inr (map (\<lambda>(n, v). ([], canonical v)) obj))"
  using assms
proof (induction obj arbitrary: i disc ks)
  case Nil
  then show ?case by (auto simp: toBsonLoop_end key_starts_end)
next
  case (Cons f obj)
  obtain n v where f: "f = (n, v)" by (cases f)
  let ?iv = "ord_descending ord i"
  obtain ks1 disc1 where ks1: "appendBsonValue D v ?iv None ks = Inr ks1"
    "appendFields D obj ord (i + 1) disc1 ks1 = Inr (disc', ks')"
    using Cons.prems(1) by (auto simp: f split: if_splits)
  then have v: "appended D ?iv ks ks1 (canonical v)"
    using appendBsonValue_ok(1) [OF _ Cons.prems(2) ks1(1)] Cons.prems(3) by (simp add: f appendName_def)
  obtain c p where p: "ks_version ks1 = V1" "ks_buffer ks1 = ks_buffer ks @ flip_if ?iv (c # p)"
    "c \<noteq> 0" "c \<noteq> 0xFF" "c \<noteq> kLess" "c \<noteq> kGreater" "c \<noteq> kEnd"
    "\<And>rest. may_follow ?iv rest \<Longrightarrow> toBsonValueCanonical D c (flip_if ?iv p @ rest) ?iv = Inr (canonical v, rest)"
    by (rule appendedE [OF v]) (use Cons.prems(2) in simp)
  obtain q where q: "ks_version ks' = V1" "ks_buffer ks' = ks_buffer ks1 @ q" "key_starts (q @ key_end disc')"
    "toBsonLoop D ord (i + 1) (q @ key_end disc') = Inr (map (\<lambda>(n, v). ([], canonical v)) obj)"
    using Cons.IH [OF ks1(2) p(1)] Cons.prems(3,4) by auto
  have "toBsonLoop D ord i (flip_if ?iv (c # p) @ q @ key_end disc') = Inr (map (\<lambda>(n, v). ([], canonical v)) (f # obj))"
    using p(5-7) p(8) [OF key_starts_may_follow [OF q(3)]] q(4)
    by (subst toBsonLoop.simps) (simp add: Let_def f, simp add: flip_if_Cons)
  then show ?case
    using p(2-4) q(1,2) key_starts_value [of c] by (intro conjI exI [of _ "flip_if ?iv (c # p) @ q"]) simp_all
qed

lemma toBsonCanonical_resetToKey:
  assumes "resetToKey D obj ord disc ks = Inr ks'" "ks_version ks = V1"
    and "\<forall>(n, v) \<in> set obj. key_value v" "\<not> ord_descending ord (length obj)"
  shows "toBsonCanonical D (ks_buffer ks') ord = Inr (map (\<lambda>(n, v). ([], canonical v)) obj)"
proof -
  obtain disc' ks1 where ks1: "appendFields D obj ord 0 disc (resetToEmpty ks) = Inr (disc', ks1)"
    "ks_buffer ks' = ks_buffer ks1 @ key_end disc'"
    using assms(1)
    by (auto simp: resetToKey_def appendAllElementsForIndexing_def key_end_def
        split: discriminator.splits intro: discriminator.exhaust)
  then show ?thesis
    using appendFields_ok [OF ks1(1)] assms(2-4) by (auto simp: resetToEmpty_def toBsonCanonical_def)
qed

section \<open>What any input decodes to\<close>

fun decoded_value :: "bson \<Rightarrow> bool" and decoded_fields :: "bson_obj \<Rightarrow> bool"
and decoded_elements :: "nat \<Rightarrow> bson_obj \<Rightarrow> bool" where
  "decoded_value (BObject fs) = decoded_fields fs"
| "decoded_value (BArray fs) = decoded_elements 0 fs"
| "decoded_value (BCodeWScope c fs) = decoded_fields fs"
| "decoded_value (BBinData t bs) = (length bs < 2 ^ 32)"
| "decoded_value (BOid bs) = (length bs = 12)"
| "decoded_value (BRegEx p f) = (0 \<notin> set p \<and> 0 \<notin> set f)"
| "decoded_value (BDBRef ns oid) = (length ns < 2 ^ 32 \<and> length oid = 12)"
| "decoded_value (BLong l) = (sint l < - (2 ^ 31) \<or> 2 ^ 31 \<le> sint l)"
| "decoded_value (BSymbol s) = False"
| "decoded_value v = True"
| "decoded_fields [] = True"
| "decoded_fields ((n, v) # fs) = (0 \<notin> set n \<and> decoded_value v \<and> decoded_fields fs)"
| "decoded_elements i [] = True"
| "decoded_elements i ((n, v) # fs) = (n = numStr i \<and> decoded_value v \<and> decoded_elements (i + 1) fs)"

definition yields :: "('a \<Rightarrow> bool) \<Rightarrow> ('a \<times> bytes) result \<Rightarrow> bool" where
  "yields P m \<longleftrightarrow> (\<forall>x r'. m = Inr (x, r') \<longrightarrow> P x)"

lemma yieldsD: "yields P m \<Longrightarrow> m = Inr (x, r') \<Longrightarrow> P x"
  by (simp add: yields_def)

lemma yields_Inl [simp]: "yields P (Inl e)"
  by (simp add: yields_def)

lemma yields_Inr [simp]: "yields P (Inr (x, r)) \<longleftrightarrow> P x"
  by (simp add: yields_def)

lemma yields_rbind: "(\<And>x. m = Inr x \<Longrightarrow> yields P (f x)) \<Longrightarrow> yields P (rbind m f)"
  by (cases m) simp_all

lemma yields_branch: "yields P m \<Longrightarrow> yields P n \<Longrightarrow> yields P (if b then m else n)"
  by simp

lemma yields_if: "(b \<Longrightarrow> yields P m) \<Longrightarrow> (\<not> b \<Longrightarrow> yields P n) \<Longrightarrow> yields P (if b then m else n)"
  by simp

lemma readUntil_stops: "readUntil t r = Inr (s, r') \<Longrightarrow> t \<notin> set s"
  by (auto simp: readUntil_def Let_def split: if_splits dest: set_takeWhileD)

lemma readName_no_nul: "readName iv r = Inr (s, r') \<Longrightarrow> 0 \<notin> set s"
  using not_eq_0
  by (fastforce simp: readName_def readCString_def readInvertedCString_def memcpy_flipBits_def
      dest: readUntil_stops split: if_splits)

lemma skipBytes_length: "skipBytes n iv r = Inr (bs, r') \<Longrightarrow> length bs = n"
  by (auto simp: skipBytes_def read_exact_def split: if_splits)

lemma decoded_appendCanonicalInt: "decoded_value (appendCanonicalInt w)"
  by (auto simp: appendCanonicalInt_def)

lemma decodeNumbers_typed:
  "yields decoded_value (decodeLarge D isNegative r iv)"
  "yields decoded_value (decodeSmall D isNegative r iv)"
  "yields decoded_value (decodeInteger D c r iv)"
  unfolding decodeLarge_def decodeSmall_def decodeInteger_def Let_def
  by (auto intro!: yields_rbind yields_if decoded_appendCanonicalInt split: prod.splits)

lemma unat_bounds: "unat (w :: u32) < 4294967296" "unat (b :: u8) < 4294967296"
  using unsigned_less [of w, where ?'a = nat] unsigned_less [of b, where ?'a = nat] by simp_all

lemma decodeLeaf_typed: "yields decoded_value (decodeLeaf D c r iv)"
  unfolding decodeLeaf_def
  by (intro yields_branch)
    (simp_all add: decodeNumbers_typed,
     auto intro!: yields_rbind split: if_splits dest!: skipBytes_length readName_no_nul simp: unat_bounds,
     (metis unat_bounds)+)

lemma toBsonValueCanonical_typed:
  "yields decoded_value (toBsonValueCanonical D c r iv)"
  "yields decoded_fields (toBsonFieldsCanonical D r iv)"
  "yields (decoded_elements i) (toBsonElementsCanonical D i r iv)"
proof (induction D c r iv and D r iv and D i r iv
    rule: toBsonValueCanonical_toBsonFieldsCanonical_toBsonElementsCanonical.induct)
  case (1 D c r iv)
  then show ?case
    by (subst toBsonValueCanonical.simps) (auto intro!: yields_if yields_rbind decodeLeaf_typed dest: yieldsD)
next
  case (2 D r iv)
  then show ?case
    by (subst toBsonFieldsCanonical.simps) (fastforce simp: yields_def dest: readName_no_nul split: if_splits)
next
  case (3 D i r iv)
  then show ?case
    by (subst toBsonElementsCanonical.simps) (fastforce simp: yields_def split: if_splits)
qed

lemma readName_shrinks: "readName iv r = Inr (n, r') \<Longrightarrow> length r' < length r"
  by (auto simp: readName_def readCString_def readInvertedCString_def dest: readUntil_shrinks split: if_splits)

lemma toBsonFields_shrinks:
  "toBsonFieldsCanonical D r iv = Inr (fs, r') \<Longrightarrow> 3 * length fs + length r' < length r"
proof (induction fs arbitrary: r)
  case Nil
  then show ?case by (subst (asm) toBsonFieldsCanonical.simps) (auto dest!: readType8_shrinks split: if_splits)
next
  case (Cons f fs)
  from Cons.prems obtain g r1 n r2 c r3 v r4 where *: "readType8 iv r = Inr (g, r1)" "readName iv r1 = Inr (n, r2)"
    "readType8 iv r2 = Inr (c, r3)" "toBsonValueCanonical D c r3 iv = Inr (v, r4)"
    "toBsonFieldsCanonical D r4 iv = Inr (fs, r')"
    by (subst (asm) toBsonFieldsCanonical.simps) (auto split: if_splits)
  have "length r4 \<le> length r3" by (rule consumesD [OF toBsonValueCanonical_consumes(1) *(4)])
  then show ?case
    using readType8_shrinks [OF *(1)] readName_shrinks [OF *(2)] readType8_shrinks [OF *(3)] Cons.IH [OF *(5)] by simp
qed

lemma toBsonElements_shrinks:
  "toBsonElementsCanonical D i r iv = Inr (fs, r') \<Longrightarrow> length fs + length r' < length r"
proof (induction fs arbitrary: i r)
  case Nil
  then show ?case by (subst (asm) toBsonElementsCanonical.simps) (auto dest!: readType8_shrinks split: if_splits)
next
  case (Cons f fs)
  from Cons.prems obtain c r1 v r2 where *: "readType8 iv r = Inr (c, r1)"
    "toBsonValueCanonical D c r1 iv = Inr (v, r2)" "toBsonElementsCanonical D (i + 1) r2 iv = Inr (fs, r')"
    by (subst (asm) toBsonElementsCanonical.simps) (auto split: if_splits)
  have "length r2 \<le> length r1" by (rule consumesD [OF toBsonValueCanonical_consumes(1) *(2)])
  then show ?case using readType8_shrinks [OF *(1)] Cons.IH [OF *(3)] by simp
qed

lemma toBsonLoop_ok:
  "toBsonLoop D ord i r = Inr fs \<Longrightarrow> length fs \<le> length r \<and> (\<forall>(n, v) \<in> set fs. n = [] \<and> decoded_value v)"
proof (induction fs arbitrary: i r)
  case (Cons f fs)
  let ?iv = "ord_descending ord i"
  define disc where "disc = (\<lambda>c r1. if c = kLess \<or> c = kGreater then readType8 ?iv r1 else Inr (c, r1))"
  have "toBsonLoop D ord i r = (if r = [] then Inr [] else
      rbind (readType8 ?iv r) (\<lambda>(c, r1). rbind (disc c r1) (\<lambda>(ctype, r2). if ctype = kEnd then Inr []
        else rbind (toBsonValueCanonical D ctype r2 ?iv) (\<lambda>(v, r3).
             rbind (toBsonLoop D ord (i + 1) r3) (\<lambda>fs. Inr (([], v) # fs))))))"
    by (subst toBsonLoop.simps) (simp only: Let_def disc_def)
  with Cons.prems obtain c r1 t r2 v r3 where *: "readType8 ?iv r = Inr (c, r1)" "disc c r1 = Inr (t, r2)"
    "toBsonValueCanonical D t r2 ?iv = Inr (v, r3)" "toBsonLoop D ord (i + 1) r3 = Inr fs" "f = ([], v)"
    by (auto split: if_splits)
  have "length r3 \<le> length r2" by (rule consumesD [OF toBsonValueCanonical_consumes(1) *(3)])
  moreover have "length r2 \<le> length r1" using *(2) by (auto simp: disc_def split: if_splits dest: readType8_shrinks)
  moreover have "decoded_value v" by (rule yieldsD [OF toBsonValueCanonical_typed(1) *(3)])
  ultimately show ?case using readType8_shrinks [OF *(1)] Cons.IH [OF *(4)] *(5) by simp
qed simp

section \<open>Properties\<close>

lemma toBsonCanonical_ok: "toBsonCanonical D buf ord = Inr fs \<Longrightarrow>
    length fs \<le> length buf \<and> (\<forall>(n, v) \<in> set fs. n = [] \<and> decoded_value v)"
  by (simp add: toBsonCanonical_def toBsonLoop_ok)

lemma key_Serialize_short:
  "length k < 2 ^ 16 \<Longrightarrow> key_Serialize (PackedKey k) = le_bytes (of_nat (length k) :: u16) @ k"
  by (simp add: key_Serialize_def packed_key_def unat_of_nat)

text \<open>C18: The key of any value without decimals, and any index key of such values in any mix of
  directions, decodes back to its values: numbers in their canonical type, symbols as strings, array
  elements numbered; this whatever the type bits hold, since the log does not carry them.\<close>

theorem key_string_roundtrip:
  assumes "resetToKey D obj ord disc ks = Inr ks'" "ks_version ks = V1"
    and "\<forall>(n, v) \<in> set obj. key_value v" "\<not> ord_descending ord (length obj)"
  shows "toBsonCanonical D (ks_buffer ks') ord = Inr (map (\<lambda>(n, v). ([], canonical v)) obj)"
  using assms by (rule toBsonCanonical_resetToKey)

theorem key_string_roundtrip_witness:
  "\<forall>D. toBsonCanonical D [60, 97, 0, 0xFF, 0, 0xD4, 0xFB, 4] 2 =
     Inr [([], BString [97, 0]), ([], BInt 2)]"
proof
  fix D
  let ?obj = "[([], BString [97, 0]), ([], BLong 2)]"
  have "case resetToKey D ?obj 2 kInclusive (mkKeyString V1) of
      Inr ks' \<Rightarrow> ks_buffer ks' = [60, 97, 0, 0xFF, 0, 0xD4, 0xFB, 4] | _ \<Rightarrow> False"
    by code_simp
  then obtain ks' where "resetToKey D ?obj 2 kInclusive (mkKeyString V1) = Inr ks'"
      "ks_buffer ks' = [60, 97, 0, 0xFF, 0, 0xD4, 0xFB, 4]"
    by (auto split: sum.splits)
  then show "toBsonCanonical D [60, 97, 0, 0xFF, 0, 0xD4, 0xFB, 4] 2 = Inr [([], BString [97, 0]), ([], BInt 2)]"
    using key_string_roundtrip [of D ?obj 2 kInclusive "mkKeyString V1" ks']
    by (simp add: mkKeyString_def ord_descending_def canonical_long_def appendCanonicalInt_def)
qed

text \<open>C6: What the log stores for an \<open>_id\<close> (the length-prefixed key of the record) gives back the
  document key, under the field name asked for, and the key's own bytes.\<close>

theorem logged_id_key_roundtrip:
  assumes "resetToKey D [([], v)] 0 kInclusive (mkKeyString V1) = Inr ks" "key_value v"
    and "length (ks_buffer ks) < 2 ^ 16"
  shows "decodeLoggedIdKey D (key_Serialize (PackedKey (ks_buffer ks))) fieldName =
    Inr ([(fieldName, canonical v)], ks_buffer ks)"
proof -
  have "toBsonCanonical D (ks_buffer ks) 0 = Inr [([], canonical v)]"
    using toBsonCanonical_resetToKey [OF assms(1)] assms(2) by (simp add: mkKeyString_def ord_descending_def)
  then show ?thesis
    using assms(3) by (simp add: decodeLoggedIdKey_def key_Serialize_short decodeIdKey_def unat_of_nat)
qed

theorem logged_id_key_roundtrip_witness:
  "\<forall>D. \<exists>ks. resetToKey D [([], BObject [([97], BLong 300), ([98], BArray [([48], BSymbol [99, 0])])])]
       0 kInclusive (mkKeyString V1) = Inr ks \<and>
     decodeLoggedIdKey D (key_Serialize (PackedKey (ks_buffer ks))) [95, 105, 100] =
       Inr ([([95, 105, 100], BObject [([97], BInt 300), ([98], BArray [([48], BString [99, 0])])])],
         ks_buffer ks)"
proof
  fix D
  let ?v = "BObject [([97], BLong 300), ([98], BArray [([48], BSymbol [99, 0])])]"
  have "case resetToKey D [([], ?v)] 0 kInclusive (mkKeyString V1) of
      Inr ks \<Rightarrow> length (ks_buffer ks) < 30 | _ \<Rightarrow> False"
    by code_simp
  then obtain ks where ks: "resetToKey D [([], ?v)] 0 kInclusive (mkKeyString V1) = Inr ks" "length (ks_buffer ks) < 2 ^ 16"
    by (auto split: sum.splits)
  have "canonical ?v = BObject [([97], BInt 300), ([98], BArray [([48], BString [99, 0])])]" "key_value ?v"
    by code_simp+
  then show "\<exists>ks. resetToKey D [([], ?v)] 0 kInclusive (mkKeyString V1) = Inr ks \<and>
      decodeLoggedIdKey D (key_Serialize (PackedKey (ks_buffer ks))) [95, 105, 100] =
        Inr ([([95, 105, 100], BObject [([97], BInt 300), ([98], BArray [([48], BString [99, 0])])])],
          ks_buffer ks)"
    using ks logged_id_key_roundtrip [OF ks(1) _ ks(2), of "[95, 105, 100]"] by auto
qed

lemma decodeIdKey_ok:
  "decodeIdKey D k f = Inr doc \<Longrightarrow> \<exists>n v. toBsonCanonical D k 0 = Inr [(n, v)] \<and> doc = [(f, v)]"
  by (cases "toBsonCanonical D k 0") (auto simp: decodeIdKey_def split: list.split_asm)

text \<open>C19: Whatever bytes the decoder is given, what it returns is a well-formed value: object ids of
  twelve bytes, field names and regular expressions without NUL, 64-bit integers only for what does
  not fit 32 bits, no symbols, arrays numbered from zero, and a document key of exactly one field
  with the name asked for.\<close>

theorem decoded_document_key_typed:
  assumes "decodeLoggedIdKey D loggedKey fieldName = Inr (doc, key)"
  shows "\<exists>v. doc = [(fieldName, v)] \<and> decoded_value v"
proof -
  obtain n v where "toBsonCanonical D key 0 = Inr [(n, v)]" "doc = [(fieldName, v)]"
    using assms by (auto simp: decodeLoggedIdKey_def Let_def dest: decodeIdKey_ok)
  then show ?thesis using toBsonCanonical_ok by fastforce
qed

theorem decoded_document_key_typed_witness:
  "\<forall>D. decodeLoggedIdKey D [3, 0, 43, 14, 4] [95] = Inr ([([95], BInt 7)], [43, 14, 4]) \<and> decoded_value (BInt 7)"
proof
  fix D
  have "decodeLoggedIdKey D [3, 0, 43, 14, 4] [95] = Inr ([([95], BInt 7)], [43, 14, 4])" by code_simp
  then show "decodeLoggedIdKey D [3, 0, 43, 14, 4] [95] = Inr ([([95], BInt 7)], [43, 14, 4]) \<and> decoded_value (BInt 7)"
    using decoded_document_key_typed [of D "[3, 0, 43, 14, 4]" "[95]"] by fastforce
qed

text \<open>C39: The decoder's loops end within the bytes they are given: a nested object takes at least
  three bytes for each of its fields and one for its end, an array at least one for each element
  and one for its end, and a key at least one for each field.\<close>

theorem decoder_progress:
  "(toBsonFieldsCanonical D r iv = Inr (fs, r') \<longrightarrow> 3 * length fs + length r' < length r) \<and>
   (toBsonElementsCanonical D i r iv = Inr (fs, r') \<longrightarrow> length fs + length r' < length r) \<and>
   (toBsonCanonical D r ord = Inr fs \<longrightarrow> length fs \<le> length r)"
  using toBsonFields_shrinks toBsonElements_shrinks toBsonCanonical_ok by blast

theorem decoder_progress_witness:
  "\<forall>D. toBsonFieldsCanonical D [60, 97, 0, 60, 98, 0, 0, 9] False = Inr ([([97], BString [98])], [9]) \<and>
     3 * length [([97] :: bytes, BString [98])] + length [9 :: u8] < length [60 :: u8, 97, 0, 60, 98, 0, 0, 9]"
proof
  fix D
  have "toBsonFieldsCanonical D [60, 97, 0, 60, 98, 0, 0, 9] False = Inr ([([97], BString [98])], [9])" by code_simp
  then show "toBsonFieldsCanonical D [60, 97, 0, 60, 98, 0, 0, 9] False = Inr ([([97], BString [98])], [9]) \<and>
     3 * length [([97] :: bytes, BString [98])] + length [9 :: u8] < length [60 :: u8, 97, 0, 60, 98, 0, 0, 9]"
    using decoder_progress [of D "[60, 97, 0, 60, 98, 0, 0, 9]" False "[([97], BString [98])]" "[9]"] by blast
qed

end
