(* ===== verification/Bson_Bytes.thy ===== *)
theory Bson_Bytes
  imports Bson_Model
begin

text \<open>
  BSON in memory: the bytes \<open>BSONObjBuilder\<close> writes for an object (\<open>mongo/bson/bsonobjbuilder.h\<close>)
  and what \<open>BSONElement\<close> and \<open>BSONObj\<close> read from such bytes (\<open>mongo/bson/bsonelement.h\<close>, \<open>.cpp\<close>,
  \<open>bsonobj.h\<close>). The reader trusts its input: a size that leads out of the object is undefined
  behaviour in the source and an error here. Reading back what the builder wrote gives the object.
\<close>

section \<open>Writing\<close>

fun bson_type :: "bson \<Rightarrow> u8" where
  "bson_type BMinKey = 0xFF"
| "bson_type (BDouble d) = 1"
| "bson_type (BString s) = 2"
| "bson_type (BObject fs) = 3"
| "bson_type (BArray fs) = 4"
| "bson_type (BBinData t bs) = 5"
| "bson_type BUndefined = 6"
| "bson_type (BOid bs) = 7"
| "bson_type (BBool b) = 8"
| "bson_type (BDate d) = 9"
| "bson_type BNull = 10"
| "bson_type (BRegEx p f) = 11"
| "bson_type (BDBRef ns oid) = 12"
| "bson_type (BCode s) = 13"
| "bson_type (BSymbol s) = 14"
| "bson_type (BCodeWScope c fs) = 15"
| "bson_type (BInt i) = 16"
| "bson_type (BTimestamp t) = 17"
| "bson_type (BLong l) = 18"
| "bson_type (BDecimal d) = 19"
| "bson_type BMaxKey = 127"

text \<open>\<open>BufBuilder::appendNum(int)\<close> of a size.\<close>

definition int32 :: "nat \<Rightarrow> u32" where
  "int32 n = of_nat n"

definition int_bytes :: "nat \<Rightarrow> bytes" where
  "int_bytes n = le_bytes (int32 n)"

definition str_bytes :: "bytes \<Rightarrow> bytes" where
  "str_bytes s = int_bytes (length s + 1) @ s @ [0]"

fun value_bytes :: "bson \<Rightarrow> bytes" and fields_bytes :: "bson_obj \<Rightarrow> bytes" where
  "value_bytes BMinKey = []"
| "value_bytes BMaxKey = []"
| "value_bytes (BDouble d) = le_bytes d"
| "value_bytes (BString s) = str_bytes s"
| "value_bytes (BObject fs) = int_bytes (objsize fs) @ fields_bytes fs @ [0]"
| "value_bytes (BArray fs) = int_bytes (objsize fs) @ fields_bytes fs @ [0]"
| "value_bytes (BBinData t bs) = int_bytes (length bs) @ [t] @ bs"
| "value_bytes BUndefined = []"
| "value_bytes (BOid bs) = bs"
| "value_bytes (BBool b) = [if b then 1 else 0]"
| "value_bytes (BDate d) = le_bytes d"
| "value_bytes BNull = []"
| "value_bytes (BRegEx p f) = p @ [0] @ f @ [0]"
| "value_bytes (BDBRef ns oid) = str_bytes ns @ oid"
| "value_bytes (BCode s) = str_bytes s"
| "value_bytes (BSymbol s) = str_bytes s"
| "value_bytes (BCodeWScope c fs) =
     int_bytes (4 + 4 + (length c + 1) + objsize fs) @ str_bytes c @ int_bytes (objsize fs) @ fields_bytes fs @ [0]"
| "value_bytes (BInt i) = le_bytes i"
| "value_bytes (BTimestamp t) = le_bytes t"
| "value_bytes (BLong l) = le_bytes l"
| "value_bytes (BDecimal d) = le_bytes (fst d) @ le_bytes (snd d)"
| "fields_bytes [] = []"
| "fields_bytes ((n, v) # fs) = bson_type v # n @ [0] @ value_bytes v @ fields_bytes fs"

text \<open>\<open>BSONObjBuilder::obj\<close>: the size, the fields and the EOO byte.\<close>

definition bson_bytes :: "bson_obj \<Rightarrow> bytes" where
  "bson_bytes obj = int_bytes (objsize obj) @ fields_bytes obj @ [0]"

text \<open>What the builder's arguments satisfy: names and regular expressions are C strings, an object
  id has twelve bytes.\<close>

fun bson_wf :: "bson \<Rightarrow> bool" and fields_wf :: "bson_obj \<Rightarrow> bool" where
  "bson_wf (BObject fs) = fields_wf fs"
| "bson_wf (BArray fs) = fields_wf fs"
| "bson_wf (BCodeWScope c fs) = fields_wf fs"
| "bson_wf (BOid bs) = (length bs = 12)"
| "bson_wf (BRegEx p f) = (0 \<notin> set p \<and> 0 \<notin> set f)"
| "bson_wf (BDBRef ns oid) = (length oid = 12)"
| "bson_wf v = True"
| "fields_wf [] = True"
| "fields_wf ((n, v) # fs) = (0 \<notin> set n \<and> bson_wf v \<and> fields_wf fs)"

lemma length_int_bytes [simp]: "length (int_bytes n) = 4"
  by (simp add: int_bytes_def)

lemma length_str_bytes [simp]: "length (str_bytes s) = 4 + length s + 1"
  by (simp add: str_bytes_def)

lemma length_value_bytes:
  "bson_wf v \<Longrightarrow> length (value_bytes v) + 1 = value_size v"
  "fields_wf fs \<Longrightarrow> length (fields_bytes fs) = fields_size fs"
  by (induction v and fs rule: value_bytes_fields_bytes.induct) (auto simp: objsize_def)

lemma length_bson_bytes: "fields_wf obj \<Longrightarrow> length (bson_bytes obj) = objsize obj"
  by (simp add: bson_bytes_def length_value_bytes objsize_def)

lemma fields_bytes_append [simp]: "fields_bytes (xs @ ys) = fields_bytes xs @ fields_bytes ys"
  by (induction xs) auto

section \<open>Reading\<close>

text \<open>\<open>strlen\<close> and the string it ends.\<close>

definition c_string :: "bytes \<Rightarrow> (bytes \<times> bytes) result" where
  "c_string r = (let s = takeWhile (\<lambda>b. b \<noteq> 0) r in
     if length s = length r then Inl UndefinedBehaviour else Inr (s, drop (length s + 1) r))"

text \<open>The table of \<open>computeSize\<close>: whether the \<open>int\<close> after the name is added, and the fixed part.\<close>

definition sizeInfo :: "u8 \<Rightarrow> (bool \<times> int) option" where
  "sizeInfo t =
     (if t \<in> {6, 10, 0xFF, 127} then Some (False, 1)
      else if t \<in> {1, 9, 17, 18} then Some (False, 9)
      else if t = 7 then Some (False, 13)
      else if t = 8 then Some (False, 2)
      else if t = 16 then Some (False, 5)
      else if t = 19 then Some (False, 17)
      else if t \<in> {2, 13, 14} then Some (True, 5)
      else if t \<in> {3, 4, 15} then Some (True, 1)
      else if t = 5 then Some (True, 6)
      else if t = 12 then Some (True, 17)
      else None)"

text \<open>The bytes of an element after its name; the type byte and the name come off first, as in
  \<open>data + 1\<close> and \<open>value()\<close>.\<close>

definition valuesize :: "u8 \<Rightarrow> bytes \<Rightarrow> int result" where
  "valuesize t r =
     (case sizeInfo t of
        Some (False, n) \<Rightarrow> Inr (n - 1)
      | Some (True, n) \<Rightarrow> rbind (read_le UndefinedBehaviour r) (\<lambda>(sz :: u32, _). Inr (n - 1 + sint sz))
      | None \<Rightarrow> if t = 11
          then rbind (c_string r) (\<lambda>(p, r1). rbind (c_string r1) (\<lambda>(f, _). Inr (int (length p) + 1 + int (length f) + 1)))
          else Inl (Location 10320))"

text \<open>\<open>valueStringData\<close>: the string and its NUL follow their size.\<close>

definition valueStringData :: "bytes \<Rightarrow> (bytes \<times> bytes) result" where
  "valueStringData v =
     rbind (read_le UndefinedBehaviour v) (\<lambda>(sz :: u32, r).
     rbind (rguard (0 < sint sz \<and> unat sz \<le> length r) UndefinedBehaviour) (\<lambda>_.
     Inr (take (unat sz - 1) r, drop (unat sz) r)))"

definition read_u64 :: "bytes \<Rightarrow> u64 result" where
  "read_u64 v = rbind (read_le UndefinedBehaviour v) (\<lambda>(w, _). Inr w)"

text \<open>The value accessors of \<open>BSONElement\<close> on the \<open>valuesize\<close> bytes of a value that holds no object.\<close>

definition leaf_value :: "u8 \<Rightarrow> bytes \<Rightarrow> bson result" where
  "leaf_value t v =
     (if t = 0xFF then Inr BMinKey else if t = 127 then Inr BMaxKey
      else if t = 6 then Inr BUndefined else if t = 10 then Inr BNull
      else if t = 1 then rbind (read_u64 v) (\<lambda>d. Inr (BDouble d))
      else if t = 9 then rbind (read_u64 v) (\<lambda>d. Inr (BDate d))
      else if t = 17 then rbind (read_u64 v) (\<lambda>d. Inr (BTimestamp d))
      else if t = 18 then rbind (read_u64 v) (\<lambda>d. Inr (BLong d))
      else if t = 16 then rbind (read_le UndefinedBehaviour v) (\<lambda>(i, _). Inr (BInt i))
      else if t = 19 then rbind (read_le UndefinedBehaviour v) (\<lambda>(low, r). rbind (read_u64 r) (\<lambda>high. Inr (BDecimal (low, high))))
      else if t = 2 then rbind (valueStringData v) (\<lambda>(s, _). Inr (BString s))
      else if t = 13 then rbind (valueStringData v) (\<lambda>(s, _). Inr (BCode s))
      else if t = 14 then rbind (valueStringData v) (\<lambda>(s, _). Inr (BSymbol s))
      else if t = 7 then Inr (BOid v)
      else if t = 8 then rbind (read_le UndefinedBehaviour v) (\<lambda>(b :: u8, _). Inr (BBool (b \<noteq> 0)))
      else if t = 5 then rbind (read_le UndefinedBehaviour v) (\<lambda>(sz :: u32, r).
        rbind (read_le UndefinedBehaviour r) (\<lambda>(sub, bs). Inr (BBinData sub bs)))
      else if t = 11 then rbind (c_string v) (\<lambda>(p, r). rbind (c_string r) (\<lambda>(f, _). Inr (BRegEx p f)))
      else if t = 12 then rbind (valueStringData v) (\<lambda>(ns, oid). Inr (BDBRef ns oid))
      else Inl (Location 10320))"

text \<open>\<open>BSONObj(const char*)\<close> checks the size, and \<open>BSONObjIterator\<close> walks from past the size to
  the EOO byte.\<close>

definition BSONObjMaxInternalSize :: nat where
  "BSONObjMaxInternalSize = BSONObjMaxUserSize + 16 * 1024"

definition obj_body :: "bytes \<Rightarrow> bytes result" where
  "obj_body r =
     rbind (read_le UndefinedBehaviour r) (\<lambda>(sz :: u32, r1).
     rbind (rguard (0 < sint sz \<and> sint sz \<le> int BSONObjMaxInternalSize) BSONObjectTooLarge) (\<lambda>_.
     rbind (rguard (unat sz \<le> length r) UndefinedBehaviour) (\<lambda>_.
     Inr (take (unat sz - 5) r1))))"

lemma c_string_shrinks: "c_string r = Inr (s, r') \<Longrightarrow> length r' < length r"
  by (auto simp: c_string_def Let_def split: if_splits dest: length_takeWhile_le [THEN le_neq_implies_less])

lemma obj_body_shrinks: "obj_body r = Inr b \<Longrightarrow> length b < length r"
  by (auto simp: obj_body_def read_le_def Let_def split: if_splits)

lemma valueStringData_shrinks: "valueStringData v = Inr (s, r) \<Longrightarrow> length r \<le> length v"
  by (auto simp: valueStringData_def read_le_def Let_def split: if_splits)

function bson_value :: "u8 \<Rightarrow> bytes \<Rightarrow> bson result" and bson_elements :: "bytes \<Rightarrow> bson_obj result" where
  "bson_value t v =
     (if t = 3 then rbind (obj_body v) (\<lambda>b. rbind (bson_elements b) (\<lambda>fs. Inr (BObject fs)))
      else if t = 4 then rbind (obj_body v) (\<lambda>b. rbind (bson_elements b) (\<lambda>fs. Inr (BArray fs)))
      else if t = 15 then rbind (valueStringData (drop 4 v)) (\<lambda>(c, r).
        rbind (obj_body r) (\<lambda>b. rbind (bson_elements b) (\<lambda>fs. Inr (BCodeWScope c fs))))
      else leaf_value t v)"
| "bson_elements r =
     (case r of [] \<Rightarrow> Inr []
      | t # r1 \<Rightarrow>
          rbind (c_string r1) (\<lambda>(name, r2).
          rbind (valuesize t r2) (\<lambda>n.
          rbind (rguard (0 \<le> n \<and> n \<le> int (length r2)) UndefinedBehaviour) (\<lambda>_.
          rbind (bson_value t (take (nat n) r2)) (\<lambda>v.
          rbind (bson_elements (drop (nat n) r2)) (\<lambda>fs. Inr ((name, v) # fs)))))))"
  by pat_completeness auto
termination
  by (relation "measure (case_sum (\<lambda>(t, v). length v) (\<lambda>r. length r))")
    (auto dest!: obj_body_shrinks c_string_shrinks valueStringData_shrinks)

declare bson_value.simps [simp del] bson_elements.simps [simp del]

definition bsonObj :: "bytes \<Rightarrow> bson_obj result" where
  "bsonObj data = rbind (obj_body data) bson_elements"

section \<open>Reading back what was written\<close>

lemma unat_int: "n < 2 ^ 31 \<Longrightarrow> unat (int32 n) = n"
  by (simp add: int32_def unat_of_nat)

lemma sint_int: "n < 2 ^ 31 \<Longrightarrow> sint (int32 n) = int n"
  by (simp add: int32_def signed_of_nat signed_take_bit_int_eq_self)

lemma read_int_bytes [simp]: "read_le e (int_bytes n @ r) = Inr (int32 n, r)"
  by (simp add: int_bytes_def)

lemma c_string_append: "0 \<notin> set s \<Longrightarrow> c_string (s @ 0 # r) = Inr (s, r)"
proof -
  assume "0 \<notin> set s"
  then have "takeWhile (\<lambda>b. b \<noteq> 0) (s @ 0 # r) = s" by (metis (mono_tags, lifting) append_Nil2 takeWhile_append2 takeWhile.simps(2))
  then show ?thesis by (simp add: c_string_def)
qed

lemma valueStringData_bytes: "length s + 1 < 2 ^ 31 \<Longrightarrow> valueStringData (str_bytes s @ r) = Inr (s, r)"
  using sint_int [of "length s + 1"] unat_int [of "length s + 1"]
  by (simp add: valueStringData_def str_bytes_def)

lemma obj_body_bytes:
  "fields_wf fs \<Longrightarrow> objsize fs \<le> BSONObjMaxInternalSize \<Longrightarrow>
     obj_body (int_bytes (objsize fs) @ fields_bytes fs @ 0 # r) = Inr (fields_bytes fs)"
  using sint_int [of "objsize fs"] unat_int [of "objsize fs"] length_value_bytes(2) [of fs] objsize_pos [of fs]
  by (simp add: obj_body_def BSONObjMaxInternalSize_def BSONObjMaxUserSize_def objsize_def)

lemma valuesize_bytes:
  assumes "bson_wf v" "value_size v \<le> BSONObjMaxInternalSize"
  shows "valuesize (bson_type v) (value_bytes v @ r) = Inr (int (length (value_bytes v)))"
  using assms length_value_bytes(1) [of v] length_value_bytes(2)
  by (cases v) (auto simp: valuesize_def sizeInfo_def str_bytes_def sint_int BSONObjMaxInternalSize_def
      BSONObjMaxUserSize_def objsize_def c_string_append)

lemma read_whole [simp]:
  "read_le e (le_bytes (w :: u64)) = Inr (w, [])" "read_le e (le_bytes (i :: u32)) = Inr (i, [])"
  using read_le_le_bytes [of e w "[]"] read_le_le_bytes [of e i "[]"] by simp_all

lemma leaf_value_bytes:
  assumes "bson_wf v" "value_size v \<le> BSONObjMaxInternalSize" "bson_type v \<notin> {3, 4, 15}"
  shows "leaf_value (bson_type v) (value_bytes v) = Inr v"
  using assms valueStringData_bytes [where r = "[]"]
  by (cases v) (auto simp: leaf_value_def read_u64_def valueStringData_bytes c_string_append BSONObjMaxInternalSize_def
      BSONObjMaxUserSize_def)

lemma bson_value_bytes:
  "bson_wf v \<Longrightarrow> value_size v \<le> BSONObjMaxInternalSize \<Longrightarrow> bson_value (bson_type v) (value_bytes v) = Inr v"
  "fields_wf fs \<Longrightarrow> fields_size fs \<le> BSONObjMaxInternalSize \<Longrightarrow> bson_elements (fields_bytes fs) = Inr fs"
proof (induction v and fs rule: value_bytes_fields_bytes.induct)
  case (5 fs)
  then show ?case using obj_body_bytes [of fs "[]"] by (simp add: bson_value.simps objsize_def)
next
  case (6 fs)
  then show ?case using obj_body_bytes [of fs "[]"] by (simp add: bson_value.simps objsize_def)
next
  case (17 c fs)
  then show ?case
    using obj_body_bytes [of fs "[]"] valueStringData_bytes [of c "int_bytes (objsize fs) @ fields_bytes fs @ [0]"]
    by (simp add: bson_value.simps objsize_def BSONObjMaxInternalSize_def BSONObjMaxUserSize_def)
next
  case 22
  then show ?case by (simp add: bson_elements.simps)
next
  case (23 n v fs)
  then show ?case
    using valuesize_bytes [of v "fields_bytes fs"]
    by (subst bson_elements.simps) (simp add: c_string_append)
qed (simp add: bson_value.simps leaf_value_bytes del: value_bytes.simps bson_type.simps, simp)+

lemma bsonObj_bytes:
  "fields_wf obj \<Longrightarrow> objsize obj \<le> BSONObjMaxInternalSize \<Longrightarrow> bsonObj (bson_bytes obj @ r) = Inr obj"
  using obj_body_bytes [of obj r] bson_value_bytes(2) [of obj]
  by (simp add: bsonObj_def bson_bytes_def objsize_def)

end
