(* ===== verification/Bson_Validate.thy ===== *)
theory Bson_Validate
  imports Bson_Bytes
begin

text \<open>
  \<open>validateBSON\<close> (\<open>mongo/bson/bson_validate.cpp\<close>), the check bytes from outside pass before they are
  read as BSON: a state machine over a stack of frames, one per open object. The buffer is its
  position and the bytes from there on, so \<open>_maxLength - _position\<close> is the length of those. The
  \<open>_id\<close> element the source keeps is only for the text of its errors and is left out; the depth limit
  is the server parameter \<open>maxBSONDepth\<close>.
\<close>

section \<open>The buffer\<close>

record vbuffer =
  vb_position :: nat
  vb_rest :: bytes

definition vb_readNumber :: "vbuffer \<Rightarrow> ('a::len word \<times> vbuffer) result" where
  "vb_readNumber b = rbind (read_le InvalidBSON (vb_rest b)) (\<lambda>(w, r).
     Inr (w, \<lparr>vb_position = vb_position b + LENGTH('a) div 8, vb_rest = r\<rparr>))"

definition vb_readCString :: "vbuffer \<Rightarrow> (bytes \<times> vbuffer) result" where
  "vb_readCString b =
     (let s = takeWhile (\<lambda>c. c \<noteq> 0) (vb_rest b) in
      if length s = length (vb_rest b) then Inl InvalidBSON
      else Inr (s, \<lparr>vb_position = vb_position b + (length s + 1), vb_rest = drop (length s + 1) (vb_rest b)\<rparr>))"

text \<open>\<open>skip\<close> leaves the position strictly inside the buffer, or the caller fails.\<close>

definition vb_skip :: "nat \<Rightarrow> vbuffer \<Rightarrow> vbuffer result" where
  "vb_skip sz b = rbind (rguard (sz < length (vb_rest b)) InvalidBSON) (\<lambda>_.
     Inr \<lparr>vb_position = vb_position b + sz, vb_rest = drop sz (vb_rest b)\<rparr>)"

definition vb_readUTF8String :: "vbuffer \<Rightarrow> vbuffer result" where
  "vb_readUTF8String b =
     rbind (vb_readNumber b) (\<lambda>(sz :: u32, b1).
     rbind (rguard (0 < sint sz) InvalidBSON) (\<lambda>_.
     rbind (vb_skip (unat sz - 1) b1) (\<lambda>b2.
     rbind (vb_readNumber b2) (\<lambda>(c :: u8, b3).
     rbind (rguard (c = 0) InvalidBSON) (\<lambda>_. Inr b3)))))"

section \<open>Frames and states\<close>

datatype validation_state = BeginObj | WithinObj | EndObj | BeginCodeWScope | EndCodeWScope | Done

record vframe =
  vf_startPosition :: u32
  vf_expectedSize :: u32

definition vf_start :: "vframe \<Rightarrow> u32" where
  "vf_start f = vf_startPosition f AND NOT (push_bit 31 1)"

definition isCodeWithScope :: "vframe \<Rightarrow> bool" where
  "isCodeWithScope f \<longleftrightarrow> vf_startPosition f AND push_bit 31 1 \<noteq> 0"

definition setStartPosition :: "u32 \<Rightarrow> vframe \<Rightarrow> vframe" where
  "setStartPosition pos f = f\<lparr>vf_startPosition :=
     (vf_startPosition f AND push_bit 31 1) OR (pos AND NOT (push_bit 31 1))\<rparr>"

definition setIsCodeWithScope :: "bool \<Rightarrow> vframe \<Rightarrow> vframe" where
  "setIsCodeWithScope c f = f\<lparr>vf_startPosition :=
     (if c then vf_startPosition f OR push_bit 31 1 else vf_startPosition f AND NOT (push_bit 31 1))\<rparr>"

text \<open>A value-initialized frame that starts at the buffer's position.\<close>

definition open_frame :: "bool \<Rightarrow> vbuffer \<Rightarrow> u32 \<Rightarrow> vframe" where
  "open_frame c b sz = (setIsCodeWithScope c (setStartPosition (of_nat (vb_position b))
     \<lparr>vf_startPosition = 0, vf_expectedSize = 0\<rparr>))\<lparr>vf_expectedSize := sz\<rparr>"

text \<open>The switch over the element's type: its value's bytes, when it holds no object, and the state
  that follows.\<close>

definition validateValue :: "u8 \<Rightarrow> vbuffer \<Rightarrow> (validation_state \<times> vbuffer) result" where
  "validateValue type b =
     (if type \<in> {0xFF, 127, 10, 6} then Inr (WithinObj, b)
      else if type = 7 then rbind (vb_skip 12 b) (\<lambda>b1. Inr (WithinObj, b1))
      else if type = 16 then rbind (vb_skip 4 b) (\<lambda>b1. Inr (WithinObj, b1))
      else if type = 8 then rbind (vb_readNumber b) (\<lambda>(val :: u8, b1).
        rbind (rguard (val = 0 \<or> val = 1) InvalidBSON) (\<lambda>_. Inr (WithinObj, b1)))
      else if type \<in> {1, 18, 17, 9} then rbind (vb_skip 8 b) (\<lambda>b1. Inr (WithinObj, b1))
      else if type = 19 then rbind (vb_skip 16 b) (\<lambda>b1. Inr (WithinObj, b1))
      else if type = 12 then rbind (vb_readUTF8String b) (\<lambda>b1.
        rbind (vb_skip 12 b1) (\<lambda>b2. Inr (WithinObj, b2)))
      else if type = 11 then rbind (vb_readCString b) (\<lambda>(_, b1).
        rbind (vb_readCString b1) (\<lambda>(_, b2). Inr (WithinObj, b2)))
      else if type \<in> {13, 14, 2} then rbind (vb_readUTF8String b) (\<lambda>b1. Inr (WithinObj, b1))
      else if type = 5 then rbind (vb_readNumber b) (\<lambda>(sz :: u32, b1).
        rbind (rguard (\<not> (sint sz < 0 \<or> sint sz = 2 ^ 31 - 1)) InvalidBSON) (\<lambda>_.
        rbind (vb_skip (1 + unat sz) b1) (\<lambda>b2. Inr (WithinObj, b2))))
      else if type = 15 then Inr (BeginCodeWScope, b)
      else if type \<in> {3, 4} then Inr (BeginObj, b)
      else Inl InvalidBSON)"

definition validateElementInfo :: "vbuffer \<Rightarrow> (validation_state \<times> vbuffer) result" where
  "validateElementInfo b =
     rbind (vb_readNumber b) (\<lambda>(type :: u8, b1).
       if type = 0 then Inr (EndObj, b1)
       else rbind (vb_readCString b1) (\<lambda>(elemName, b2). validateValue type b2))"

section \<open>The loop\<close>

text \<open>\<open>int actualLength = buffer->position() - curr->startPosition()\<close>.\<close>

definition actualLength :: "vbuffer \<Rightarrow> vframe \<Rightarrow> u32" where
  "actualLength b f = of_nat (vb_position b) - vf_start f"

lemma vb_shrinks:
  "vb_readNumber b = Inr (w :: u8, b') \<Longrightarrow> length (vb_rest b') < length (vb_rest b)"
  "vb_readNumber b = Inr (i :: u32, b') \<Longrightarrow> length (vb_rest b') < length (vb_rest b)"
  "vb_readCString b = Inr (s, b') \<Longrightarrow> length (vb_rest b') < length (vb_rest b)"
  "vb_skip n b = Inr b' \<Longrightarrow> length (vb_rest b') \<le> length (vb_rest b)"
  by (auto simp: vb_readNumber_def vb_readCString_def vb_skip_def read_le_def Let_def split: if_splits
      dest: length_takeWhile_le [THEN le_neq_implies_less])

lemma vb_readUTF8String_shrinks:
  "vb_readUTF8String b = Inr b' \<Longrightarrow> length (vb_rest b') < length (vb_rest b)"
  by (fastforce simp: vb_readUTF8String_def dest: vb_shrinks)

lemma validateValue_shrinks:
  "validateValue t b = Inr (st, b') \<Longrightarrow> length (vb_rest b') \<le> length (vb_rest b)"
  by (fastforce simp: validateValue_def split: if_splits dest: vb_shrinks vb_readUTF8String_shrinks)

lemma validateElementInfo_shrinks:
  "validateElementInfo b = Inr (st, b') \<Longrightarrow> length (vb_rest b') < length (vb_rest b)"
  by (fastforce simp: validateElementInfo_def split: if_splits dest: vb_shrinks validateValue_shrinks)

function validateLoop :: "nat \<Rightarrow> vframe list \<Rightarrow> validation_state \<Rightarrow> vbuffer \<Rightarrow> unit result" where
  "validateLoop maxDepth frames BeginObj b =
     rbind (rguard (\<not> length frames > maxDepth) Overflow) (\<lambda>_.
     rbind (vb_readNumber b) (\<lambda>(sz :: u32, b1).
     rbind (validateElementInfo b1) (\<lambda>(st, b2). validateLoop maxDepth (open_frame False b sz # frames) st b2)))"
| "validateLoop maxDepth frames WithinObj b =
     rbind (validateElementInfo b) (\<lambda>(st, b1). validateLoop maxDepth frames st b1)"
| "validateLoop maxDepth [] EndObj b = Inl UndefinedBehaviour"
| "validateLoop maxDepth (f # frames) EndObj b =
     rbind (rguard (actualLength b f = vf_expectedSize f) InvalidBSON) (\<lambda>_.
       case frames of [] \<Rightarrow> validateLoop maxDepth frames Done b
       | g # _ \<Rightarrow> validateLoop maxDepth frames (if isCodeWithScope g then EndCodeWScope else WithinObj) b)"
| "validateLoop maxDepth frames BeginCodeWScope b =
     rbind (vb_readNumber b) (\<lambda>(sz :: u32, b1).
     rbind (vb_readUTF8String b1) (\<lambda>b2. validateLoop maxDepth (open_frame True b sz # frames) BeginObj b2))"
| "validateLoop maxDepth [] EndCodeWScope b = Inl UndefinedBehaviour"
| "validateLoop maxDepth (f # frames) EndCodeWScope b =
     rbind (rguard (actualLength b f = vf_expectedSize f) InvalidBSON) (\<lambda>_.
       if frames = [] then Inl InvalidBSON else validateLoop maxDepth frames WithinObj b)"
| "validateLoop maxDepth frames Done b = Inr ()"
  by pat_completeness auto
termination
  by (relation "inv_image (less_than <*lex*> less_than) (\<lambda>(d, frames, st, b). (length (vb_rest b), length frames))")
    (auto dest!: vb_shrinks(2) validateElementInfo_shrinks vb_readUTF8String_shrinks)

declare validateLoop.simps [simp del]

definition validateBSONIterative :: "nat \<Rightarrow> vbuffer \<Rightarrow> unit result" where
  "validateBSONIterative maxDepth b = validateLoop maxDepth [] BeginObj b"

definition validateBSON :: "nat \<Rightarrow> bytes \<Rightarrow> unit result" where
  "validateBSON maxDepth bs =
     (if length bs < 5 then Inl InvalidBSON
      else validateBSONIterative maxDepth \<lparr>vb_position = 0, vb_rest = bs\<rparr>)"

section \<open>What is accepted\<close>

text \<open>The frames an object needs below its own.\<close>

fun value_depth :: "bson \<Rightarrow> nat" and fields_depth :: "bson_obj \<Rightarrow> nat" where
  "value_depth (BObject fs) = 1 + fields_depth fs"
| "value_depth (BArray fs) = 1 + fields_depth fs"
| "value_depth (BCodeWScope c fs) = 2 + fields_depth fs"
| "value_depth v = 0"
| "fields_depth [] = 0"
| "fields_depth ((n, v) # fs) = max (value_depth v) (fields_depth fs)"

lemma flag_bits:
  assumes p: "\<And>n. 31 \<le> n \<Longrightarrow> \<not> bit p n" and t: "\<And>n. bit t n \<longleftrightarrow> n = 31"
  shows "p AND NOT t = p" "(p OR t) AND NOT t = p" "p AND t = 0" "(p OR t) AND t = (t :: u32)"
  by (rule bit_word_eqI, use p t in \<open>auto simp: bit_and_iff bit_or_iff bit_not_iff\<close>)+

lemma open_frame:
  assumes "vb_position b < 2 ^ 31"
  shows "vf_start (open_frame c b sz) = of_nat (vb_position b)"
    and "isCodeWithScope (open_frame c b sz) = c"
    and "vf_expectedSize (open_frame c b sz) = sz"
proof -
  let ?p = "of_nat (vb_position b) :: u32" and ?t = "push_bit 31 1 :: u32"
  have p: "\<not> bit ?p n" if "31 \<le> n" for n
  proof -
    have "vb_position b < 2 ^ n" using assms power_increasing [OF that, of "2 :: nat"] by linarith
    then have "\<not> bit (vb_position b) n" by (simp add: bit_iff_odd)
    then show ?thesis by (simp add: bit_of_nat_iff)
  qed
  have t: "bit ?t n \<longleftrightarrow> n = 31" for n using bit_exp_iff [of 31 n, where 'a = "32 word"] by auto
  note flag_bits [OF p t]
  moreover have "?t \<noteq> 0" by simp
  ultimately show "vf_start (open_frame c b sz) = ?p" "isCodeWithScope (open_frame c b sz) = c"
    "vf_expectedSize (open_frame c b sz) = sz"
    unfolding open_frame_def setIsCodeWithScope_def setStartPosition_def vf_start_def isCodeWithScope_def
    by (simp_all split: if_splits)
qed

text \<open>Reading an element that is not an object.\<close>

lemma vb_readNumber_bytes [simp]:
  "8 dvd LENGTH('a) \<Longrightarrow> vb_readNumber \<lparr>vb_position = p, vb_rest = le_bytes (w :: 'a::len word) @ r\<rparr> =
     Inr (w, \<lparr>vb_position = p + LENGTH('a) div 8, vb_rest = r\<rparr>)"
  "vb_readNumber \<lparr>vb_position = p, vb_rest = c # r\<rparr> = Inr (c :: u8, \<lparr>vb_position = p + 1, vb_rest = r\<rparr>)"
  "vb_readNumber \<lparr>vb_position = p, vb_rest = int_bytes n @ r\<rparr> = Inr (int32 n, \<lparr>vb_position = p + 4, vb_rest = r\<rparr>)"
  by (simp_all add: vb_readNumber_def)

lemma takeWhile_nul: "0 \<notin> set s \<Longrightarrow> takeWhile (\<lambda>c. c \<noteq> 0) (s @ 0 # r) = (s :: bytes)"
  by (induction s) auto

lemma vb_readCString_bytes [simp]:
  "0 \<notin> set s \<Longrightarrow> vb_readCString \<lparr>vb_position = p, vb_rest = s @ 0 # r\<rparr> =
     Inr (s, \<lparr>vb_position = p + (length s + 1), vb_rest = r\<rparr>)"
  by (simp add: vb_readCString_def takeWhile_nul)

lemma vb_skip_bytes [simp]:
  "n = length s \<Longrightarrow> r \<noteq> [] \<Longrightarrow> vb_skip n \<lparr>vb_position = p, vb_rest = s @ r\<rparr> =
     Inr \<lparr>vb_position = p + length s, vb_rest = r\<rparr>"
  by (simp add: vb_skip_def)

lemma vb_readUTF8String_bytes [simp]:
  "length s + 1 < 2 ^ 31 \<Longrightarrow> vb_readUTF8String \<lparr>vb_position = p, vb_rest = str_bytes s @ r\<rparr> =
     Inr \<lparr>vb_position = p + length (str_bytes s), vb_rest = r\<rparr>"
  using unat_int [of "length s + 1"] sint_int [of "length s + 1"]
  by (simp add: vb_readUTF8String_def str_bytes_def)

definition leaf :: "bson \<Rightarrow> bool" where
  "leaf v \<longleftrightarrow> bson_type v \<notin> {3, 4, 15}"

lemma validateElementInfo_leaf:
  assumes "bson_wf v" "leaf v" "0 \<notin> set n" "length (value_bytes v) < 2 ^ 31" "r \<noteq> []"
  shows "validateElementInfo \<lparr>vb_position = p, vb_rest = bson_type v # n @ 0 # value_bytes v @ r\<rparr> =
    Inr (WithinObj, \<lparr>vb_position = p + (length n + 2) + length (value_bytes v), vb_rest = r\<rparr>)"
proof (cases v)
  case (BBinData t bs)
  then show ?thesis
    using assms sint_int [of "length bs"] unat_int [of "length bs"] vb_skip_bytes [of "Suc (length bs)" "t # bs" r]
    by (simp add: validateElementInfo_def validateValue_def)
next
  case (BDecimal d)
  then show ?thesis
    using assms vb_skip_bytes [of 16 "le_bytes (fst d) @ le_bytes (snd d)" r]
    by (simp add: validateElementInfo_def validateValue_def)
qed (use assms in \<open>auto simp: validateElementInfo_def validateValue_def leaf_def\<close>)

lemma vb_readNumber_sound:
  "vb_readNumber b = Inr (i :: u32, b') \<Longrightarrow> vb_rest b = le_bytes i @ vb_rest b' \<and> vb_position b' = vb_position b + 4"
  "vb_readNumber b = Inr (c :: u8, b') \<Longrightarrow> vb_rest b = c # vb_rest b' \<and> vb_position b' = vb_position b + 1"
  by (auto simp: vb_readNumber_def dest!: read_le_sounds)

lemma vb_readCString_sound:
  assumes "vb_readCString b = Inr (s, b')"
  shows "vb_rest b = s @ 0 # vb_rest b' \<and> 0 \<notin> set s \<and> vb_position b' = vb_position b + (length s + 1)"
proof -
  let ?s = "takeWhile (\<lambda>c. c \<noteq> 0) (vb_rest b)"
  have s: "s = ?s" "length ?s < length (vb_rest b)" "vb_rest b' = drop (length ?s + 1) (vb_rest b)"
    "vb_position b' = vb_position b + (length s + 1)"
    using assms length_takeWhile_le [of "\<lambda>c. c \<noteq> 0" "vb_rest b"]
    by (auto simp: vb_readCString_def Let_def split: if_splits)
  have "vb_rest b ! length ?s = 0" using nth_length_takeWhile [OF s(2)] by simp
  then have "vb_rest b = take (length ?s) (vb_rest b) @ 0 # vb_rest b'"
    using id_take_nth_drop [OF s(2)] s(3) by simp
  moreover have "take (length ?s) (vb_rest b) = s" using s(1) takeWhile_eq_take [of "\<lambda>c. c \<noteq> 0" "vb_rest b"] by simp
  moreover have "0 \<notin> set s" using s(1) set_takeWhileD by fastforce
  ultimately show ?thesis using s(4) by simp
qed

lemma vb_skip_sound:
  "vb_skip n b = Inr b' \<Longrightarrow> \<exists>s. length s = n \<and> vb_rest b = s @ vb_rest b' \<and> vb_rest b' \<noteq> [] \<and> vb_position b' = vb_position b + n"
  by (rule exI [of _ "take n (vb_rest b)"]) (auto simp: vb_skip_def)

lemma vb_readUTF8String_sound:
  assumes "vb_readUTF8String b = Inr b'"
  shows "\<exists>s. vb_rest b = str_bytes s @ vb_rest b' \<and> vb_position b' = vb_position b + length (str_bytes s)"
proof -
  obtain sz :: u32 and b1 b2 where b: "vb_readNumber b = Inr (sz, b1)" "0 < sint sz" "vb_skip (unat sz - 1) b1 = Inr b2"
    "vb_readNumber b2 = Inr (0 :: u8, b')"
    using assms by (auto simp: vb_readUTF8String_def)
  obtain s where s: "length s = unat sz - 1" "vb_rest b1 = s @ vb_rest b2" "vb_position b2 = vb_position b1 + (unat sz - 1)"
    using vb_skip_sound [OF b(3)] by blast
  have "sz \<noteq> 0" using b(2) by auto
  then have "int32 (length s + 1) = sz" using s(1) by (simp add: int32_def unat_gt_0 flip: of_nat_Suc)
  then have "vb_rest b = str_bytes s @ vb_rest b' \<and> vb_position b' = vb_position b + length (str_bytes s)"
    using vb_readNumber_sound(1) [OF b(1)] vb_readNumber_sound(2) [OF b(4)] s
    by (simp add: str_bytes_def int_bytes_def)
  then show ?thesis by blast
qed

text \<open>The bytes from \<open>b\<close> to \<open>b'\<close> are those of a value of type \<open>t\<close>.\<close>

definition value_between :: "u8 \<Rightarrow> vbuffer \<Rightarrow> vbuffer \<Rightarrow> bool" where
  "value_between t b b' \<longleftrightarrow> (\<exists>v. bson_wf v \<and> leaf v \<and> bson_type v = t \<and>
     vb_rest b = value_bytes v @ vb_rest b' \<and> vb_position b' = vb_position b + length (value_bytes v))"

lemma value_betweenI:
  "bson_wf v \<Longrightarrow> vb_rest b = value_bytes v @ vb_rest b' \<Longrightarrow> vb_position b' = vb_position b + length (value_bytes v) \<Longrightarrow>
     t = bson_type v \<Longrightarrow> leaf v \<Longrightarrow> value_between t b b'"
  by (auto simp: value_between_def)

lemma value_between_fixed:
  assumes "vb_skip n b = Inr b'" "(t, n) \<in> {(7, 12), (16, 4), (1, 8), (18, 8), (17, 8), (9, 8), (19, 16)}"
  shows "value_between t b b'"
proof -
  obtain s where s: "length s = n" "vb_rest b = s @ vb_rest b'" "vb_position b' = vb_position b + n"
    using vb_skip_sound [OF assms(1)] by blast
  have w: "le_bytes (le_word s :: u64) = s" if "n = 8" using s(1) that le_bytes_le_word [of s, where 'a = 64] by simp
  have i: "le_bytes (le_word s :: u32) = s" if "n = 4" using s(1) that le_bytes_le_word [of s, where 'a = 32] by simp
  have d: "le_bytes (le_word (take 8 s) :: u64) @ le_bytes (le_word (drop 8 s) :: u64) = s" if "n = 16"
    using s(1) that by (simp add: le_bytes_le_word)
  define v where "v = (if t = 7 then BOid s else if t = 16 then BInt (le_word s) else if t = 1 then BDouble (le_word s)
    else if t = 18 then BLong (le_word s) else if t = 17 then BTimestamp (le_word s) else if t = 9 then BDate (le_word s)
    else BDecimal (le_word (take 8 s), le_word (drop 8 s)))"
  have "bson_wf v \<and> leaf v \<and> bson_type v = t \<and> value_bytes v = s"
    using assms(2) s(1) w i d by (auto simp: v_def leaf_def)
  then show ?thesis using s unfolding value_between_def by auto
qed

lemma value_between_string:
  assumes "vb_readUTF8String b = Inr b'" "t \<in> {13, 14, 2}"
  shows "value_between t b b'"
proof -
  obtain s where "vb_rest b = str_bytes s @ vb_rest b'" "vb_position b' = vb_position b + length (str_bytes s)"
    using vb_readUTF8String_sound [OF assms(1)] by blast
  then show ?thesis
    using assms(2) value_betweenI [of "BCode s"] value_betweenI [of "BSymbol s"] value_betweenI [of "BString s"]
    by (auto simp: leaf_def)
qed

lemma value_between_dbref:
  assumes "vb_readUTF8String b = Inr b1" "vb_skip 12 b1 = Inr b'"
  shows "value_between 12 b b'"
proof -
  obtain s where s: "vb_rest b = str_bytes s @ vb_rest b1" "vb_position b1 = vb_position b + length (str_bytes s)"
    using vb_readUTF8String_sound [OF assms(1)] by blast
  obtain oid where "length oid = 12" "vb_rest b1 = oid @ vb_rest b'" "vb_position b' = vb_position b1 + 12"
    using vb_skip_sound [OF assms(2)] by blast
  then show ?thesis using s by (intro value_betweenI [of "BDBRef s oid"]) (simp_all add: leaf_def)
qed

lemma value_between_regex:
  assumes "vb_readCString b = Inr (p, b1)" "vb_readCString b1 = Inr (f, b')"
  shows "value_between 11 b b'"
  using vb_readCString_sound [OF assms(1)] vb_readCString_sound [OF assms(2)]
  by (intro value_betweenI [of "BRegEx p f"]) (simp_all add: leaf_def)

lemma value_between_bool:
  assumes "vb_readNumber b = Inr (c :: u8, b')" "c = 0 \<or> c = 1"
  shows "value_between 8 b b'"
  using vb_readNumber_sound(2) [OF assms(1)] assms(2)
  by (intro value_betweenI [of "BBool (c = 1)"]) (auto simp: leaf_def)

lemma value_between_bindata:
  assumes "vb_readNumber b = Inr (sz :: u32, b1)" "vb_skip (1 + unat sz) b1 = Inr b'"
  shows "value_between 5 b b'"
proof -
  obtain s where s: "length s = 1 + unat sz" "vb_rest b1 = s @ vb_rest b'" "vb_position b' = vb_position b1 + (1 + unat sz)"
    using vb_skip_sound [OF assms(2)] by blast
  then obtain t bs where "s = t # bs" by (cases s) auto
  moreover have "int32 (unat sz) = sz" by (simp add: int32_def)
  ultimately show ?thesis
    using s vb_readNumber_sound(1) [OF assms(1)]
    by (intro value_betweenI [of "BBinData t bs"]) (simp_all add: leaf_def int_bytes_def)
qed

lemma value_between_empty: "t \<in> {0xFF, 127, 10, 6} \<Longrightarrow> value_between t b b"
  using value_betweenI [of BMinKey b b] value_betweenI [of BMaxKey b b] value_betweenI [of BNull b b]
    value_betweenI [of BUndefined b b]
  by (auto simp: leaf_def)

lemmas value_between_intros = value_between_empty value_between_bindata value_between_bool
  value_between_regex value_between_dbref value_between_string value_between_fixed

definition value_follows :: "u8 \<Rightarrow> vbuffer \<Rightarrow> validation_state \<Rightarrow> vbuffer \<Rightarrow> bool" where
  "value_follows t b st b' \<longleftrightarrow> st = WithinObj \<and> value_between t b b' \<or>
     st = BeginObj \<and> b' = b \<and> t \<in> {3, 4} \<or> st = BeginCodeWScope \<and> b' = b \<and> t = 15"

lemma validateValue_sound:
  assumes "validateValue t b = Inr (st, b')"
  shows "value_follows t b st b'"
proof -
  consider "t \<in> {0xFF, 127, 10, 6}" | "t \<in> {7, 16, 1, 18, 17, 9, 19}" | "t = 8" | "t = 12" | "t = 11" | "t \<in> {13, 14, 2}"
    | "t = 5" | "t \<in> {3, 4, 15}" | "t \<notin> {0xFF, 127, 10, 6, 7, 16, 8, 1, 18, 17, 9, 19, 12, 11, 13, 14, 2, 5, 15, 3, 4}"
    by blast
  then show ?thesis
  proof cases
    case 1
    then show ?thesis using assms value_between_empty [OF 1] by (simp add: validateValue_def value_follows_def)
  next
    case 2
    then show ?thesis
      using assms value_between_fixed [of _ b b' t] by (auto simp: validateValue_def value_follows_def)
  next
    case 3
    then show ?thesis using assms by (auto simp: validateValue_def value_follows_def intro: value_between_bool)
  next
    case 4
    then show ?thesis using assms by (auto simp: validateValue_def value_follows_def intro: value_between_dbref)
  next
    case 5
    then show ?thesis using assms by (auto simp: validateValue_def value_follows_def intro: value_between_regex)
  next
    case 6
    then show ?thesis using assms value_between_string [of b b' t] by (auto simp: validateValue_def value_follows_def)
  next
    case 7
    then show ?thesis using assms value_between_bindata [of b _ _ b'] by (auto simp: validateValue_def value_follows_def)
  next
    case 8
    then show ?thesis using assms by (auto simp: validateValue_def value_follows_def)
  next
    case 9
    then show ?thesis using assms by (simp add: validateValue_def)
  qed
qed

lemma validateElementInfo_sound:
  assumes "validateElementInfo b = Inr (st, b')"
  obtains "st = EndObj" "vb_rest b = 0 # vb_rest b'" "vb_position b' = vb_position b + 1"
  | n t b2 where "0 \<notin> set n" "vb_rest b = t # n @ 0 # vb_rest b2" "vb_position b2 = vb_position b + (length n + 2)"
      "value_follows t b2 st b'"
proof -
  obtain t :: u8 and b1 where t: "vb_readNumber b = Inr (t, b1)"
    using assms by (auto simp: validateElementInfo_def)
  show ?thesis
  proof (cases "t = 0")
    case True
    then show ?thesis using assms t vb_readNumber_sound(2) [OF t] that(1) by (simp add: validateElementInfo_def)
  next
    case False
    obtain n b2 where n: "vb_readCString b1 = Inr (n, b2)" "validateValue t b2 = Inr (st, b')"
      using assms t False by (auto simp: validateElementInfo_def)
    then show ?thesis
      using vb_readCString_sound [OF n(1)] vb_readNumber_sound(2) [OF t] validateValue_sound [OF n(2)]
      by (intro that(2) [of n t b2]) simp_all
  qed
qed

subsection \<open>Every encoding is accepted\<close>

lemma validateLoop_begin:
  "length frames \<le> d \<Longrightarrow> vb_readNumber b = Inr (sz :: u32, b1) \<Longrightarrow>
     validateLoop d frames BeginObj b = validateLoop d (open_frame False b sz # frames) WithinObj b1"
  by (simp add: validateLoop.simps)

lemma actualLength_eq:
  assumes "vb_position b < 2 ^ 31" "vb_position b' = vb_position b + n"
  shows "actualLength b' (open_frame c b sz) = int32 n"
  using assms by (simp add: actualLength_def open_frame int32_def)

lemma validateLoop_object:
  assumes inner: "\<And>f frames'. \<not> isCodeWithScope f \<Longrightarrow> frames' = g # frames \<Longrightarrow>
      validateLoop d (f # frames') WithinObj \<lparr>vb_position = p + 4, vb_rest = fields_bytes fs @ 0 # r\<rparr> =
      validateLoop d (f # frames') EndObj \<lparr>vb_position = p + 4 + length (fields_bytes fs) + 1, vb_rest = r\<rparr>"
    and "length (g # frames) \<le> d" "p < 2 ^ 31" "fields_wf fs"
  shows "validateLoop d (g # frames) BeginObj
      \<lparr>vb_position = p, vb_rest = int_bytes (objsize fs) @ fields_bytes fs @ 0 # r\<rparr> =
    validateLoop d (g # frames) (if isCodeWithScope g then EndCodeWScope else WithinObj)
      \<lparr>vb_position = p + objsize fs, vb_rest = r\<rparr>"
proof -
  let ?b = "\<lparr>vb_position = p, vb_rest = int_bytes (objsize fs) @ fields_bytes fs @ 0 # r\<rparr>"
  let ?f = "open_frame False ?b (int32 (objsize fs))"
  have len: "p + 4 + length (fields_bytes fs) + 1 = p + objsize fs"
    using length_value_bytes(2) [OF assms(4)] by (simp add: objsize_def)
  have "validateLoop d (g # frames) BeginObj ?b =
      validateLoop d (?f # g # frames) EndObj \<lparr>vb_position = p + objsize fs, vb_rest = r\<rparr>"
    using validateLoop_begin [OF assms(2), of ?b] inner [of ?f "g # frames"] open_frame(2) [of ?b False] assms(3)
    unfolding len by simp
  also have "\<dots> = validateLoop d (g # frames) (if isCodeWithScope g then EndCodeWScope else WithinObj)
      \<lparr>vb_position = p + objsize fs, vb_rest = r\<rparr>"
    using actualLength_eq [of ?b _ "objsize fs" False] open_frame(3) [of ?b False] assms(3)
    by (simp add: validateLoop.simps)
  finally show ?thesis .
qed

definition within_ok :: "nat \<Rightarrow> bson_obj \<Rightarrow> bool" where
  "within_ok d fs \<longleftrightarrow> (\<forall>f frames p r. \<not> isCodeWithScope f \<and> length frames + fields_depth fs \<le> d \<and>
       p + length (fields_bytes fs) + 1 + length r < 2 ^ 31 \<longrightarrow>
     validateLoop d (f # frames) WithinObj \<lparr>vb_position = p, vb_rest = fields_bytes fs @ 0 # r\<rparr> =
     validateLoop d (f # frames) EndObj \<lparr>vb_position = p + length (fields_bytes fs) + 1, vb_rest = r\<rparr>)"

lemma validateLoop_value:
  assumes wf: "0 \<notin> set n" "bson_wf v" "\<not> isCodeWithScope f" "r \<noteq> []"
    and depth: "length frames + value_depth v \<le> d" and size: "p + (length n + 2) + length (value_bytes v) + length r < 2 ^ 31"
    and inner: "\<And>gs. v = BObject gs \<or> v = BArray gs \<or> (\<exists>c. v = BCodeWScope c gs) \<Longrightarrow> within_ok d gs"
  shows "validateLoop d (f # frames) WithinObj \<lparr>vb_position = p, vb_rest = bson_type v # n @ 0 # value_bytes v @ r\<rparr> =
    validateLoop d (f # frames) WithinObj \<lparr>vb_position = p + (length n + 2) + length (value_bytes v), vb_rest = r\<rparr>"
proof -
  let ?q = "p + (length n + 2)"
  have obj: "validateLoop d (g # frames') BeginObj
        \<lparr>vb_position = p', vb_rest = int_bytes (objsize gs) @ fields_bytes gs @ 0 # r\<rparr> =
      validateLoop d (g # frames') (if isCodeWithScope g then EndCodeWScope else WithinObj)
        \<lparr>vb_position = p' + objsize gs, vb_rest = r\<rparr>"
    if "within_ok d gs" "fields_wf gs" "length (g # frames') + fields_depth gs \<le> d" "p' + objsize gs + length r < 2 ^ 31"
    for gs g frames' p'
    by (rule validateLoop_object)
      (use that length_value_bytes(2) [OF that(2)] in \<open>simp_all add: within_ok_def objsize_def\<close>)
  consider "leaf v" | gs where "v = BObject gs \<or> v = BArray gs" | c gs where "v = BCodeWScope c gs"
    by (cases v) (auto simp: leaf_def)
  then show ?thesis
  proof cases
    case 1
    then show ?thesis
      using validateElementInfo_leaf [OF wf(2) 1 wf(1) _ wf(4), of p] size by (simp add: validateLoop.simps(2))
  next
    case 2
    then have "length (value_bytes v) = objsize gs" "fields_wf gs" "value_depth v = 1 + fields_depth gs" "within_ok d gs"
      using length_value_bytes(2) [of gs] wf(2) inner [of gs] by (auto simp: objsize_def)
    moreover have "validateElementInfo \<lparr>vb_position = p, vb_rest = bson_type v # n @ 0 # value_bytes v @ r\<rparr> =
        Inr (BeginObj, \<lparr>vb_position = ?q, vb_rest = int_bytes (objsize gs) @ fields_bytes gs @ 0 # r\<rparr>)"
      using 2 wf(1) by (auto simp: validateElementInfo_def validateValue_def)
    ultimately show ?thesis
      using obj [of gs f frames ?q] wf(3) depth size by (simp add: validateLoop.simps(2))
  next
    case 3
    let ?o = "?q + 4 + length (str_bytes c)" and ?sz = "4 + 4 + (length c + 1) + objsize gs"
    let ?b = "\<lparr>vb_position = ?q, vb_rest = value_bytes v @ r\<rparr>"
    have len: "length (value_bytes v) = ?sz" "fields_wf gs" "within_ok d gs"
      using length_value_bytes(2) [of gs] wf(2) inner [of gs] 3 by (auto simp: objsize_def)
    have "validateLoop d (f # frames) BeginCodeWScope ?b =
        validateLoop d (open_frame True ?b (int32 ?sz) # f # frames) BeginObj
          \<lparr>vb_position = ?o, vb_rest = int_bytes (objsize gs) @ fields_bytes gs @ 0 # r\<rparr>"
      using 3 size len(1) by (simp add: validateLoop.simps)
    also have "\<dots> = validateLoop d (open_frame True ?b (int32 ?sz) # f # frames) EndCodeWScope
        \<lparr>vb_position = ?q + length (value_bytes v), vb_rest = r\<rparr>"
      using obj [of gs "open_frame True ?b (int32 ?sz)" "f # frames" ?o] open_frame(2) [of ?b True] depth size 3 len
      by (simp add: add.assoc)
    also have "\<dots> = validateLoop d (f # frames) WithinObj \<lparr>vb_position = ?q + length (value_bytes v), vb_rest = r\<rparr>"
      using actualLength_eq [of ?b _ ?sz True] open_frame(3) [of ?b True] size len(1) by (simp add: validateLoop.simps)
    finally show ?thesis
      using 3 wf(1) by (simp add: validateLoop.simps(2) validateElementInfo_def validateValue_def)
  qed
qed

lemma validateLoop_fields: "fields_wf fs \<Longrightarrow> within_ok d fs"
proof (induction "length (fields_bytes fs)" arbitrary: fs rule: less_induct)
  case less
  show ?case
  proof (cases fs)
    case Nil
    then show ?thesis by (simp add: within_ok_def validateLoop.simps validateElementInfo_def)
  next
    case (Cons nv fs')
    obtain n v where nv: "nv = (n, v)" by (cases nv)
    have wf: "0 \<notin> set n" "bson_wf v" "fields_wf fs'" using less.prems(1) Cons nv by auto
    have tail: "within_ok d fs'" using less.hyps [of fs'] wf(3) Cons nv by simp
    have inner: "within_ok d gs" if "v = BObject gs \<or> v = BArray gs \<or> (\<exists>c. v = BCodeWScope c gs)" for gs
      using that less.hyps [of gs] wf(2) Cons nv by auto
    show ?thesis
      unfolding within_ok_def
    proof (intro allI impI)
      fix f and frames :: "vframe list" and p and r :: bytes
      assume *: "\<not> isCodeWithScope f \<and> length frames + fields_depth fs \<le> d \<and> p + length (fields_bytes fs) + 1 + length r < 2 ^ 31"
      then have "value_depth v + length frames \<le> d" "fields_depth fs' + length frames \<le> d"
        by (auto simp: Cons nv max_def split: if_splits)
      then show "validateLoop d (f # frames) WithinObj \<lparr>vb_position = p, vb_rest = fields_bytes fs @ 0 # r\<rparr> =
          validateLoop d (f # frames) EndObj \<lparr>vb_position = p + length (fields_bytes fs) + 1, vb_rest = r\<rparr>"
        using validateLoop_value [OF wf(1,2) _ _ _ _ inner, of f "fields_bytes fs' @ 0 # r" frames p]
          tail [unfolded within_ok_def, rule_format, of f frames "p + (length n + 2) + length (value_bytes v)" r]
          * by (simp add: Cons nv ac_simps)
    qed
  qed
qed

lemma validateBSON_complete:
  assumes "fields_wf obj" "fields_depth obj \<le> d" "length (bson_bytes obj @ r) < 2 ^ 31"
  shows "validateBSON d (bson_bytes obj @ r) = Inr ()"
proof -
  let ?b = "\<lparr>vb_position = 0, vb_rest = bson_bytes obj @ r\<rparr>"
  let ?f = "open_frame False ?b (int32 (objsize obj))"
  have len: "length (fields_bytes obj) + 5 = objsize obj" using length_value_bytes(2) [OF assms(1)] by (simp add: objsize_def)
  have "validateLoop d [] BeginObj ?b = validateLoop d [?f] WithinObj \<lparr>vb_position = 4, vb_rest = fields_bytes obj @ 0 # r\<rparr>"
    using validateLoop_begin [of "[]" d ?b] by (simp add: bson_bytes_def)
  also have "\<dots> = validateLoop d [?f] EndObj \<lparr>vb_position = objsize obj, vb_rest = r\<rparr>"
    using validateLoop_fields [OF assms(1), of d, unfolded within_ok_def, rule_format, of ?f "[]" 4 r]
      open_frame(2) [of ?b False] assms(2,3) len by (simp add: bson_bytes_def ac_simps)
  also have "\<dots> = Inr ()"
    using actualLength_eq [of ?b _ "objsize obj" False] open_frame(3) [of ?b False] by (simp add: validateLoop.simps)
  finally show ?thesis by (simp add: validateBSON_def validateBSONIterative_def bson_bytes_def)
qed

subsection \<open>Only encodings are accepted\<close>

definition fields_read :: "nat \<Rightarrow> vframe list \<Rightarrow> vbuffer \<Rightarrow> bson_obj \<Rightarrow> vbuffer \<Rightarrow> bool" where
  "fields_read d frames b fs b' \<longleftrightarrow> fields_wf fs \<and> vb_rest b = fields_bytes fs @ 0 # vb_rest b' \<and>
     vb_position b' = vb_position b + length (fields_bytes fs) + 1 \<and>
     (fields_depth fs = 0 \<or> length frames + fields_depth fs \<le> d)"

lemma fields_read_Cons:
  assumes "0 \<notin> set n" "bson_wf v" "vb_rest b = bson_type v # n @ 0 # value_bytes v @ vb_rest b1"
    "vb_position b1 = vb_position b + (length n + 2) + length (value_bytes v)"
    "value_depth v = 0 \<or> length frames + value_depth v \<le> d" "fields_read d frames b1 fs b'"
  shows "fields_read d frames b ((n, v) # fs) b'"
  using assms by (auto simp: fields_read_def max_def)

definition sound_at :: "nat \<Rightarrow> vbuffer \<Rightarrow> bool" where
  "sound_at d b \<longleftrightarrow> (\<forall>f frames. validateLoop d (f # frames) WithinObj b = Inr () \<and> \<not> isCodeWithScope f \<and>
       vb_position b + length (vb_rest b) < 2 ^ 31 \<longrightarrow>
     (\<exists>fs b'. fields_read d frames b fs b' \<and> validateLoop d (f # frames) EndObj b' = Inr ()))"

lemma object_sound:
  assumes loop: "validateLoop d (g # frames) BeginObj b = Inr ()" and size: "vb_position b + length (vb_rest b) < 2 ^ 31"
    and IH: "\<And>b1. length (vb_rest b1) < length (vb_rest b) \<Longrightarrow> sound_at d b1"
  shows "\<exists>fs b'. fields_wf fs \<and> vb_rest b = int_bytes (objsize fs) @ fields_bytes fs @ 0 # vb_rest b' \<and>
    vb_position b' = vb_position b + objsize fs \<and> length (g # frames) + fields_depth fs \<le> d \<and>
    validateLoop d (g # frames) (if isCodeWithScope g then EndCodeWScope else WithinObj) b' = Inr ()"
proof -
  have depth: "length (g # frames) \<le> d" using loop by (auto simp: validateLoop.simps)
  obtain sz :: u32 and b1 where b1: "vb_readNumber b = Inr (sz, b1)"
    using loop by (auto simp: validateLoop.simps)
  let ?f = "open_frame False b sz"
  have rest: "vb_rest b = le_bytes sz @ vb_rest b1" "vb_position b1 = vb_position b + 4"
    using vb_readNumber_sound(1) [OF b1] by simp_all
  have "validateLoop d (?f # g # frames) WithinObj b1 = Inr ()"
    using loop validateLoop_begin [OF depth b1] by simp
  then obtain fs b' where fs: "fields_read d (g # frames) b1 fs b'" "validateLoop d (?f # g # frames) EndObj b' = Inr ()"
    using IH [of b1, unfolded sound_at_def, rule_format, of ?f "g # frames"] rest size open_frame(2) [of b False sz] by auto
  then have pos: "vb_position b' = vb_position b + objsize fs"
    using rest(2) length_value_bytes(2) [of fs] by (simp add: fields_read_def objsize_def)
  have "actualLength b' ?f = vf_expectedSize ?f"
    and loop': "validateLoop d (g # frames) (if isCodeWithScope g then EndCodeWScope else WithinObj) b' = Inr ()"
    using fs(2) by (auto simp: validateLoop.simps)
  then have "sz = int32 (objsize fs)"
    using actualLength_eq [of b b' "objsize fs" False sz] open_frame(3) [of b False sz] pos size by simp
  then show ?thesis
    using fs(1) rest pos depth loop'
    by (intro exI [of _ fs] exI [of _ b']) (auto simp: fields_read_def int_bytes_def)
qed

lemma value_sound:
  assumes "value_follows t b st b1" and loop: "validateLoop d (f # frames) st b1 = Inr ()"
    and size: "vb_position b + length (vb_rest b) < 2 ^ 31" and f: "\<not> isCodeWithScope f"
    and IH: "\<And>b1. length (vb_rest b1) < length (vb_rest b) \<Longrightarrow> sound_at d b1"
  shows "\<exists>v b'. bson_wf v \<and> bson_type v = t \<and> vb_rest b = value_bytes v @ vb_rest b' \<and>
    vb_position b' = vb_position b + length (value_bytes v) \<and>
    (value_depth v = 0 \<or> length frames + value_depth v \<le> d) \<and> validateLoop d (f # frames) WithinObj b' = Inr ()"
proof -
  consider "st = WithinObj" "value_between t b b1" | "st = BeginObj" "b1 = b" "t \<in> {3, 4}"
    | "st = BeginCodeWScope" "b1 = b" "t = 15"
    using assms(1) by (auto simp: value_follows_def)
  then show ?thesis
  proof cases
    case 1
    then obtain v where v: "bson_wf v" "leaf v" "bson_type v = t" "vb_rest b = value_bytes v @ vb_rest b1"
      "vb_position b1 = vb_position b + length (value_bytes v)"
      by (auto simp: value_between_def)
    then have "value_depth v = 0" by (cases v) (auto simp: leaf_def)
    then show ?thesis using v loop 1 by blast
  next
    case 2
    obtain fs b' where fs: "fields_wf fs" "vb_rest b = int_bytes (objsize fs) @ fields_bytes fs @ 0 # vb_rest b'"
      "vb_position b' = vb_position b + objsize fs" "length (f # frames) + fields_depth fs \<le> d"
      "validateLoop d (f # frames) WithinObj b' = Inr ()"
      using object_sound [of d f frames b] loop 2 size IH f by auto
    show ?thesis
      by (intro exI [of _ "if t = 3 then BObject fs else BArray fs"] exI [of _ b'])
        (use fs 2(3) length_value_bytes(2) [OF fs(1)] in \<open>auto simp: objsize_def\<close>)
  next
    case 3
    obtain sz :: u32 and b2 b3 where b3: "vb_readNumber b = Inr (sz, b2)" "vb_readUTF8String b2 = Inr b3"
      "validateLoop d (open_frame True b sz # f # frames) BeginObj b3 = Inr ()"
      using loop 3 by (auto simp: validateLoop.simps)
    obtain c where c: "vb_rest b2 = str_bytes c @ vb_rest b3" "vb_position b3 = vb_position b2 + length (str_bytes c)"
      using vb_readUTF8String_sound [OF b3(2)] by blast
    have b2: "vb_rest b = le_bytes sz @ vb_rest b2" "vb_position b2 = vb_position b + 4"
      using vb_readNumber_sound(1) [OF b3(1)] by simp_all
    obtain fs b' where fs: "fields_wf fs" "vb_rest b3 = int_bytes (objsize fs) @ fields_bytes fs @ 0 # vb_rest b'"
      "vb_position b' = vb_position b3 + objsize fs" "length (open_frame True b sz # f # frames) + fields_depth fs \<le> d"
      "validateLoop d (open_frame True b sz # f # frames) EndCodeWScope b' = Inr ()"
      using object_sound [OF b3(3)] size IH open_frame(2) [of b True sz] b2 c by auto
    let ?sz = "4 + 4 + (length c + 1) + objsize fs"
    have "sz = int32 ?sz" and loop': "validateLoop d (f # frames) WithinObj b' = Inr ()"
      using fs(3,5) b2 c actualLength_eq [of b b' ?sz True sz] open_frame(3) [of b True sz] size
      by (auto simp: validateLoop.simps)
    then show ?thesis
      by (intro exI [of _ "BCodeWScope c fs"] exI [of _ b'])
        (use fs b2 c 3(3) length_value_bytes(2) [OF fs(1)] in \<open>simp add: int_bytes_def objsize_def\<close>)
  qed
qed

lemma validateLoop_sound: "sound_at d b"
proof (induction "length (vb_rest b)" arbitrary: b rule: less_induct)
  case less
  have IH: "sound_at d b1" if "length (vb_rest b1) < length (vb_rest b)" for b1 using less that by blast
  show ?case
    unfolding sound_at_def
  proof (intro allI impI)
    fix f and frames :: "vframe list"
    assume *: "validateLoop d (f # frames) WithinObj b = Inr () \<and> \<not> isCodeWithScope f \<and> vb_position b + length (vb_rest b) < 2 ^ 31"
    obtain st b1 where st: "validateElementInfo b = Inr (st, b1)" "validateLoop d (f # frames) st b1 = Inr ()"
      using * by (auto simp: validateLoop.simps(2))
    show "\<exists>fs b'. fields_read d frames b fs b' \<and> validateLoop d (f # frames) EndObj b' = Inr ()"
      using st(1)
    proof (cases rule: validateElementInfo_sound)
      case 1
      then show ?thesis using st(2) by (intro exI [of _ "[]"] exI [of _ b1]) (simp add: fields_read_def)
    next
      case (2 n t b2)
      then obtain v b' where v: "bson_wf v" "bson_type v = t" "vb_rest b2 = value_bytes v @ vb_rest b'"
        "vb_position b' = vb_position b2 + length (value_bytes v)" "value_depth v = 0 \<or> length frames + value_depth v \<le> d"
        "validateLoop d (f # frames) WithinObj b' = Inr ()"
        using value_sound [OF 2(4) st(2)] * IH by force
      then obtain fs b'' where "fields_read d frames b' fs b''" "validateLoop d (f # frames) EndObj b'' = Inr ()"
        using IH [of b', unfolded sound_at_def, rule_format, of f frames] * 2 by auto
      then show ?thesis using fields_read_Cons [of n v b b' frames d fs b''] v 2 by auto
    qed
  qed
qed

lemma validateBSON_sound:
  assumes "validateBSON d bs = Inr ()" "length bs < 2 ^ 31"
  shows "\<exists>obj r. bs = bson_bytes obj @ r \<and> fields_wf obj \<and> fields_depth obj \<le> d"
proof -
  let ?b = "\<lparr>vb_position = 0, vb_rest = bs\<rparr>"
  have loop: "validateLoop d [] BeginObj ?b = Inr ()"
    using assms(1) by (auto simp: validateBSON_def validateBSONIterative_def split: if_splits)
  then obtain sz :: u32 and b1 where b1: "vb_readNumber ?b = Inr (sz, b1)" by (auto simp: validateLoop.simps)
  let ?f = "open_frame False ?b sz"
  have rest: "bs = le_bytes sz @ vb_rest b1" "vb_position b1 = 4" using vb_readNumber_sound(1) [OF b1] by simp_all
  have "validateLoop d [?f] WithinObj b1 = Inr ()" using loop validateLoop_begin [OF _ b1, of "[]" d] by simp
  then obtain fs b' where fs: "fields_read d [] b1 fs b'" "validateLoop d [?f] EndObj b' = Inr ()"
    using validateLoop_sound [of d b1, unfolded sound_at_def, rule_format, of ?f "[]"] rest assms(2)
      open_frame(2) [of ?b False sz] by auto
  then have pos: "vb_position b' = vb_position ?b + objsize fs"
    using rest(2) length_value_bytes(2) [of fs] by (simp add: fields_read_def objsize_def)
  have "actualLength b' ?f = vf_expectedSize ?f" using fs(2) by (auto simp: validateLoop.simps)
  then have "sz = int32 (objsize fs)"
    using actualLength_eq [of ?b b' "objsize fs" False sz] open_frame(3) [of ?b False sz] pos by simp
  then have "bs = bson_bytes fs @ vb_rest b'"
    using fs(1) rest by (simp add: bson_bytes_def fields_read_def int_bytes_def)
  then show ?thesis using fs(1) by (auto simp: fields_read_def)
qed

text \<open>C7: \<open>validateBSON\<close> accepts exactly the buffers that begin with the encoding of an object whose
  nesting is within the limit: nothing that is not BSON passes, and no BSON is refused.\<close>

theorem validateBSON_exact:
  assumes "length bs < 2 ^ 31"
  shows "validateBSON d bs = Inr () \<longleftrightarrow>
    (\<exists>obj r. bs = bson_bytes obj @ r \<and> fields_wf obj \<and> fields_depth obj \<le> d)"
  using validateBSON_sound [OF _ assms] validateBSON_complete assms by blast

theorem validateBSON_exact_witness:
  "validateBSON 200 [12, 0, 0, 0, 16, 97, 0, 1, 0, 0, 0, 0, 9] = Inr () \<and>
   [12, 0, 0, 0, 16, 97, 0, 1, 0, 0, 0, 0, 9] = bson_bytes [([97], BInt 1)] @ [9]"
proof -
  have "[12, 0, 0, 0, 16, 97, 0, 1, 0, 0, 0, 0, 9] = bson_bytes [([97], BInt 1)] @ [9]" by code_simp
  then show ?thesis
    using validateBSON_exact [of "[12, 0, 0, 0, 16, 97, 0, 1, 0, 0, 0, 0, 9]" 200] by fastforce
qed

text \<open>C20: What passes \<open>validateBSON\<close> and is within the size limit of a \<open>BSONObj\<close> can be read: no
  access leaves the buffer, and the object read is the one whose encoding the buffer holds.\<close>

theorem validated_bson_readable:
  assumes "validateBSON d bs = Inr ()" "length bs \<le> BSONObjMaxInternalSize"
  shows "\<exists>obj r. bsonObj bs = Inr obj \<and> bs = bson_bytes obj @ r \<and> fields_wf obj \<and> fields_depth obj \<le> d"
proof -
  have "length bs < 2 ^ 31" using assms(2) by (simp add: BSONObjMaxInternalSize_def BSONObjMaxUserSize_def)
  then obtain obj r where obj: "bs = bson_bytes obj @ r" "fields_wf obj" "fields_depth obj \<le> d"
    using validateBSON_sound [OF assms(1)] by blast
  then have "objsize obj \<le> BSONObjMaxInternalSize" using assms(2) length_bson_bytes [OF obj(2)] by simp
  then show ?thesis using obj bsonObj_bytes [OF obj(2)] by blast
qed

theorem validated_bson_readable_witness:
  "validateBSON 3 [12, 0, 0, 0, 16, 97, 0, 1, 0, 0, 0, 0] = Inr () \<and>
   (\<exists>obj. bsonObj [12, 0, 0, 0, 16, 97, 0, 1, 0, 0, 0, 0] = Inr obj)"
proof -
  have "validateBSON 3 [12, 0, 0, 0, 16, 97, 0, 1, 0, 0, 0, 0] = Inr ()" by code_simp
  then show ?thesis
    using validated_bson_readable [of 3 "[12, 0, 0, 0, 16, 97, 0, 1, 0, 0, 0, 0]"]
    by (auto simp: BSONObjMaxInternalSize_def BSONObjMaxUserSize_def)
qed

end
