(* ===== verification/Ddl_Decoder.thy ===== *)
theory Ddl_Decoder
  imports Bson_Validate Blob_Decoder Log_Model
begin

text \<open>
  DDL records (\<open>cdc/cdc_ddl_decoder.h\<close>, \<open>.cpp\<close>): the catalog metadata at the head of a schema image,
  the difference of two images' indexes, and the change a record's schema op reports. The parts of
  \<open>NamespaceString\<close> (\<open>mongo/db/namespace_string.h\<close>) the stream uses come first. Sizes in an image are
  in native byte order, little-endian here.
\<close>

section \<open>Namespaces\<close>

text \<open>The constructor refuses an embedded NUL.\<close>

definition NamespaceString :: "bytes \<Rightarrow> bytes result" where
  "NamespaceString ns = rbind (rguard (0 \<notin> set ns) InvalidNamespace) (\<lambda>_. Inr ns)"

definition nss_db :: "bytes \<Rightarrow> bytes" where
  "nss_db ns = takeWhile (\<lambda>c. c \<noteq> 46) ns"

definition nss_coll :: "bytes \<Rightarrow> bytes" where
  "nss_coll ns = drop (length (nss_db ns) + 1) ns"

text \<open>NUL, slash, backslash, dot, space and the double quote; \<open>$\<close> is allowed.\<close>

definition validDBName :: "bytes \<Rightarrow> bool" where
  "validDBName db \<longleftrightarrow> \<not> (length db = 0 \<or> length db \<ge> 64) \<and>
     (\<forall>c \<in> set db. c \<noteq> 0 \<and> c \<noteq> 47 \<and> c \<noteq> 92 \<and> c \<noteq> 46 \<and> c \<noteq> 32 \<and> c \<noteq> 34)"

definition nss_isValid :: "bytes \<Rightarrow> bool" where
  "nss_isValid ns \<longleftrightarrow> validDBName (nss_db ns) \<and> nss_coll ns \<noteq> []"

section \<open>Changes\<close>

datatype ddl_op_type = kCreateTable | kDropTable | kAddIndex | kDropIndex

text \<open>The values of the enumeration; the switch leaves any other value without a change.\<close>

definition ddl_op_of :: "nat \<Rightarrow> ddl_op_type option" where
  "ddl_op_of n = (if n = 5 then Some kCreateTable else if n = 6 then Some kDropTable
     else if n = 8 then Some kAddIndex else if n = 9 then Some kDropIndex else None)"

record ddl_change =
  dc_operationType :: bytes
  dc_ns :: bytes
  dc_operationDescription :: bson_obj
  dc_dropsCollection :: bool

definition catalogMetadata :: "nat \<Rightarrow> bytes \<Rightarrow> bson_obj result" where
  "catalogMetadata maxDepth img =
     rbind (read_le ChangeStreamFatalError img) (\<lambda>(len :: u64, data).
     rbind (rguard (unat len \<le> length data) ChangeStreamFatalError) (\<lambda>_.
     rbind (rguard (validateBSON maxDepth (take (unat len) data) = Inr ()) ChangeStreamFatalError) (\<lambda>_.
     rbind (bsonObj data) (\<lambda>metadata.
     rbind (rguard (case getField metadata (bstr ''md'') of Some v \<Rightarrow> isABSONObj v | None \<Rightarrow> False)
       ChangeStreamFatalError) (\<lambda>_. Inr metadata)))))"

text \<open>\<open>BSONElement::operator[]\<close>: a field of an object or array; the missing element has none.\<close>

definition elem_field :: "bson option \<Rightarrow> bytes \<Rightarrow> bson option result" where
  "elem_field e name = (case e of None \<Rightarrow> Inl (Location 10065)
     | Some v \<Rightarrow> rbind (embeddedObject v) (\<lambda>o1. Inr (getField o1 name)))"

text \<open>The \<open>spec\<close> of one entry of the index array.\<close>

fun index_spec :: "bson \<Rightarrow> bson_obj option" where
  "index_spec (BObject fs) = (case getField fs (bstr ''spec'') of
      Some (BObject spec) \<Rightarrow> Some spec | Some (BArray spec) \<Rightarrow> Some spec | _ \<Rightarrow> None)"
| "index_spec (BArray fs) = (case getField fs (bstr ''spec'') of
      Some (BObject spec) \<Rightarrow> Some spec | Some (BArray spec) \<Rightarrow> Some spec | _ \<Rightarrow> None)"
| "index_spec v = None"

definition indexSpecs :: "bson_obj \<Rightarrow> bson_obj list result" where
  "indexSpecs metadata =
     rbind (elem_field (getField metadata (bstr ''md'')) (bstr ''indexes'')) (\<lambda>indexes.
       case indexes of
         Some (BArray es) \<Rightarrow> Inr (List.map_filter (\<lambda>(n, v). index_spec v) es)
       | _ \<Rightarrow> Inr [])"

definition spec_name :: "bson_obj \<Rightarrow> bytes" where
  "spec_name spec = elem_str (getField spec (bstr ''name''))"

definition indexesOnlyIn :: "bson_obj \<Rightarrow> bson_obj \<Rightarrow> bson_obj list result" where
  "indexesOnlyIn fromEntry without =
     rbind (indexSpecs without) (\<lambda>ws.
     rbind (indexSpecs fromEntry) (\<lambda>fs.
       let names = spec_name ` set ws in
       Inr (filter (\<lambda>spec. spec_name spec \<notin> names) fs)))"

definition createdIndexes :: "bson_obj list \<Rightarrow> bson_obj" where
  "createdIndexes specs =
     [(bstr ''indexes'', BArray (array_from 0 (map (\<lambda>spec. BObject (removeField spec (bstr ''ns''))) specs)))]"

definition droppedIndex :: "bson_obj \<Rightarrow> bson_obj" where
  "droppedIndex spec = List.map_filter (\<lambda>field. case getField spec field of Some v \<Rightarrow> Some (field, v) | None \<Rightarrow> None)
     [bstr ''v'', bstr ''key'', bstr ''name'']"

definition droppedIndexes :: "bson_obj list \<Rightarrow> bson_obj" where
  "droppedIndexes specs = [(bstr ''indexes'', BArray (array_from 0 (map (\<lambda>spec. BObject (droppedIndex spec)) specs)))]"

text \<open>The user's options of a collection: the stored ones less the UUID and the catalog version.\<close>

definition userOptions :: "bson_obj \<Rightarrow> bson_obj result" where
  "userOptions metadata =
     rbind (elem_field (getField metadata (bstr ''md'')) (bstr ''options'')) (\<lambda>stored.
       case stored of
         Some v \<Rightarrow> if isABSONObj v
           then rbind (embeddedObject v) (\<lambda>fs. Inr (filter (\<lambda>(n, _). n \<noteq> bstr ''uuid'' \<and> n \<noteq> bstr ''catalogVersion'') fs))
           else Inr []
       | None \<Rightarrow> Inr [])"

definition mkChange :: "string \<Rightarrow> bytes \<Rightarrow> bson_obj \<Rightarrow> bool \<Rightarrow> ddl_change" where
  "mkChange type ns description drops =
     \<lparr>dc_operationType = bstr type, dc_ns = ns, dc_operationDescription = description, dc_dropsCollection = drops\<rparr>"

definition decodeOp :: "nat \<Rightarrow> schema_op \<Rightarrow> ddl_op_type \<Rightarrow> ddl_change option result" where
  "decodeOp maxDepth op type = (case type of
       kCreateTable \<Rightarrow>
         if so_rolled_back op then Inr None
         else rbind (catalogMetadata maxDepth (so_new_catalog_blob op)) (\<lambda>metadata.
              rbind (userOptions metadata) (\<lambda>options.
              Inr (Some (mkChange ''create'' (so_table_name_str op) options False))))
     | kDropTable \<Rightarrow>
         if so_rolled_back op then Inr None
         else Inr (Some (mkChange ''drop'' (so_table_name_str op) [] True))
     | kAddIndex \<Rightarrow>
         rbind (catalogMetadata maxDepth (so_old_catalog_blob op)) (\<lambda>before.
         rbind (catalogMetadata maxDepth (so_new_catalog_blob op)) (\<lambda>after.
         rbind (indexesOnlyIn after before) (\<lambda>added.
           Inr (Some (if so_rolled_back op
             then mkChange ''dropIndexes'' (so_table_name_str op) (droppedIndexes added) False
             else mkChange ''createIndexes'' (so_table_name_str op) (createdIndexes added) False)))))
     | kDropIndex \<Rightarrow>
         if so_rolled_back op then Inr None
         else rbind (catalogMetadata maxDepth (so_old_catalog_blob op)) (\<lambda>before.
              rbind (catalogMetadata maxDepth (so_new_catalog_blob op)) (\<lambda>after.
              rbind (indexesOnlyIn before after) (\<lambda>dropped.
                Inr (Some (mkChange ''dropIndexes'' (so_table_name_str op) (droppedIndexes dropped) False))))))"

definition decodeCdcDdl :: "nat \<Rightarrow> schema_op \<Rightarrow> ddl_change option result" where
  "decodeCdcDdl maxDepth op =
     (if so_table_engine op \<noteq> TableEngineEloqDoc \<or> \<not> so_has_table_op op then Inr None
      else rbind (NamespaceString (so_table_name_str op)) (\<lambda>nss.
        if \<not> nss_isValid nss then Inr None
        else case ddl_op_of (so_op_type op) of
            None \<Rightarrow> Inr None
          | Some type \<Rightarrow> decodeOp maxDepth op type))"

section \<open>Properties\<close>

lemma catalogMetadata_readable:
  assumes "catalogMetadata maxDepth img = Inl e" "length img \<le> BSONObjMaxInternalSize"
  shows "e = ChangeStreamFatalError"
proof (rule ccontr)
  assume e: "e \<noteq> ChangeStreamFatalError"
  then obtain len :: u64 and data where d: "read_le ChangeStreamFatalError img = Inr (len, data)"
    "validateBSON maxDepth (take (unat len) data) = Inr ()" "bsonObj data = Inl e"
    using assms(1)
    by (auto simp: catalogMetadata_def rbind_def rguard_def read_le_def Let_def split: sum.splits if_splits)
  have "length data \<le> BSONObjMaxInternalSize" using read_le_sounds(4) [OF d(1)] assms(2) by simp
  then have len: "length (take (unat len) data) \<le> BSONObjMaxInternalSize" by simp
  then obtain obj r where obj: "take (unat len) data = bson_bytes obj @ r" "fields_wf obj"
    using validateBSON_sound [OF d(2)] by (auto simp: BSONObjMaxInternalSize_def BSONObjMaxUserSize_def)
  then have "objsize obj \<le> BSONObjMaxInternalSize" using len length_bson_bytes [OF obj(2)] by simp
  then have "bsonObj (bson_bytes obj @ r @ drop (unat len) data) = Inr obj" by (rule bsonObj_bytes [OF obj(2)])
  then have "bsonObj data = Inr obj" using append_take_drop_id [of "unat len" data] obj(1) by simp
  then show False using d(3) by simp
qed

lemma catalogMetadata_md:
  "catalogMetadata maxDepth img = Inr metadata \<Longrightarrow> \<exists>v fs. getField metadata (bstr ''md'') = Some v \<and> embeddedObject v = Inr fs"
  by (auto simp: catalogMetadata_def split: option.splits elim: isABSONObj.elims)

lemma md_field_total: "catalogMetadata maxDepth img = Inr metadata \<Longrightarrow> \<exists>e. elem_field (getField metadata (bstr ''md'')) name = Inr e"
  by (auto dest!: catalogMetadata_md simp: elem_field_def)

lemma indexSpecs_total:
  assumes "catalogMetadata maxDepth img = Inr metadata"
  shows "\<exists>specs. indexSpecs metadata = Inr specs"
proof -
  obtain e where e: "elem_field (getField metadata (bstr ''md'')) (bstr ''indexes'') = Inr e"
    using md_field_total [OF assms] by blast
  show ?thesis
  proof (cases e)
    case (Some v)
    then show ?thesis using e by (cases v) (simp_all add: indexSpecs_def)
  qed (use e in \<open>simp add: indexSpecs_def\<close>)
qed

lemma userOptions_total:
  assumes "catalogMetadata maxDepth img = Inr metadata"
  shows "\<exists>options. userOptions metadata = Inr options"
proof -
  obtain e where e: "elem_field (getField metadata (bstr ''md'')) (bstr ''options'') = Inr e"
    using md_field_total [OF assms] by blast
  show ?thesis
  proof (cases e)
    case (Some v)
    then show ?thesis using e by (cases v) (simp_all add: userOptions_def)
  qed (use e in \<open>simp add: userOptions_def\<close>)
qed

lemma indexesOnlyIn_total:
  "catalogMetadata maxDepth img = Inr m \<Longrightarrow> catalogMetadata maxDepth img' = Inr m' \<Longrightarrow> \<exists>specs. indexesOnlyIn m m' = Inr specs"
  by (auto dest!: indexSpecs_total simp: indexesOnlyIn_def Let_def)


definition sample_op :: "nat \<Rightarrow> bytes \<Rightarrow> bytes \<Rightarrow> schema_op" where
  "sample_op type before after = \<lparr>so_table_engine = TableEngineEloqDoc, so_has_table_op = True,
     so_table_name_str = bstr ''a.b'', so_op_type = type, so_rolled_back = False,
     so_old_catalog_blob = before, so_new_catalog_blob = after\<rparr>"


text \<open>The names of the indexes an event's description lists.\<close>

definition described_names :: "bson_obj \<Rightarrow> bytes list" where
  "described_names description = (case getField description (bstr ''indexes'') of
      Some (BArray es) \<Rightarrow> map (\<lambda>(n, v). case v of BObject spec \<Rightarrow> spec_name spec | _ \<Rightarrow> []) es | _ \<Rightarrow> [])"

lemma described_array:
  "described_names [(bstr ''indexes'', BArray (array_from 0 (map (\<lambda>s. BObject (f s)) specs)))] = map (\<lambda>s. spec_name (f s)) specs"
proof -
  have "map (\<lambda>(n, v). case v of BObject spec \<Rightarrow> spec_name spec | _ \<Rightarrow> []) (array_from i vs) =
      map (\<lambda>v. case v of BObject spec \<Rightarrow> spec_name spec | _ \<Rightarrow> []) vs" for i vs
    by (induction i vs rule: array_from.induct) simp_all
  then show ?thesis by (simp add: described_names_def comp_def)
qed

lemma described_created: "described_names (createdIndexes specs) = map spec_name specs"
  unfolding createdIndexes_def described_array
  by (simp add: spec_name_def getField_removeField) (simp add: bstr_def)

lemma spec_name_droppedIndex: "spec_name (droppedIndex spec) = spec_name spec"
proof -
  have "bstr ''v'' \<noteq> bstr ''name''" "bstr ''key'' \<noteq> bstr ''name''" by (simp_all add: bstr_def)
  then show ?thesis
    by (cases "getField spec (bstr ''name'')"; cases "getField spec (bstr ''v'')"; cases "getField spec (bstr ''key'')")
      (simp_all add: spec_name_def droppedIndex_def List.map_filter_def)
qed

lemma described_dropped: "described_names (droppedIndexes specs) = map spec_name specs"
  unfolding droppedIndexes_def described_array by (simp add: spec_name_droppedIndex)

text \<open>C29: An index build reports exactly the indexes the new catalog has and the old one lacks, by
  name; the second record of a build that was rolled back reports exactly those dropped again, in
  the same order and on the same collection.\<close>

theorem rolled_back_index_build_undone:
  assumes "decodeCdcDdl maxDepth op = Inr (Some created)" "so_op_type op = 8" "\<not> so_rolled_back op"
  shows "\<exists>dropped before after bs as.
    decodeCdcDdl maxDepth (op\<lparr>so_rolled_back := True\<rparr>) = Inr (Some dropped) \<and>
    dc_operationType created = bstr ''createIndexes'' \<and> dc_operationType dropped = bstr ''dropIndexes'' \<and>
    dc_ns dropped = dc_ns created \<and>
    catalogMetadata maxDepth (so_old_catalog_blob op) = Inr before \<and> indexSpecs before = Inr bs \<and>
    catalogMetadata maxDepth (so_new_catalog_blob op) = Inr after \<and> indexSpecs after = Inr as \<and>
    described_names (dc_operationDescription dropped) = described_names (dc_operationDescription created) \<and>
    described_names (dc_operationDescription created) = filter (\<lambda>n. n \<notin> spec_name ` set bs) (map spec_name as)"
proof -
  obtain before after added where a: "catalogMetadata maxDepth (so_old_catalog_blob op) = Inr before"
    "catalogMetadata maxDepth (so_new_catalog_blob op) = Inr after" "indexesOnlyIn after before = Inr added"
    "created = mkChange ''createIndexes'' (so_table_name_str op) (createdIndexes added) False"
    using assms by (auto simp: decodeCdcDdl_def decodeOp_def ddl_op_of_def split: if_splits)
  obtain bs as where specs: "indexSpecs before = Inr bs" "indexSpecs after = Inr as"
    using indexSpecs_total [OF a(1)] indexSpecs_total [OF a(2)] by blast
  then have "added = filter (\<lambda>spec. spec_name spec \<notin> spec_name ` set bs) as"
    using a(3) by (simp add: indexesOnlyIn_def)
  then have "map spec_name added = filter (\<lambda>n. n \<notin> spec_name ` set bs) (map spec_name as)"
    by (simp add: filter_map comp_def)
  moreover have "decodeCdcDdl maxDepth (op\<lparr>so_rolled_back := True\<rparr>) =
      Inr (Some (mkChange ''dropIndexes'' (so_table_name_str op) (droppedIndexes added) False))"
    using assms a by (auto simp: decodeCdcDdl_def decodeOp_def ddl_op_of_def split: if_splits)
  ultimately show ?thesis
    using a specs by (simp add: mkChange_def described_created described_dropped)
qed

definition schema_image :: "bson_obj \<Rightarrow> bytes" where
  "schema_image metadata = le_bytes (of_nat (objsize metadata) :: u64) @ bson_bytes metadata"

lemma catalogMetadata_image:
  assumes "fields_wf metadata" "fields_depth metadata \<le> d" "objsize metadata \<le> BSONObjMaxInternalSize"
    and "getField metadata (bstr ''md'') = Some v" "isABSONObj v"
  shows "catalogMetadata d (schema_image metadata) = Inr metadata"
proof -
  have "objsize metadata < 2 ^ 31" using assms(3) by (simp add: BSONObjMaxInternalSize_def BSONObjMaxUserSize_def)
  then have "unat (of_nat (objsize metadata) :: u64) = length (bson_bytes metadata)"
    and "validateBSON d (bson_bytes metadata) = Inr ()"
    using validateBSON_complete [OF assms(1,2), of "[]"] length_bson_bytes [OF assms(1)] by (simp_all add: unat_of_nat)
  then show ?thesis
    using bsonObj_bytes [OF assms(1,3), of "[]"] assms(4,5) by (simp add: catalogMetadata_def schema_image_def)
qed

definition sample_metadata :: "bytes list \<Rightarrow> bson_obj" where
  "sample_metadata names = [(bstr ''md'', BObject [(bstr ''indexes'', BArray (array_from 0
     (map (\<lambda>n. BObject [(bstr ''spec'', BObject [(bstr ''name'', BString n)])]) names)))])]"

theorem rolled_back_index_build_undone_witness:
  "\<exists>created dropped.
     decodeCdcDdl 4 (sample_op 8 (schema_image (sample_metadata [])) (schema_image (sample_metadata [[120]]))) = Inr (Some created) \<and>
     decodeCdcDdl 4 ((sample_op 8 (schema_image (sample_metadata [])) (schema_image (sample_metadata [[120]])))\<lparr>so_rolled_back := True\<rparr>) =
       Inr (Some dropped) \<and>
     described_names (dc_operationDescription created) = [[120]] \<and>
     described_names (dc_operationDescription dropped) = [[120]]"
proof -
  let ?op = "sample_op 8 (schema_image (sample_metadata [])) (schema_image (sample_metadata [[120]]))"
  have "catalogMetadata 4 (schema_image (sample_metadata [])) = Inr (sample_metadata [])"
    "catalogMetadata 4 (schema_image (sample_metadata [[120]])) = Inr (sample_metadata [[120]])"
    by (rule catalogMetadata_image [where v = "snd (hd (sample_metadata []))"],
        simp_all add: sample_metadata_def BSONObjMaxInternalSize_def BSONObjMaxUserSize_def objsize_def bstr_def numStr.simps)
       (rule catalogMetadata_image [where v = "snd (hd (sample_metadata [[120]]))"],
        simp_all add: sample_metadata_def BSONObjMaxInternalSize_def BSONObjMaxUserSize_def objsize_def bstr_def numStr.simps)
  moreover have "indexesOnlyIn (sample_metadata [[120]]) (sample_metadata []) = Inr [[(bstr ''name'', BString [120])]]"
    by code_simp
  moreover have "nss_isValid (bstr ''a.b'')" "0 \<notin> set (bstr ''a.b'')" by code_simp+
  ultimately obtain created where c: "decodeCdcDdl 4 ?op = Inr (Some created)"
      "described_names (dc_operationDescription created) = [[120]]"
    by (simp add: decodeCdcDdl_def decodeOp_def sample_op_def ddl_op_of_def NamespaceString_def mkChange_def
        described_created spec_name_def)
  have "so_op_type ?op = 8" "\<not> so_rolled_back ?op" by (simp_all add: sample_op_def)
  then show ?thesis using rolled_back_index_build_undone [OF c(1)] c by auto
qed

end
