(* ===== verification/Resume_Token.thy ===== *)
theory Resume_Token
  imports Bson_Model
begin

text \<open>
  The change-stream resume token (\<open>base/cdc_resume_token.h\<close>, \<open>.cpp\<close>): the per-group positions,
  the binary form and its reader, and the wire shape \<open>{_data: <hex>}\<close>. A token comes from a client
  and is never trusted, so the reader's accepted language matters as much as the round trip: what
  it accepts is exactly what the writer writes, and every accepted token can be resumed from.
\<close>

section \<open>Tokens\<close>

datatype token_form = kAfterKey | kAtKeyAfterPosition

datatype token_kind = kEvent | kWatermark | kInvalidate

record token_entry =
  te_logGroupId :: u32
  te_form :: token_form
  te_dataKey :: bytes
  te_ddlKey :: bytes
  te_section :: u32
  te_entry :: u32

record resume_token =
  rt_timestamp :: u64
  rt_kind :: token_kind
  rt_entries :: "token_entry list"

definition kFormatVersion :: u8 where
  "kFormatVersion = 2"

definition kDataFieldName :: bytes where
  "kDataFieldName = bstr ''_data''"

definition makeWatermark :: "u64 \<Rightarrow> token_entry list \<Rightarrow> resume_token" where
  "makeWatermark ts es = \<lparr>rt_timestamp = ts, rt_kind = kWatermark, rt_entries = es\<rparr>"

text \<open>The underlying values of the two enumerations.\<close>

primrec form_byte :: "token_form \<Rightarrow> u8" where
  "form_byte kAfterKey = 0"
| "form_byte kAtKeyAfterPosition = 1"

primrec kind_byte :: "token_kind \<Rightarrow> u8" where
  "kind_byte kEvent = 0"
| "kind_byte kWatermark = 1"
| "kind_byte kInvalidate = 2"

definition form_of_byte :: "u8 \<Rightarrow> token_form result" where
  "form_of_byte b = (if b > form_byte kAtKeyAfterPosition then Inl FailedToParse
     else Inr (if b = 0 then kAfterKey else kAtKeyAfterPosition))"

definition kind_of_byte :: "u8 \<Rightarrow> token_kind result" where
  "kind_of_byte b = (if b > kind_byte kInvalidate then Inl FailedToParse
     else Inr (if b = 0 then kEvent else if b = 1 then kWatermark else kInvalidate))"

section \<open>Positions a token gives\<close>

definition startTimestampForAbsentGroup :: "resume_token \<Rightarrow> u64 result" where
  "startTimestampForAbsentGroup t =
     (if rt_kind t \<noteq> kWatermark then
        rbind (rguard (rt_timestamp t \<noteq> 0) FailedToParse) (\<lambda>_. Inr (rt_timestamp t))
      else
        rbind (rguard (rt_timestamp t \<noteq> -1) FailedToParse) (\<lambda>_. Inr (rt_timestamp t + 1)))"

fun find_entry :: "token_entry list \<Rightarrow> u32 \<Rightarrow> token_entry option" where
  "find_entry [] g = None"
| "find_entry (e # es) g = (if te_logGroupId e = g then Some e else find_entry es g)"

definition entryFor :: "resume_token \<Rightarrow> u32 \<Rightarrow> token_entry option" where
  "entryFor t g = find_entry (rt_entries t) g"

section \<open>Writing\<close>

definition appendSizedString :: "bytes \<Rightarrow> bytes result" where
  "appendSizedString v = rbind (rguard (length v \<le> 65535) InvariantFailure)
     (\<lambda>_. Inr (be_bytes (of_nat (length v) :: u16) @ v))"

definition encode_entry :: "token_entry \<Rightarrow> bytes result" where
  "encode_entry e =
     rbind (appendSizedString (te_dataKey e)) (\<lambda>d.
     rbind (appendSizedString (te_ddlKey e)) (\<lambda>l.
     Inr (be_bytes (te_logGroupId e) @ [form_byte (te_form e)] @ d @ l @
          (if te_form e = kAtKeyAfterPosition
           then be_bytes (te_section e) @ be_bytes (te_entry e) else []))))"

definition encode :: "resume_token \<Rightarrow> bytes result" where
  "encode t =
     rbind (rguard (length (rt_entries t) \<le> 65535) InvariantFailure) (\<lambda>_.
     rbind (write_all encode_entry (rt_entries t)) (\<lambda>es.
     Inr ([kFormatVersion] @ be_bytes (rt_timestamp t) @ [kind_byte (rt_kind t)] @
          be_bytes (of_nat (length (rt_entries t)) :: u16) @ es)))"

definition hexdigit :: "u8 \<Rightarrow> u8" where
  "hexdigit n = (if n < 10 then n + 48 else n + 87)"

definition toHexLower :: "bytes \<Rightarrow> bytes" where
  "toHexLower bs = concat (map (\<lambda>c. [hexdigit (drop_bit 4 (c AND 240)), hexdigit (c AND 15)]) bs)"

definition toBSON :: "resume_token \<Rightarrow> bson_obj result" where
  "toBSON t = rbind (encode t) (\<lambda>bs. Inr [(kDataFieldName, BString (toHexLower bs))])"

section \<open>Reading\<close>

definition readSizedString :: "bytes \<Rightarrow> (bytes \<times> bytes) result" where
  "readSizedString bs = rbind (read_be FailedToParse bs) (\<lambda>(len :: u16, r).
     read_exact FailedToParse (unat len) r)"

definition decode_entry :: "bytes \<Rightarrow> (token_entry \<times> bytes) result" where
  "decode_entry bs =
     rbind (read_be FailedToParse bs) (\<lambda>(g :: u32, r1).
     rbind (read_be FailedToParse r1) (\<lambda>(fb :: u8, r2).
     rbind (form_of_byte fb) (\<lambda>form.
     rbind (readSizedString r2) (\<lambda>(d, r3).
     rbind (readSizedString r3) (\<lambda>(l, r4).
     if form = kAtKeyAfterPosition then
       rbind (read_be FailedToParse r4) (\<lambda>(s :: u32, r5).
       rbind (read_be FailedToParse r5) (\<lambda>(n :: u32, r6).
       Inr (\<lparr>te_logGroupId = g, te_form = form, te_dataKey = d, te_ddlKey = l,
             te_section = s, te_entry = n\<rparr>, r6)))
     else
       Inr (\<lparr>te_logGroupId = g, te_form = form, te_dataKey = d, te_ddlKey = l,
             te_section = 0, te_entry = 0\<rparr>, r4))))))"

text \<open>The entry loop: \<open>seen\<close> is \<open>seenGroups\<close>, checked after each entry is read whole.\<close>

fun decode_entries :: "nat \<Rightarrow> u32 set \<Rightarrow> bytes \<Rightarrow> (token_entry list \<times> bytes) result" where
  "decode_entries 0 seen bs = Inr ([], bs)"
| "decode_entries (Suc n) seen bs =
     rbind (decode_entry bs) (\<lambda>(e, r).
     if te_logGroupId e \<in> seen then Inl FailedToParse
     else rbind (decode_entries n (insert (te_logGroupId e) seen) r) (\<lambda>(es, r'). Inr (e # es, r')))"

definition decode :: "bytes \<Rightarrow> resume_token result" where
  "decode bs =
     rbind (read_be FailedToParse bs) (\<lambda>(version :: u8, r1).
     if version \<noteq> kFormatVersion then Inl FailedToParse else
     rbind (read_be FailedToParse r1) (\<lambda>(ts :: u64, r2).
     rbind (read_be FailedToParse r2) (\<lambda>(kb :: u8, r3).
     rbind (kind_of_byte kb) (\<lambda>kind.
     if kind = kWatermark \<and> ts = -1 then Inl FailedToParse else
     if kind \<noteq> kWatermark \<and> ts = 0 then Inl FailedToParse else
     rbind (read_be FailedToParse r3) (\<lambda>(n :: u16, r4).
     rbind (decode_entries (unat n) {} r4) (\<lambda>(es, r5).
     if r5 \<noteq> [] then Inl FailedToParse
     else Inr \<lparr>rt_timestamp = ts, rt_kind = kind, rt_entries = es\<rparr>))))))"

definition isxdigit :: "u8 \<Rightarrow> bool" where
  "isxdigit c \<longleftrightarrow> 48 \<le> c \<and> c \<le> 57 \<or> 97 \<le> c \<and> c \<le> 102 \<or> 65 \<le> c \<and> c \<le> 70"

definition fromHex :: "u8 \<Rightarrow> u8 result" where
  "fromHex c = (if 48 \<le> c \<and> c \<le> 57 then Inr (c - 48)
     else if 97 \<le> c \<and> c \<le> 102 then Inr (c - 97 + 10)
     else if 65 \<le> c \<and> c \<le> 70 then Inr (c - 65 + 10)
     else Inl InvariantFailure)"

text \<open>The loop over pairs of digits; an odd last digit would read past the string.\<close>

fun fromHexPairs :: "bytes \<Rightarrow> bytes result" where
  "fromHexPairs [] = Inr []"
| "fromHexPairs [c] = Inl InvariantFailure"
| "fromHexPairs (a # b # cs) =
     rbind (fromHex a) (\<lambda>hi. rbind (fromHex b) (\<lambda>lo.
     rbind (fromHexPairs cs) (\<lambda>bs. Inr ((push_bit 4 hi OR lo) # bs))))"

definition parse :: "bson_obj \<Rightarrow> resume_token result" where
  "parse token = (case getField token kDataFieldName of
       None \<Rightarrow> Inl FailedToParse
     | Some v \<Rightarrow> (case v of
         BString hex \<Rightarrow>
           if nFields token \<noteq> 1 then Inl FailedToParse
           else if length hex mod 2 \<noteq> 0 then Inl FailedToParse
           else if \<not> list_all isxdigit hex then Inl FailedToParse
           else rbind (fromHexPairs hex) decode
       | _ \<Rightarrow> Inl FailedToParse))"

section \<open>Well-formed tokens\<close>

text \<open>
  What the reader guarantees of a token it accepts: the keys and the entry count fit their
  length fields, a form-0 entry carries no position, no group is named twice, and the timestamp
  is one the kind can have.
\<close>

definition entry_ok :: "token_entry \<Rightarrow> bool" where
  "entry_ok e \<longleftrightarrow> length (te_dataKey e) \<le> 65535 \<and> length (te_ddlKey e) \<le> 65535 \<and>
     (te_form e = kAfterKey \<longrightarrow> te_section e = 0 \<and> te_entry e = 0)"

definition token_ok :: "resume_token \<Rightarrow> bool" where
  "token_ok t \<longleftrightarrow> length (rt_entries t) \<le> 65535 \<and> list_all entry_ok (rt_entries t) \<and>
     distinct (map te_logGroupId (rt_entries t)) \<and>
     (if rt_kind t = kWatermark then rt_timestamp t \<noteq> -1 else rt_timestamp t \<noteq> 0)"

lemma form_of_byte_byte [simp]: "form_of_byte (form_byte f) = Inr f"
  by (cases f) (simp_all add: form_of_byte_def)

lemma form_of_byte_values [simp]:
  "form_of_byte 0 = Inr kAfterKey" "form_of_byte 1 = Inr kAtKeyAfterPosition"
  by (simp_all add: form_of_byte_def)

lemma form_of_byte_Inr: "form_of_byte b = Inr f \<Longrightarrow> b = form_byte f"
proof -
  assume "form_of_byte b = Inr f"
  then have "b \<le> 1" and f: "f = (if b = 0 then kAfterKey else kAtKeyAfterPosition)"
    by (auto simp: form_of_byte_def split: if_splits)
  then have "unat b \<le> 1" by (simp add: word_le_nat_alt)
  then have "unat b = unat (0 :: u8) \<or> unat b = unat (1 :: u8)" by simp arith
  then have "b = 0 \<or> b = 1" by (simp only: word_unat_eq_iff [symmetric])
  then show ?thesis using f by auto
qed

lemma kind_of_byte_byte [simp]: "kind_of_byte (kind_byte k) = Inr k"
  by (cases k) (simp_all add: kind_of_byte_def)

lemma kind_of_byte_Inr: "kind_of_byte b = Inr k \<Longrightarrow> b = kind_byte k"
proof -
  assume "kind_of_byte b = Inr k"
  then have "b \<le> 2" and k: "k = (if b = 0 then kEvent else if b = 1 then kWatermark else kInvalidate)"
    by (auto simp: kind_of_byte_def split: if_splits)
  then have "unat b \<le> 2" by (simp add: word_le_nat_alt)
  then have "unat b = unat (0 :: u8) \<or> unat b = unat (1 :: u8) \<or> unat b = unat (2 :: u8)" by simp arith
  then have "b = 0 \<or> b = 1 \<or> b = 2" by (simp only: word_unat_eq_iff [symmetric])
  then show ?thesis using k by auto
qed

section \<open>The binary form\<close>

lemma unat_of_nat_u16: "n \<le> 65535 \<Longrightarrow> unat (of_nat n :: u16) = n"
  by (simp add: unat_of_nat)

lemma readSizedString_append [codec_simps]:
  "length v \<le> 65535 \<Longrightarrow> appendSizedString v = Inr p \<Longrightarrow> readSizedString (p @ rest) = Inr (v, rest)"
  by (auto simp: appendSizedString_def readSizedString_def unat_of_nat_u16)

lemma readSizedString_sound:
  assumes "readSizedString bs = Inr (v, rest)"
  shows "length v \<le> 65535 \<and> (\<exists>p. appendSizedString v = Inr p \<and> bs = p @ rest)"
proof -
  obtain len :: u16 and r where "read_be FailedToParse bs = Inr (len, r)"
    and r: "read_exact FailedToParse (unat len) r = Inr (v, rest)"
    using assms by (auto simp: readSizedString_def)
  then have bs: "bs = be_bytes len @ r" by (simp add: read_be_sound)
  have v: "r = v @ rest" "length v = unat len"
    using read_exact_sound [OF r] by simp_all
  have "unat len \<le> 65535" by (rule unat_u16_le)
  then show ?thesis
    using bs v by (simp add: appendSizedString_def word_unat_eq_iff)
qed

interpretation sized_string: codec appendSizedString readSizedString "\<lambda>v. length v \<le> 65535"
  by unfold_locales (auto simp: appendSizedString_def readSizedString_append [unfolded appendSizedString_def]
      dest: readSizedString_sound [unfolded appendSizedString_def])

lemma decode_entry_encode:
  assumes "entry_ok e" "encode_entry e = Inr p"
  shows "decode_entry (p @ rest) = Inr (e, rest)"
proof -
  obtain d l where "appendSizedString (te_dataKey e) = Inr d" "appendSizedString (te_ddlKey e) = Inr l"
    and p: "p = be_bytes (te_logGroupId e) @ [form_byte (te_form e)] @ d @ l @
          (if te_form e = kAtKeyAfterPosition
           then be_bytes (te_section e) @ be_bytes (te_entry e) else [])"
    using assms(2) by (auto simp: encode_entry_def)
  moreover have "length (te_dataKey e) \<le> 65535" "length (te_ddlKey e) \<le> 65535"
    using assms(1) by (simp_all add: entry_ok_def)
  ultimately have "readSizedString (d @ r) = Inr (te_dataKey e, r)"
    "readSizedString (l @ r) = Inr (te_ddlKey e, r)" for r
    by (simp_all add: sized_string.dec_enc)
  then show ?thesis
    using assms(1) by (cases "te_form e") (simp_all add: decode_entry_def p entry_ok_def)
qed

lemma decode_entry_sound:
  assumes "decode_entry bs = Inr (e, rest)"
  shows "entry_ok e \<and> (\<exists>p. encode_entry e = Inr p \<and> bs = p @ rest)"
proof -
  obtain g :: u32 and r1 fb r2 form d r3 l r4 where
      "read_be FailedToParse bs = Inr (g, r1)" "read_be FailedToParse r1 = Inr (fb, r2)"
      "form_of_byte fb = Inr form" "readSizedString r2 = Inr (d, r3)" "readSizedString r3 = Inr (l, r4)"
    and fin: "(if form = kAtKeyAfterPosition then
       rbind (read_be FailedToParse r4) (\<lambda>(s :: u32, r5).
       rbind (read_be FailedToParse r5) (\<lambda>(n :: u32, r6).
       Inr (\<lparr>te_logGroupId = g, te_form = form, te_dataKey = d, te_ddlKey = l,
             te_section = s, te_entry = n\<rparr>, r6)))
     else
       Inr (\<lparr>te_logGroupId = g, te_form = form, te_dataKey = d, te_ddlKey = l,
             te_section = 0, te_entry = 0\<rparr>, r4)) = Inr (e, rest)"
    using assms by (auto simp: decode_entry_def split del: if_split)
  then have "bs = be_bytes g @ r1" "r1 = form_byte form # r2"
    using read_be_sound [of FailedToParse r1 fb r2] form_of_byte_Inr
    by (simp_all add: read_be_sound)
  moreover obtain p q where "appendSizedString d = Inr p" "r2 = p @ r3" "length d \<le> 65535"
    "appendSizedString l = Inr q" "r3 = q @ r4" "length l \<le> 65535"
    using \<open>readSizedString r2 = _\<close> \<open>readSizedString r3 = _\<close> readSizedString_sound by meson
  ultimately show ?thesis
    using fin by (cases form) (auto simp: entry_ok_def encode_entry_def dest!: read_be_sound [rotated])
qed

interpretation token_entry: codec encode_entry decode_entry entry_ok
proof unfold_locales
  fix e assume "entry_ok e"
  then show "\<exists>p. encode_entry e = Inr p"
    by (simp add: entry_ok_def encode_entry_def appendSizedString_def)
qed (simp_all add: decode_entry_encode decode_entry_sound)

interpretation token_entries: counted_codec encode_entry decode_entry entry_ok
  by unfold_locales

text \<open>The entry loop is the counted read with the no-duplicates check on top.\<close>

lemma decode_entries_read_n:
  "decode_entries n seen bs = Inr (es, rest) \<longleftrightarrow>
     read_n decode_entry n bs = Inr (es, rest) \<and> distinct (map te_logGroupId es) \<and>
     set (map te_logGroupId es) \<inter> seen = {}"
proof (induction n arbitrary: seen bs es)
  case (Suc n)
  have "(\<exists>e r es'. decode_entry bs = Inr (e, r) \<and> te_logGroupId e \<notin> seen \<and>
          decode_entries n (insert (te_logGroupId e) seen) r = Inr (es', rest) \<and> es = e # es') \<longleftrightarrow>
        (\<exists>e r es'. decode_entry bs = Inr (e, r) \<and> read_n decode_entry n r = Inr (es', rest) \<and>
          es = e # es' \<and> distinct (map te_logGroupId es) \<and> set (map te_logGroupId es) \<inter> seen = {})"
    unfolding Suc.IH by auto
  then show ?case by (auto split: if_splits)
qed auto

lemma decode_encode_token:
  assumes "token_ok t" "encode t = Inr bs"
  shows "decode bs = Inr t"
proof -
  let ?es = "rt_entries t"
  obtain p where p: "write_all encode_entry ?es = Inr p"
    and bs: "bs = [kFormatVersion] @ be_bytes (rt_timestamp t) @ [kind_byte (rt_kind t)] @
          be_bytes (of_nat (length ?es) :: u16) @ p"
    using assms(2) by (auto simp: encode_def)
  have "read_n decode_entry (length ?es) p = Inr (?es, [])"
    using token_entry.counted_dec_enc [of ?es p "[]"] assms(1) p by (simp add: token_ok_def)
  then have "decode_entries (length ?es) {} p = Inr (?es, [])"
    using assms(1) by (simp add: decode_entries_read_n token_ok_def)
  then show ?thesis
    using assms(1) by (auto simp: decode_def bs token_ok_def unat_of_nat_u16 split: if_splits)
qed

lemma decode_token_sound:
  assumes "decode bs = Inr t"
  shows "token_ok t \<and> encode t = Inr bs"
proof -
  obtain ts :: u64 and r1 r2 kb r3 kind and n :: u16 and r4 es where
      "read_be FailedToParse bs = Inr (kFormatVersion, r1)" "read_be FailedToParse r1 = Inr (ts, r2)"
      "read_be FailedToParse r2 = Inr (kb, r3)" "kind_of_byte kb = Inr kind"
      "read_be FailedToParse r3 = Inr (n, r4)" and es: "decode_entries (unat n) {} r4 = Inr (es, [])"
    and ts: "\<not> (kind = kWatermark \<and> ts = -1)" "\<not> (kind \<noteq> kWatermark \<and> ts = 0)"
    and t: "t = \<lparr>rt_timestamp = ts, rt_kind = kind, rt_entries = es\<rparr>"
    using assms by (auto simp: decode_def split: if_splits)
  then have bs: "bs = kFormatVersion # be_bytes ts @ kind_byte kind # be_bytes n @ r4"
    by (auto dest!: read_be_sounds kind_of_byte_Inr)
  obtain len: "length es = unat n" and ok: "list_all entry_ok es"
    and w: "write_all encode_entry es = Inr r4" and d: "distinct (map te_logGroupId es)"
    using es token_entry.counted_dec_sound by (fastforce simp: decode_entries_read_n)
  have "unat n \<le> 65535" by (rule unat_u16_le)
  then show ?thesis
    using ts len ok w d by (auto simp: t bs token_ok_def encode_def word_unat_eq_iff)
qed

section \<open>The wire shape\<close>

lemma fromHex_hexdigit:
  assumes "n < (16 :: u8)"
  shows "fromHex (hexdigit n) = Inr n" "isxdigit (hexdigit n)"
proof -
  have "n \<in> of_nat ` {..<16}"
    using assms by (intro image_eqI [of _ _ "unat n"]) (simp_all add: word_less_nat_alt)
  then have "n \<in> {0, 1, 2, 3, 4, 5, 6, 7, 8, 9, 10, 11, 12, 13, 14, 15}"
    by (auto simp: lessThan_nat_numeral lessThan_Suc)
  then show "fromHex (hexdigit n) = Inr n" "isxdigit (hexdigit n)"
    unfolding insert_iff
    by (elim disjE; simp add: fromHex_def hexdigit_def isxdigit_def)+
qed

lemma nibbles:
  "drop_bit 4 (c AND 240) < (16 :: u8)" "c AND 15 < (16 :: u8)"
  "push_bit 4 (drop_bit 4 (c AND 240)) OR (c AND 15) = (c :: u8)"
proof -
  have m: "(15 :: u8) = mask 4" "(240 :: u8) = NOT (mask 4)"
    by (simp_all add: mask_eq_exp_minus_1)
  have "c AND 15 = take_bit 4 c" by (simp add: m take_bit_eq_mask)
  moreover have "drop_bit 4 (c AND 240) = drop_bit 4 c"
    by (rule bit_word_eqI) (use bit_imp_le_length [of c] in \<open>fastforce simp: m bit_simps\<close>)
  moreover have "drop_bit 4 c = take_bit 4 (drop_bit 4 c)"
    by (rule bit_word_eqI) (use bit_imp_le_length [of c] in \<open>fastforce simp: bit_simps\<close>)
  moreover have "take_bit 4 d < (16 :: u8)" for d :: u8
    using take_bit_nat_less_exp [of 4 "unat d"] by (simp add: word_less_nat_alt unsigned_take_bit_eq)
  moreover have "push_bit 4 (drop_bit 4 c) OR take_bit 4 c = c"
    by (rule bit_word_eqI) (auto simp: bit_simps)
  ultimately show "drop_bit 4 (c AND 240) < (16 :: u8)" "c AND 15 < (16 :: u8)"
    "push_bit 4 (drop_bit 4 (c AND 240)) OR (c AND 15) = c" by metis+
qed

lemma toHexLower_Cons:
  "toHexLower (c # bs) = hexdigit (drop_bit 4 (c AND 240)) # hexdigit (c AND 15) # toHexLower bs"
  by (simp add: toHexLower_def)

lemma fromHexPairs_toHexLower: "fromHexPairs (toHexLower bs) = Inr bs"
proof (induction bs)
  case (Cons c bs)
  then show ?case
    by (simp only: toHexLower_Cons fromHexPairs.simps fromHex_hexdigit nibbles rbind_Inr)
qed (simp add: toHexLower_def)

lemma toHexLower_digits: "list_all isxdigit (toHexLower bs)" "length (toHexLower bs) = 2 * length bs"
proof -
  show "list_all isxdigit (toHexLower bs)"
  proof (induction bs)
    case (Cons c bs)
    then show ?case
      by (simp only: toHexLower_Cons list.pred_inject fromHex_hexdigit nibbles simp_thms)
  qed (simp add: toHexLower_def)
  show "length (toHexLower bs) = 2 * length bs"
    by (induction bs) (simp_all add: toHexLower_def)
qed

lemma fromHex_isxdigit: "isxdigit c \<Longrightarrow> \<exists>n. fromHex c = Inr n"
  by (auto simp: isxdigit_def fromHex_def)

lemma fromHexPairs_total:
  "list_all isxdigit cs \<Longrightarrow> even (length cs) \<Longrightarrow> \<exists>bs. fromHexPairs cs = Inr bs"
proof (induction cs rule: fromHexPairs.induct)
  case (3 a b cs)
  then show ?case using fromHex_isxdigit [of a] fromHex_isxdigit [of b] by auto
qed simp_all

lemma encode_ok: "token_ok t \<Longrightarrow> \<exists>bs. encode t = Inr bs"
  using token_entry.counted_enc_ok [of "rt_entries t"] by (auto simp: token_ok_def encode_def)

lemma find_entry_distinct:
  "distinct (map te_logGroupId es) \<Longrightarrow> e \<in> set es \<Longrightarrow> find_entry es (te_logGroupId e) = Some e"
  by (induction es) (auto simp: image_iff)

lemma parse_of_toBSON: "token_ok t \<Longrightarrow> \<exists>obj. toBSON t = Inr obj \<and> parse obj = Inr t"
  using encode_ok [of t] decode_encode_token [of t]
  by (auto simp: toBSON_def parse_def nFields_def toHexLower_digits fromHexPairs_toHexLower)

lemma read_be_error: "read_be err bs = Inl e \<Longrightarrow> e = err"
  by (auto simp: read_be_def Let_def split: if_splits)

lemma readSizedString_error: "readSizedString bs = Inl e \<Longrightarrow> e = FailedToParse"
  by (auto simp: readSizedString_def rbind_eq_Inl read_exact_def split: if_splits dest: read_be_error)

lemma decode_entry_error: "decode_entry bs = Inl e \<Longrightarrow> e = FailedToParse"
  by (auto simp: decode_entry_def rbind_eq_Inl form_of_byte_def split: if_splits
      dest!: read_be_error readSizedString_error)

lemma decode_entries_error: "decode_entries n seen bs = Inl e \<Longrightarrow> e = FailedToParse"
  by (induction n seen bs rule: decode_entries.induct)
    (auto simp: rbind_eq_Inl split: if_splits dest: decode_entry_error)

lemma decode_error: "decode bs = Inl e \<Longrightarrow> e = FailedToParse"
  by (auto simp: decode_def rbind_eq_Inl kind_of_byte_def split: if_splits
      dest!: read_be_error decode_entries_error)

lemma fromHexPairs_error:
  "fromHexPairs cs = Inl e \<Longrightarrow> list_all isxdigit cs \<Longrightarrow> length cs mod 2 = 0 \<Longrightarrow> False"
  using fromHexPairs_total [of cs] by auto

section \<open>Properties\<close>

text \<open>
  C8: The token format is exact. The reader accepts precisely the byte strings the writer
  produces for well-formed tokens, and gives back the token they were written from; there is one
  encoding per token, and no other input (a wrong version, kind or form, a repeated group, a cut
  or an overlong buffer, a timestamp the kind cannot have) is accepted.
\<close>

theorem token_decode_iff_encode:
  "decode bs = Inr t \<longleftrightarrow> token_ok t \<and> encode t = Inr bs"
  using decode_encode_token decode_token_sound by blast


definition sample_token :: resume_token where
  "sample_token = \<lparr>rt_timestamp = 1700000000000000, rt_kind = kEvent,
     rt_entries = [\<lparr>te_logGroupId = 0, te_form = kAfterKey, te_dataKey = [1, 2, 3], te_ddlKey = [],
                    te_section = 0, te_entry = 0\<rparr>,
                   \<lparr>te_logGroupId = 7, te_form = kAtKeyAfterPosition, te_dataKey = [0, 255],
                    te_ddlKey = [9], te_section = 1, te_entry = 4\<rparr>]\<rparr>"

lemma sample_token_ok: "token_ok sample_token"
  by (simp add: sample_token_def token_ok_def entry_ok_def)


text \<open>
  C25: Every token a client can present that parses can be resumed from: a group it does not name
  starts at a timestamp that exists and is positive, strictly after a watermark and at the
  timestamp of an event, and a group it names has exactly the one entry the token lists for it.
\<close>

theorem parsed_token_resumable:
  assumes "parse obj = Inr t"
  shows "(\<exists>start. startTimestampForAbsentGroup t = Inr start \<and> 0 < start \<and>
           unat start = unat (rt_timestamp t) + (if rt_kind t = kWatermark then 1 else 0)) \<and>
         (\<forall>g. case entryFor t g of
             None \<Rightarrow> g \<notin> te_logGroupId ` set (rt_entries t)
           | Some e \<Rightarrow> filter (\<lambda>e. te_logGroupId e = g) (rt_entries t) = [e])"
proof -
  obtain bs where "decode bs = Inr t"
    using assms by (auto simp: parse_def split: option.splits bson.splits if_splits)
  then have ok: "token_ok t" using decode_token_sound by blast
  have start: "\<exists>start. startTimestampForAbsentGroup t = Inr start \<and> 0 < start \<and>
           unat start = unat (rt_timestamp t) + (if rt_kind t = kWatermark then 1 else 0)"
    using ok unat_succ [of "rt_timestamp t"] succ_pos [of "rt_timestamp t"]
    by (auto simp: token_ok_def startTimestampForAbsentGroup_def word_gt_0 split: if_splits)
  have "case find_entry es g of None \<Rightarrow> g \<notin> te_logGroupId ` set es
           | Some e \<Rightarrow> filter (\<lambda>e. te_logGroupId e = g) es = [e]"
    if "distinct (map te_logGroupId es)" for es g
    using that by (induction es) (auto simp: filter_empty_conv image_iff split: option.splits)
  with start ok show ?thesis by (simp add: entryFor_def token_ok_def)
qed

theorem parsed_token_resumable_witness:
  "\<exists>obj. parse obj = Inr sample_token \<and>
     (\<exists>start. startTimestampForAbsentGroup sample_token = Inr start \<and> 0 < start \<and>
        unat start = unat (rt_timestamp sample_token) +
          (if rt_kind sample_token = kWatermark then 1 else 0))"
proof -
  obtain obj where "parse obj = Inr sample_token"
    using parse_of_toBSON [OF sample_token_ok] by blast
  then show ?thesis using parsed_token_resumable [of obj sample_token] by blast
qed

text \<open>
  C40: A token from a client never ends the process and never surfaces as anything but a parse
  failure: whatever object is presented, a rejection is \<open>FailedToParse\<close>, and the hexadecimal
  reader's \<open>verify\<close> is out of reach behind the digit check.
\<close>

theorem parse_error_code:
  "parse obj = Inl e \<Longrightarrow> e = FailedToParse"
  by (auto simp: parse_def rbind_eq_Inl split: option.splits bson.splits if_splits
      dest: decode_error fromHexPairs_error)

theorem parse_error_code_witness:
  "parse [(kDataFieldName, BString (bstr ''0100''))] = Inl FailedToParse"
proof -
  have "\<exists>e. parse [(kDataFieldName, BString (bstr ''0100''))] = Inl e"
    by (simp add: parse_def nFields_def bstr_def isxdigit_def fromHex_def decode_def kFormatVersion_def)
  then show ?thesis using parse_error_code by blast
qed

end
