(* ===== verification/Event_Stream.thy ===== *)
theory Event_Stream
  imports Ddl_Decoder Resume_Token Key_Decoder Scan_Source
begin

text \<open>
  The event producer (\<open>cdc/cdc_event_stream.h\<close>, \<open>.cpp\<close>): records the scan source releases become
  events, one per pull, each with its resume token as \<open>_id\<close>. The source is the machine of
  \<open>Scan_Source\<close>, whose own \<open>next\<close> runs over time; \<open>es_next\<close> is given the records its calls release
  until they give none, and what it does not use is left for the next pull. A thrown exception is an
  error, after which the cursor is gone. Event documents are BSON objects with their fields in order;
  the decimal library and the depth limit of \<open>validateBSON\<close> are the environment.
\<close>

section \<open>State\<close>

record event_env =
  env_decimal :: decimal_lib
  env_maxDepth :: nat

record resume_skip =
  sk_ts :: u64
  sk_dataKey :: bytes
  sk_ddlKey :: bytes
  sk_dataAtTs :: bool
  sk_ddlAtTs :: bool
  sk_atPosition :: bool
  sk_section :: u32
  sk_entry :: u32

record stream_group =
  eg_hasCursor :: bool
  eg_dataKey :: bytes
  eg_ddlKey :: bytes
  eg_partial :: bool
  eg_section :: u32
  eg_entry :: u32
  eg_dedupTs :: u64
  eg_dedup :: "bytes set"
  eg_dedupBytes :: int
  eg_skip :: "resume_skip option"

definition new_group :: stream_group where
  "new_group = \<lparr>eg_hasCursor = False, eg_dataKey = [], eg_ddlKey = [], eg_partial = False, eg_section = 0,
     eg_entry = 0, eg_dedupTs = 0, eg_dedup = {}, eg_dedupBytes = 0, eg_skip = None\<rparr>"

record current_record =
  ec_group :: u32
  ec_key :: bytes
  ec_ts :: u64
  ec_txn :: u64
  ec_decoder :: blob_decoder
  ec_consumeThrough :: "(u32 \<times> u32) option"

record stream_stats =
  st_emitBound :: u64
  st_producedThrough :: u64
  st_dedupOverflows :: u64
  st_lastPullMillis :: int

record event_stream =
  es_scope :: stream_scope
  es_dedupSetBytes :: int
  es_groups :: "(u32 \<times> stream_group) list"
  es_current :: "current_record option"
  es_openingToken :: bson_obj
  es_ownDropKeys :: "(u32 \<times> bytes) list"
  es_resumedFrom :: "resume_token option"
  es_pendingInvalidate :: "bson_obj option"
  es_invalidated :: bool
  es_invalidateToken :: bson_obj
  es_duplicatesSuppressed :: u64
  es_dedupOverflows :: u64
  es_stats :: stream_stats

definition make_stream :: "stream_scope \<Rightarrow> int \<Rightarrow> event_stream" where
  "make_stream scope dedupSetBytes = \<lparr>es_scope = scope, es_dedupSetBytes = dedupSetBytes, es_groups = [],
     es_current = None, es_openingToken = [], es_ownDropKeys = [], es_resumedFrom = None,
     es_pendingInvalidate = None, es_invalidated = False, es_invalidateToken = [],
     es_duplicatesSuppressed = 0, es_dedupOverflows = 0,
     es_stats = \<lparr>st_emitBound = 0, st_producedThrough = 0, st_dedupOverflows = 0, st_lastPullMillis = 0\<rparr>\<rparr>"

text \<open>\<open>_groups[id]\<close>: the group, a new one when the map has none.\<close>

definition group_of :: "event_stream \<Rightarrow> u32 \<Rightarrow> stream_group" where
  "group_of s g = (case map_of (es_groups s) g of None \<Rightarrow> new_group | Some x \<Rightarrow> x)"

definition put_group :: "u32 \<Rightarrow> stream_group \<Rightarrow> event_stream \<Rightarrow> event_stream" where
  "put_group g x s = s\<lparr>es_groups := om_put g x (es_groups s)\<rparr>"

section \<open>Keys and values\<close>

definition kEventEnvelopeBytes :: int where
  "kEventEnvelopeBytes = 512"

definition keyTimestamp :: "bytes \<Rightarrow> u64" where
  "keyTimestamp key = (if length key < 8 then 0
     else foldl (\<lambda>ts b. push_bit 8 ts OR ucast b) 0 (take 8 key))"

definition dedupKey :: "u64 \<Rightarrow> blob_entry \<Rightarrow> bytes" where
  "dedupKey txn e = be_bytes_n 8 txn @ be_ns e @ [0] @ be_keyString e"

fun operationType :: "cdc_operation \<Rightarrow> bytes" where
  "operationType OpInsert = bstr ''insert''"
| "operationType OpUpdate = bstr ''replace''"
| "operationType OpUpsert = bstr ''replace''"
| "operationType OpDelete = bstr ''delete''"

text \<open>\<open>Timestamp(unsigned, unsigned)\<close>: two 32-bit halves, seconds above.\<close>

definition clusterTime :: "u64 \<Rightarrow> u64" where
  "clusterTime ts = (let secs = ucast (ts div 1000000) :: u32; inc = ucast (ts mod 1000000) :: u32
     in push_bit 32 (ucast secs) OR ucast inc)"

definition ns_doc :: "bytes \<Rightarrow> bson" where
  "ns_doc nss = BObject [(bstr ''db'', BString (nss_db nss)), (bstr ''coll'', BString (nss_coll nss))]"

section \<open>Tokens\<close>

definition entry_of_group :: "u32 \<Rightarrow> stream_group \<Rightarrow> token_entry" where
  "entry_of_group g x = \<lparr>te_logGroupId = g, te_form = (if eg_partial x then kAtKeyAfterPosition else kAfterKey),
     te_dataKey = eg_dataKey x, te_ddlKey = eg_ddlKey x,
     te_section = (if eg_partial x then eg_section x else 0), te_entry = (if eg_partial x then eg_entry x else 0)\<rparr>"

definition cursor_beyond :: "u64 \<Rightarrow> stream_group \<Rightarrow> bool" where
  "cursor_beyond coveredThrough x \<longleftrightarrow> \<not> (\<not> eg_hasCursor x \<or>
     max (keyTimestamp (eg_dataKey x)) (keyTimestamp (eg_ddlKey x)) \<le> coveredThrough)"

definition es_entries :: "event_stream \<Rightarrow> u64 \<Rightarrow> token_entry list" where
  "es_entries s coveredThrough =
     map (\<lambda>(g, x). entry_of_group g x) (filter (\<lambda>(g, x). cursor_beyond coveredThrough x) (es_groups s))"

definition watermark :: "scan_source \<Rightarrow> event_stream \<Rightarrow> resume_token" where
  "watermark src s = makeWatermark (emitBound src) (es_entries s (emitBound src))"

section \<open>Duplicates\<close>

text \<open>\<open>_seen\<close> on a group: whether the change was there, whether it went unrecorded, and the group.\<close>

definition group_seen :: "int \<Rightarrow> u64 \<Rightarrow> bytes \<Rightarrow> stream_group \<Rightarrow> bool \<times> bool \<times> stream_group" where
  "group_seen limit ts key x0 =
     (let x = (if eg_dedupTs x0 \<noteq> ts then x0\<lparr>eg_dedup := {}, eg_dedupBytes := 0, eg_dedupTs := ts\<rparr> else x0);
          n = int (length key) + 32
      in if key \<in> eg_dedup x then (True, False, x)
         else if eg_dedupBytes x + n > limit then (False, True, x)
         else (False, False, x\<lparr>eg_dedup := insert key (eg_dedup x), eg_dedupBytes := eg_dedupBytes x + n\<rparr>))"

definition es_seen :: "u32 \<Rightarrow> u64 \<Rightarrow> bytes \<Rightarrow> event_stream \<Rightarrow> bool \<times> event_stream" where
  "es_seen g ts key s =
     (let (dup, overflow, x) = group_seen (es_dedupSetBytes s) ts key (group_of s g);
          s1 = put_group g x s
      in (dup, if overflow then s1\<lparr>es_dedupOverflows := es_dedupOverflows s1 + 1\<rparr> else s1))"

section \<open>Events\<close>

definition mkToken :: "u64 \<Rightarrow> token_kind \<Rightarrow> token_entry list \<Rightarrow> resume_token" where
  "mkToken ts kind entries = \<lparr>rt_timestamp = ts, rt_kind = kind, rt_entries = entries\<rparr>"

definition es_event :: "event_env \<Rightarrow> event_stream \<Rightarrow> current_record \<Rightarrow> blob_entry \<Rightarrow> bson_obj result" where
  "es_event env s c e =
     rbind (toBSON (mkToken (ec_ts c) kEvent (es_entries s (ec_ts c - 1)))) (\<lambda>token.
     let isDelete = (be_op e = OpDelete) in
     rbind (if isDelete then Inr [] else rbind (documentBson e) bsonObj) (\<lambda>fullDocument.
     rbind (case getField fullDocument (bstr ''_id'') of
              Some v \<Rightarrow> Inr [(bstr ''_id'', v)]
            | None \<Rightarrow> decodeIdKey (env_decimal env) (be_keyString e) (bstr ''_id'')) (\<lambda>documentKey.
     rbind (NamespaceString (be_ns e)) (\<lambda>nss.
     let estimate = int (objsize fullDocument) + int (objsize token) + int (objsize documentKey) +
           int (length (be_keyString e)) + int (length (be_ns e)) + kEventEnvelopeBytes
     in Inr ([(bstr ''_id'', BObject token),
              (bstr ''operationType'', BString (operationType (be_op e))),
              (bstr ''clusterTime'', BTimestamp (clusterTime (ec_ts c)))] @
             (if isDelete then []
              else if estimate > int BSONObjMaxUserSize then [(bstr ''fullDocumentOmitted'', BBool True)]
              else [(bstr ''fullDocument'', BObject fullDocument)]) @
             [(bstr ''ns'', ns_doc nss),
              (bstr ''documentKey'', BObject documentKey),
              (bstr ''eloq'', BObject [(bstr ''keyBytes'', BBinData 0 (be_keyString e))])])))))"

definition dropsWatchedCollection :: "event_stream \<Rightarrow> ddl_change option \<Rightarrow> bool" where
  "dropsWatchedCollection s change = (case change of None \<Rightarrow> False
     | Some ch \<Rightarrow> dc_dropsCollection ch \<and> scope_isCollection (es_scope s) (dc_ns ch))"

definition invalidateEvent :: "resume_token \<Rightarrow> bytes \<Rightarrow> bson_obj result" where
  "invalidateEvent token ns =
     rbind (NamespaceString ns) (\<lambda>nss.
     rbind (toBSON token) (\<lambda>tok.
     Inr [(bstr ''_id'', BObject tok),
          (bstr ''operationType'', BString (bstr ''invalidate'')),
          (bstr ''clusterTime'', BTimestamp (clusterTime (rt_timestamp token))),
          (bstr ''ns'', ns_doc nss)]))"

text \<open>The event of a change in scope, and the invalidate it leaves pending.\<close>

definition reportDdl :: "u64 \<Rightarrow> ddl_change \<Rightarrow> event_stream \<Rightarrow> (bson_obj option \<times> event_stream) result" where
  "reportDdl ts ch s =
     (let entries = es_entries s (ts - 1) in
      rbind (NamespaceString (dc_ns ch)) (\<lambda>nss.
      rbind (toBSON (mkToken ts kEvent entries)) (\<lambda>token.
      rbind (if dropsWatchedCollection s (Some ch)
             then rbind (invalidateEvent (mkToken ts kInvalidate entries) (dc_ns ch))
               (\<lambda>ivd. Inr (s\<lparr>es_pendingInvalidate := Some ivd\<rparr>))
             else Inr s) (\<lambda>s1.
      Inr (Some ([(bstr ''_id'', BObject token),
                  (bstr ''operationType'', BString (dc_operationType ch)),
                  (bstr ''clusterTime'', BTimestamp (clusterTime ts)),
                  (bstr ''ns'', ns_doc nss)] @
                 (if dc_dropsCollection ch then []
                  else [(bstr ''operationDescription'', BObject (dc_operationDescription ch))])), s1)))))"

definition ddlEvent :: "event_env \<Rightarrow> u64 \<Rightarrow> ddl_record \<Rightarrow> event_stream \<Rightarrow> (bson_obj option \<times> event_stream) result" where
  "ddlEvent env ts r s =
     rbind (decodeCdcDdl (env_maxDepth env) (dd_schema_op r)) (\<lambda>change. case change of
         None \<Rightarrow> Inr (None, s)
       | Some ch \<Rightarrow> if \<not> scope_includes (es_scope s) (dc_ns ch) then Inr (None, s) else reportDdl ts ch s)"

section \<open>Starting a record\<close>

text \<open>The changes of a consumed record go into the dedup set.\<close>

function consume_all :: "u32 \<Rightarrow> u64 \<Rightarrow> u64 \<Rightarrow> blob_decoder \<Rightarrow> event_stream \<Rightarrow> event_stream result" where
  "consume_all g ts txn d s = rbind (blob_next d) (\<lambda>found. case found of
       None \<Rightarrow> Inr s
     | Some (e, d') \<Rightarrow> consume_all g ts txn d' (snd (es_seen g ts (dedupKey txn e) s)))"
  by pat_completeness auto
termination
  by (relation "inv_image (measures [\<lambda>d. length (bd_rest d), \<lambda>d. length (bd_sectionRest d)]) (\<lambda>(g, ts, txn, d, s). d)")
    (simp, use blob_next_decreases in \<open>fastforce simp del: in_measures\<close>)

declare consume_all.simps [simp del]

text \<open>A DDL record at or below the resume point: nothing is produced, unless it is the drop the
  token itself is for, whose invalidate is all that is left.\<close>

definition skip_ddl :: "event_env \<Rightarrow> u32 \<Rightarrow> ddl_record \<Rightarrow> event_stream \<Rightarrow> event_stream result" where
  "skip_ddl env g r s =
     (if map_of (es_ownDropKeys s) g = Some (ddlKey r) then
        let s1 = s\<lparr>es_ownDropKeys := filter (\<lambda>(h, _). h \<noteq> g) (es_ownDropKeys s)\<rparr> in
        rbind (decodeCdcDdl (env_maxDepth env) (dd_schema_op r)) (\<lambda>change.
          if dropsWatchedCollection s1 change
          then (case (change, es_resumedFrom s1) of
              (Some ch, Some token) \<Rightarrow>
                rbind (invalidateEvent (mkToken (rt_timestamp token) kInvalidate (rt_entries token)) (dc_ns ch))
                  (\<lambda>ivd. Inr (s1\<lparr>es_pendingInvalidate := Some ivd\<rparr>))
            | _ \<Rightarrow> Inl UndefinedBehaviour)
          else Inr s1)
      else Inr s)"

definition begin_ddl :: "event_env \<Rightarrow> u32 \<Rightarrow> ddl_record \<Rightarrow> event_stream \<Rightarrow> (bson_obj option \<times> event_stream) result" where
  "begin_ddl env g r s =
     (let x = group_of s g; key = ddlKey r in
      if (case eg_skip x of None \<Rightarrow> False | Some k \<Rightarrow> sk_ddlAtTs k \<and> key \<le> sk_ddlKey k)
      then rbind (skip_ddl env g r s) (\<lambda>s1. Inr (None, s1))
      else ddlEvent env (dd_ddl_ts r) r
             (put_group g (x\<lparr>eg_skip := None, eg_hasCursor := True, eg_ddlKey := key\<rparr>) s))"

definition produced_before :: "resume_skip \<Rightarrow> bytes \<Rightarrow> bool" where
  "produced_before k key \<longleftrightarrow> sk_ddlAtTs k \<or> \<not> sk_dataAtTs k \<or> key < sk_dataKey k \<or>
     (key = sk_dataKey k \<and> \<not> sk_atPosition k)"

definition begin_data :: "u32 \<Rightarrow> data_record \<Rightarrow> event_stream \<Rightarrow> event_stream result" where
  "begin_data g r s =
     (let key = dataKey r; ts = dr_commit_ts r; txn = dr_txn_number r; decoder = make_decoder (dr_blob r) (es_scope s);
          start = (\<lambda>through. s\<lparr>es_current := Some \<lparr>ec_group = g, ec_key = key, ec_ts = ts, ec_txn = txn,
             ec_decoder = decoder, ec_consumeThrough = through\<rparr>\<rparr>)
      in case eg_skip (group_of s g) of
           None \<Rightarrow> Inr (start None)
         | Some k \<Rightarrow>
             if produced_before k key then consume_all g ts txn decoder s
             else Inr (start (if key = sk_dataKey k then Some (sk_section k, sk_entry k) else None)))"

definition es_begin :: "event_env \<Rightarrow> source_record \<Rightarrow> event_stream \<Rightarrow> (bson_obj option \<times> event_stream) result" where
  "es_begin env rec s0 =
     (let g = sr_logGroupId rec; ts = sr_timestamp rec; x = group_of s0 g;
          s = put_group g (case eg_skip x of Some k \<Rightarrow> if ts > sk_ts k then x\<lparr>eg_skip := None\<rparr> else x | None \<Rightarrow> x) s0
      in case sr_item rec of
           DdlItem r \<Rightarrow> begin_ddl env g r s
         | DataItem r \<Rightarrow> rbind (begin_data g r s) (\<lambda>s1. Inr (None, s1)))"

section \<open>Pulling\<close>

definition pos_le :: "u32 \<times> u32 \<Rightarrow> u32 \<times> u32 \<Rightarrow> bool" where
  "pos_le p q \<longleftrightarrow> fst p < fst q \<or> fst p = fst q \<and> snd p \<le> snd q"

definition consumed_through :: "current_record \<Rightarrow> blob_entry \<Rightarrow> bool" where
  "consumed_through c e = (case ec_consumeThrough c of None \<Rightarrow> False
     | Some p \<Rightarrow> pos_le (be_section e, be_entry e) p)"

text \<open>The loop over the current record's changes: up to the next one to produce.\<close>

function produce_next ::
  "current_record \<Rightarrow> event_stream \<Rightarrow> (blob_entry option \<times> current_record \<times> event_stream) result" where
  "produce_next c s = rbind (blob_next (ec_decoder c)) (\<lambda>found. case found of
       None \<Rightarrow> Inr (None, c, s)
     | Some (e, d) \<Rightarrow>
         let c1 = c\<lparr>ec_decoder := d\<rparr>;
             seen = es_seen (ec_group c) (ec_ts c) (dedupKey (ec_txn c) e) s
         in if consumed_through c e then produce_next c1 (snd seen)
            else if fst seen
            then produce_next c1 ((snd seen)\<lparr>es_duplicatesSuppressed := es_duplicatesSuppressed (snd seen) + 1\<rparr>)
            else Inr (Some e, c1, snd seen))"
  by pat_completeness auto
termination
  by (relation "inv_image (measures [\<lambda>d. length (bd_rest d), \<lambda>d. length (bd_sectionRest d)]) (\<lambda>(c, s). ec_decoder c)")
    (simp, (use blob_next_decreases in \<open>fastforce simp del: in_measures\<close>)+)

declare produce_next.simps [simp del]

definition move_cursor :: "current_record \<Rightarrow> blob_entry option \<Rightarrow> event_stream \<Rightarrow> event_stream" where
  "move_cursor c e s =
     (let x = (group_of s (ec_group c))\<lparr>eg_hasCursor := True, eg_dataKey := ec_key c\<rparr>
      in put_group (ec_group c) (case e of
           Some b \<Rightarrow> x\<lparr>eg_partial := True, eg_section := be_section b, eg_entry := be_entry b\<rparr>
         | None \<Rightarrow> x\<lparr>eg_partial := False\<rparr>) s)"

function es_next_loop ::
  "event_env \<Rightarrow> event_stream \<Rightarrow> source_record list \<Rightarrow> (bson_obj option \<times> event_stream \<times> source_record list) result" where
  "es_next_loop env s rs =
     (if es_invalidated s then Inr (None, s, rs)
      else case es_pendingInvalidate s of
        Some ivd \<Rightarrow>
          (case getField ivd (bstr ''_id'') of
             Some (BObject tok) \<Rightarrow>
               Inr (Some ivd, s\<lparr>es_pendingInvalidate := None, es_invalidateToken := tok, es_invalidated := True\<rparr>, rs)
           | _ \<Rightarrow> Inl UndefinedBehaviour)
      | None \<Rightarrow> (case es_current s of
          Some c \<Rightarrow>
            rbind (produce_next c s) (\<lambda>(found, c1, s1). case found of
                Some e \<Rightarrow>
                  let s2 = move_cursor c1 (Some e) s1 in
                  rbind (es_event env s2 c1 e) (\<lambda>event. Inr (Some event, s2\<lparr>es_current := Some c1\<rparr>, rs))
              | None \<Rightarrow> es_next_loop env ((move_cursor c1 None s1)\<lparr>es_current := None\<rparr>) rs)
        | None \<Rightarrow> (case rs of
            [] \<Rightarrow> Inr (None, s, [])
          | rec # rest \<Rightarrow>
              rbind (es_begin env rec s) (\<lambda>(event, s1). case event of
                  Some ev \<Rightarrow> Inr (Some ev, s1, rest)
                | None \<Rightarrow> es_next_loop env s1 rest))))"
  by pat_completeness auto
termination
  by (relation "measure (\<lambda>(env, s, rs). 2 * length rs + (if es_current s = None then 0 else 1))") auto

declare es_next_loop.simps [simp del]

definition publishStats :: "scan_source \<Rightarrow> int \<Rightarrow> bson_obj option \<Rightarrow> event_stream \<Rightarrow> event_stream" where
  "publishStats src now event s =
     (let bound = emitBound src; st = es_stats s;
          through = (case event of
             Some ev \<Rightarrow> (case getField ev (bstr ''clusterTime'') of
                 Some (BTimestamp t) \<Rightarrow> ucast (ucast (drop_bit 32 t) :: u32) * 1000000 + ucast (ucast t :: u32)
               | _ \<Rightarrow> st_producedThrough st)
           | None \<Rightarrow> if ss_drained src then bound else st_producedThrough st)
      in s\<lparr>es_stats := \<lparr>st_emitBound = bound, st_producedThrough = through,
             st_dedupOverflows = es_dedupOverflows s, st_lastPullMillis = now\<rparr>\<rparr>)"

text \<open>\<open>src\<close> is the source after the records were released, \<open>now\<close> the clock.\<close>

definition es_next ::
  "event_env \<Rightarrow> scan_source \<Rightarrow> int \<Rightarrow> event_stream \<Rightarrow> source_record list \<Rightarrow>
     (bson_obj option \<times> event_stream \<times> source_record list) result" where
  "es_next env src now s rs =
     rbind (rguard (es_openingToken s \<noteq> []) InvariantFailure) (\<lambda>_.
     rbind (es_next_loop env s rs) (\<lambda>(event, s1, rest). Inr (event, publishStats src now event s1, rest)))"

section \<open>Opening\<close>

text \<open>\<open>start\<close> is what \<open>fixStart\<close> returned before the deadline.\<close>

definition openFresh :: "u64 option \<Rightarrow> event_stream \<Rightarrow> (bool \<times> event_stream) result" where
  "openFresh start s =
     rbind (rguard (es_openingToken s = []) InvariantFailure) (\<lambda>_. case start of
         None \<Rightarrow> Inr (False, s)
       | Some ts \<Rightarrow> rbind (toBSON (makeWatermark ts [])) (\<lambda>tok. Inr (True, s\<lparr>es_openingToken := tok\<rparr>)))"

text \<open>\<open>emplace\<close> keeps an entry the map already has.\<close>

fun own_drop_keys :: "u64 \<Rightarrow> token_entry list \<Rightarrow> (u32 \<times> bytes) list" where
  "own_drop_keys ts [] = []"
| "own_drop_keys ts (e # es) =
     (let m = own_drop_keys ts es in
      if te_form e = kAfterKey \<and> keyTimestamp (te_ddlKey e) = ts then om_put (te_logGroupId e) (te_ddlKey e) m else m)"

definition resume_group :: "token_entry \<Rightarrow> stream_group \<Rightarrow> stream_group" where
  "resume_group e x =
     (let dataTs = keyTimestamp (te_dataKey e); ddlTs = keyTimestamp (te_ddlKey e); ts = max dataTs ddlTs;
          partial = (te_form e = kAtKeyAfterPosition)
      in x\<lparr>eg_hasCursor := True, eg_dataKey := te_dataKey e, eg_ddlKey := te_ddlKey e, eg_partial := partial,
           eg_section := te_section e, eg_entry := te_entry e,
           eg_skip := Some \<lparr>sk_ts = ts, sk_dataKey = te_dataKey e, sk_ddlKey = te_ddlKey e, sk_dataAtTs = (dataTs = ts),
             sk_ddlAtTs = (ddlTs = ts), sk_atPosition = partial, sk_section = te_section e, sk_entry = te_entry e\<rparr>\<rparr>)"

definition open_group ::
  "resume_token \<Rightarrow> u64 \<Rightarrow> u32 \<Rightarrow> event_stream \<times> scan_source \<Rightarrow> (event_stream \<times> scan_source) result" where
  "open_group token absentStart g st =
     (let entry = entryFor token g;
          dataTs = (case entry of Some e \<Rightarrow> keyTimestamp (te_dataKey e) | None \<Rightarrow> 0);
          ddlTs = (case entry of Some e \<Rightarrow> keyTimestamp (te_ddlKey e) | None \<Rightarrow> 0)
      in if max dataTs ddlTs < absentStart
         then rbind (startAt g absentStart (snd st)) (\<lambda>src. Inr (fst st, src))
         else case entry of
             None \<Rightarrow> Inl UndefinedBehaviour
           | Some e \<Rightarrow>
               rbind (startAt g (max dataTs ddlTs) (snd st)) (\<lambda>src.
                 Inr (put_group g (resume_group e (group_of (fst st) g)) (fst st), src)))"

fun open_groups ::
  "resume_token \<Rightarrow> u64 \<Rightarrow> u32 list \<Rightarrow> event_stream \<times> scan_source \<Rightarrow> (event_stream \<times> scan_source) result" where
  "open_groups token absentStart [] st = Inr st"
| "open_groups token absentStart (g # gs) st =
     rbind (open_group token absentStart g st) (open_groups token absentStart gs)"

definition openAt :: "resume_token \<Rightarrow> event_stream \<times> scan_source \<Rightarrow> (event_stream \<times> scan_source) result" where
  "openAt token st =
     rbind (rguard (es_openingToken (fst st) = []) InvariantFailure) (\<lambda>_.
     rbind (startTimestampForAbsentGroup token) (\<lambda>absentStart.
     let own = (if rt_kind token = kEvent then own_drop_keys (rt_timestamp token) (rt_entries token) else []);
         s = (fst st)\<lparr>es_ownDropKeys := own, es_resumedFrom := (if own \<noteq> [] then Some token else None)\<rparr>
     in rbind (open_groups token absentStart (map sg_id (ss_groups (snd st))) (s, snd st)) (\<lambda>(s1, src).
        rbind (toBSON token) (\<lambda>tok. Inr (s1\<lparr>es_openingToken := tok\<rparr>, src)))))"

end
