(* ===== verification/Event_Sim.thy ===== *)
theory Event_Sim
  imports Event_Stream
begin

text \<open>
  When two event streams report the same changes. \<open>stream_sim T\<close> relates two streams that have the
  same changes left to report of the records at or after timestamp \<open>T\<close>, however they got there: the
  same record in progress at the same change, the same changes remembered for the dedup of later
  ones, and the same positions at or after \<open>T\<close>. Related streams given the same records stay related
  and return the same changes; their tokens may differ in positions before \<open>T\<close> only.
\<close>

section \<open>State updates\<close>

lemma group_of_put [simp]: "group_of (put_group g x s) h = (if h = g then x else group_of s h)"
  by (simp add: group_of_def put_group_def)

lemma put_group_fields [simp]:
  "es_scope (put_group g x s) = es_scope s" "es_dedupSetBytes (put_group g x s) = es_dedupSetBytes s"
  "es_current (put_group g x s) = es_current s" "es_openingToken (put_group g x s) = es_openingToken s"
  "es_ownDropKeys (put_group g x s) = es_ownDropKeys s" "es_resumedFrom (put_group g x s) = es_resumedFrom s"
  "es_pendingInvalidate (put_group g x s) = es_pendingInvalidate s" "es_invalidated (put_group g x s) = es_invalidated s"
  "es_groups (put_group g x s) = om_put g x (es_groups s)"
  by (simp_all add: put_group_def)

lemma group_of_update [simp]:
  "group_of (s\<lparr>es_current := c\<rparr>) = group_of s" "group_of (s\<lparr>es_duplicatesSuppressed := n\<rparr>) = group_of s"
  "group_of (s\<lparr>es_dedupOverflows := n\<rparr>) = group_of s" "group_of (s\<lparr>es_pendingInvalidate := p\<rparr>) = group_of s"
  "group_of (s\<lparr>es_ownDropKeys := m\<rparr>) = group_of s" "group_of (s\<lparr>es_invalidated := b\<rparr>) = group_of s"
  "group_of (s\<lparr>es_invalidateToken := t\<rparr>) = group_of s" "group_of (s\<lparr>es_stats := st\<rparr>) = group_of s"
  "group_of (s\<lparr>es_resumedFrom := r\<rparr>) = group_of s" "group_of (s\<lparr>es_openingToken := o1\<rparr>) = group_of s"
  by (simp_all add: group_of_def fun_eq_iff)

lemma keyTimestamp_Nil [simp]: "keyTimestamp [] = 0"
  by (simp add: keyTimestamp_def)

lemma keyTimestamp_be: "keyTimestamp (be_bytes_n 8 ts @ r) = (ts :: u64)"
  using be_word_be_bytes_n [of 8 ts]
  by (simp add: keyTimestamp_def take_bit_word_eq_self flip: be_word_def del: be_bytes_n_numeral)

lemma keyTimestamp_dataKey [simp]: "keyTimestamp (dataKey r) = dr_commit_ts r"
  unfolding dataKey_def by (rule keyTimestamp_be)

lemma keyTimestamp_ddlKey [simp]: "keyTimestamp (ddlKey r) = dd_ddl_ts r"
  unfolding ddlKey_def by (rule keyTimestamp_be)

lemma length_dataKey: "length (dataKey r) = 20"
  by (simp add: dataKey_def)

lemma length_ddlKey: "length (ddlKey d) = 16"
  by (simp add: ddlKey_def)

section \<open>Positions along a blob\<close>

definition dec_ok :: "blob_decoder \<Rightarrow> bool" where
  "dec_ok d \<longleftrightarrow> unat (bd_sectionsSeen d) + length (bd_rest d) < 2 ^ 32 \<and>
     unat (bd_entryOrdinal d) + length (bd_sectionRest d) < 2 ^ 32 \<and>
     (bd_sectionRest d \<noteq> [] \<longrightarrow> bd_currentSection d < bd_sectionsSeen d)"

text \<open>Every entry still to come lies after the position \<open>(sec, n)\<close>.\<close>

definition dec_past :: "blob_decoder \<Rightarrow> u32 \<Rightarrow> u32 \<Rightarrow> bool" where
  "dec_past d sec n \<longleftrightarrow> sec < bd_sectionsSeen d \<and>
     (bd_sectionRest d \<noteq> [] \<longrightarrow> sec < bd_currentSection d \<or> sec = bd_currentSection d \<and> n < bd_entryOrdinal d)"

lemma word_succ_less: "unat (w :: u32) + 1 < 2 ^ 32 \<Longrightarrow> w < w + 1 \<and> unat (w + 1) = unat w + 1"
proof -
  assume "unat w + 1 < 2 ^ 32"
  then have "w \<noteq> -1" by (intro less_max_not_max) simp
  then show ?thesis using unat_succ [of w] by (simp add: word_less_nat_alt)
qed

lemma blob_next_positions:
  assumes "blob_next d = Inr (Some (e, d'))" "dec_ok d"
  shows "dec_ok d' \<and> dec_past d' (be_section e) (be_entry e) \<and>
    (\<forall>sec n. dec_past d sec n \<longrightarrow> sec < be_section e \<or> sec = be_section e \<and> n < be_entry e)"
  using assms
proof (induction "length (bd_rest d)" arbitrary: d rule: less_induct)
  case less
  show ?case
  proof (cases "bd_sectionRest d = []")
    case False
    then obtain x rest where x: "read_entry (bd_sectionRest d) = Inr (x, rest)"
      and e: "be_section e = bd_currentSection d" "be_entry e = bd_entryOrdinal d"
      and d': "d' = d\<lparr>bd_sectionRest := rest, bd_entryOrdinal := bd_entryOrdinal d + 1\<rparr>"
      using less.prems(1) by (auto simp: blob_next_def seek_entry.simps [of d])
    have "unat (bd_entryOrdinal d) + 1 < 2 ^ 32" using less.prems(2) False by (cases "bd_sectionRest d") (auto simp: dec_ok_def)
    then show ?thesis
      using word_succ_less [of "bd_entryOrdinal d"] read_entry_shrinks [OF x] less.prems(2) False e
      by (auto simp: d' dec_ok_def dec_past_def)
  next
    case True
    then have rest: "bd_rest d \<noteq> []"
      using less.prems(1) by (auto simp: blob_next_def seek_entry.simps [of d])
    obtain s r where s: "read_section (bd_rest d) = Inr (s, r)"
      using less.prems(1) by (auto simp: blob_next_section [OF True rest])
    let ?d1 = "if section_in_scope (bd_scope d) s
       then d\<lparr>bd_rest := r, bd_sectionsSeen := bd_sectionsSeen d + 1, bd_sectionNs := bs_name s,
              bd_sectionRest := bs_entries s, bd_entryOrdinal := 0, bd_currentSection := bd_sectionsSeen d\<rparr>
       else d\<lparr>bd_rest := r, bd_sectionsSeen := bd_sectionsSeen d + 1\<rparr>"
    have next1: "blob_next ?d1 = Inr (Some (e, d'))"
      using less.prems(1) s by (simp add: blob_next_section [OF True rest])
    have len: "length r < length (bd_rest d)" "length (bs_entries s) \<le> length (bd_rest d)"
      using read_section_shrinks [OF s] s
      by (auto simp: read_section_def readNative_def readBytes_def dest!: read_le_sounds read_exact_sound)
    have seen: "bd_sectionsSeen d < bd_sectionsSeen d + 1" "unat (bd_sectionsSeen d + 1) = unat (bd_sectionsSeen d) + 1"
      using word_succ_less [of "bd_sectionsSeen d"] less.prems(2) rest by (cases "bd_rest d"; simp add: dec_ok_def)+
    have "dec_ok ?d1" using less.prems(2) len seen True by (auto simp: dec_ok_def)
    moreover have "dec_past ?d1 sec n" if "dec_past d sec n" for sec n
      using that seen True by (auto simp: dec_past_def)
    ultimately show ?thesis using less.hyps [of ?d1, OF _ next1] len(1) by auto
  qed
qed

section \<open>The relation\<close>

abbreviation rel_result :: "('a \<Rightarrow> 'b \<Rightarrow> bool) \<Rightarrow> 'a result \<Rightarrow> 'b result \<Rightarrow> bool" where
  "rel_result R \<equiv> rel_sum (=) R"

lemma rel_rbind:
  "rel_result R a b \<Longrightarrow> (\<And>x y. R x y \<Longrightarrow> rel_result S (f x) (g y)) \<Longrightarrow> rel_result S (rbind a f) (rbind b g)"
  by (auto elim!: rel_sum.cases)

lemma rel_rbind_same:
  "(\<And>x. a = Inr x \<Longrightarrow> rel_result S (f x) (g x)) \<Longrightarrow> rel_result S (rbind a f) (rbind a g)"
  by (cases a) auto

definition dedup_view :: "u64 \<Rightarrow> stream_group \<Rightarrow> bytes set \<times> int" where
  "dedup_view ts x = (if eg_dedupTs x = ts then (eg_dedup x, eg_dedupBytes x) else ({}, 0))"

lemma dedup_view_update [simp]:
  "dedup_view ts (x\<lparr>eg_hasCursor := b\<rparr>) = dedup_view ts x" "dedup_view ts (x\<lparr>eg_dataKey := k\<rparr>) = dedup_view ts x"
  "dedup_view ts (x\<lparr>eg_ddlKey := k\<rparr>) = dedup_view ts x" "dedup_view ts (x\<lparr>eg_partial := b\<rparr>) = dedup_view ts x"
  "dedup_view ts (x\<lparr>eg_section := n\<rparr>) = dedup_view ts x" "dedup_view ts (x\<lparr>eg_entry := n\<rparr>) = dedup_view ts x"
  "dedup_view ts (x\<lparr>eg_skip := sk\<rparr>) = dedup_view ts x"
  by (simp_all add: dedup_view_def)

definition key_view :: "u64 \<Rightarrow> bytes \<Rightarrow> bytes option" where
  "key_view T key = (if keyTimestamp key < T then None else Some key)"

definition group_sim :: "u64 \<Rightarrow> stream_group \<Rightarrow> stream_group \<Rightarrow> bool" where
  "group_sim T x y \<longleftrightarrow> (\<forall>ts \<ge> T. dedup_view ts x = dedup_view ts y) \<and>
     key_view T (eg_dataKey x) = key_view T (eg_dataKey y) \<and> key_view T (eg_ddlKey x) = key_view T (eg_ddlKey y) \<and>
     (key_view T (eg_dataKey x) \<noteq> None \<or> key_view T (eg_ddlKey x) \<noteq> None \<longrightarrow> eg_hasCursor x \<and> eg_hasCursor y) \<and>
     eg_partial x = eg_partial y \<and> (eg_partial x \<longrightarrow> eg_section x = eg_section y \<and> eg_entry x = eg_entry y)"

text \<open>A position to consume through that lies behind the decoder has no effect.\<close>

definition through_past :: "current_record \<Rightarrow> bool" where
  "through_past c = (case ec_consumeThrough c of None \<Rightarrow> True | Some (sec, n) \<Rightarrow> dec_past (ec_decoder c) sec n)"

definition current_sim :: "u64 \<Rightarrow> current_record \<Rightarrow> current_record \<Rightarrow> bool" where
  "current_sim T c c' \<longleftrightarrow> ec_group c' = ec_group c \<and> ec_key c' = ec_key c \<and> ec_ts c' = ec_ts c \<and> ec_txn c' = ec_txn c \<and>
     ec_decoder c' = ec_decoder c \<and> dec_ok (ec_decoder c) \<and> through_past c \<and> through_past c' \<and>
     T \<le> ec_ts c \<and> keyTimestamp (ec_key c) = ec_ts c \<and> length (ec_key c) \<le> 65535"

text \<open>What an event says of its change, without its token and without the document, which the size
  of the token may leave out.\<close>

definition change_of :: "bson_obj \<Rightarrow> bson_obj" where
  "change_of event = filter (\<lambda>(n, _). n \<noteq> bstr ''_id'' \<and> n \<noteq> bstr ''fullDocument'' \<and> n \<noteq> bstr ''fullDocumentOmitted'') event"

definition has_token :: "bson_obj \<Rightarrow> bool" where
  "has_token event \<longleftrightarrow> (\<exists>tok. getField event (bstr ''_id'') = Some (BObject tok))"

definition event_sim :: "bson_obj \<Rightarrow> bson_obj \<Rightarrow> bool" where
  "event_sim a b \<longleftrightarrow> change_of a = change_of b \<and> has_token a \<and> has_token b"

definition groups_ok :: "event_stream \<Rightarrow> bool" where
  "groups_ok s \<longleftrightarrow> om_inv (es_groups s) \<and>
     (\<forall>g. length (eg_dataKey (group_of s g)) \<le> 65535 \<and> length (eg_ddlKey (group_of s g)) \<le> 65535)"

definition stream_sim :: "u64 \<Rightarrow> event_stream \<Rightarrow> event_stream \<Rightarrow> bool" where
  "stream_sim T s s' \<longleftrightarrow> 0 < T \<and> es_scope s' = es_scope s \<and> es_dedupSetBytes s' = es_dedupSetBytes s \<and>
     es_invalidated s' = es_invalidated s \<and> rel_option event_sim (es_pendingInvalidate s) (es_pendingInvalidate s') \<and>
     rel_option (current_sim T) (es_current s) (es_current s') \<and>
     (\<forall>g. group_sim T (group_of s g) (group_of s' g)) \<and> groups_ok s \<and> groups_ok s'"

lemma stream_simD:
  assumes "stream_sim T s s'"
  shows "0 < T" "es_scope s' = es_scope s" "es_dedupSetBytes s' = es_dedupSetBytes s" "es_invalidated s' = es_invalidated s"
    "rel_option event_sim (es_pendingInvalidate s) (es_pendingInvalidate s')"
    "rel_option (current_sim T) (es_current s) (es_current s')"
    "group_sim T (group_of s g) (group_of s' g)" "groups_ok s" "groups_ok s'"
  using assms by (simp_all add: stream_sim_def)

lemma key_view_mono: "T \<le> T' \<Longrightarrow> key_view T a = key_view T b \<Longrightarrow> key_view T' a = key_view T' b"
  by (auto simp: key_view_def split: if_splits)

lemma key_view_some: "T \<le> T' \<Longrightarrow> key_view T' a \<noteq> None \<Longrightarrow> key_view T a \<noteq> None"
  by (auto simp: key_view_def split: if_splits)

lemma group_sim_mono: "T \<le> T' \<Longrightarrow> group_sim T x y \<Longrightarrow> group_sim T' x y"
  unfolding group_sim_def by (meson key_view_mono key_view_some order_trans)

lemma stream_sim_mono:
  assumes "stream_sim T s s'" "T \<le> T'" "es_current s = None"
  shows "stream_sim T' s s'"
  using assms group_sim_mono [OF assms(2)] by (auto simp: stream_sim_def)

section \<open>Duplicates\<close>

definition view_seen :: "int \<Rightarrow> bytes \<Rightarrow> bytes set \<times> int \<Rightarrow> bool \<times> bool \<times> bytes set \<times> int" where
  "view_seen limit key v =
     (let n = int (length key) + 32 in
      if key \<in> fst v then (True, False, v)
      else if snd v + n > limit then (False, True, v)
      else (False, False, insert key (fst v), snd v + n))"

definition same_cursor :: "stream_group \<Rightarrow> stream_group \<Rightarrow> bool" where
  "same_cursor x y \<longleftrightarrow> eg_hasCursor y = eg_hasCursor x \<and> eg_dataKey y = eg_dataKey x \<and> eg_ddlKey y = eg_ddlKey x \<and>
     eg_partial y = eg_partial x \<and> eg_section y = eg_section x \<and> eg_entry y = eg_entry x \<and> eg_skip y = eg_skip x"

lemma group_seen_view:
  assumes "group_seen limit ts key x = (dup, overflow, y)"
  shows "view_seen limit key (dedup_view ts x) = (dup, overflow, dedup_view ts y)"
    and "eg_dedupTs y = ts" and "same_cursor x y"
  using assms by (auto simp: group_seen_def view_seen_def dedup_view_def same_cursor_def Let_def split: if_splits)

text \<open>What \<open>_seen\<close> does to a stream, through the view of its group.\<close>

lemma es_seen_view:
  "fst (es_seen g ts key s) = fst (view_seen (es_dedupSetBytes s) key (dedup_view ts (group_of s g)))"
  "dedup_view ts (group_of (snd (es_seen g ts key s)) g) =
     snd (snd (view_seen (es_dedupSetBytes s) key (dedup_view ts (group_of s g))))"
  "eg_dedupTs (group_of (snd (es_seen g ts key s)) g) = ts"
  "h \<noteq> g \<Longrightarrow> group_of (snd (es_seen g ts key s)) h = group_of s h"
  "same_cursor (group_of s h) (group_of (snd (es_seen g ts key s)) h)"
proof -
  obtain dup ovf y where y: "group_seen (es_dedupSetBytes s) ts key (group_of s g) = (dup, ovf, y)"
    by (metis prod_cases3)
  note v = group_seen_view [OF y]
  show "fst (es_seen g ts key s) = fst (view_seen (es_dedupSetBytes s) key (dedup_view ts (group_of s g)))"
    "dedup_view ts (group_of (snd (es_seen g ts key s)) g) =
       snd (snd (view_seen (es_dedupSetBytes s) key (dedup_view ts (group_of s g))))"
    "eg_dedupTs (group_of (snd (es_seen g ts key s)) g) = ts"
    "h \<noteq> g \<Longrightarrow> group_of (snd (es_seen g ts key s)) h = group_of s h"
    "same_cursor (group_of s h) (group_of (snd (es_seen g ts key s)) h)"
    using v by (auto simp: es_seen_def y Let_def) (simp_all add: same_cursor_def)
qed

lemma es_seen_fields [simp]:
  "es_scope (snd (es_seen g ts key s)) = es_scope s" "es_dedupSetBytes (snd (es_seen g ts key s)) = es_dedupSetBytes s"
  "es_current (snd (es_seen g ts key s)) = es_current s" "es_ownDropKeys (snd (es_seen g ts key s)) = es_ownDropKeys s"
  "es_resumedFrom (snd (es_seen g ts key s)) = es_resumedFrom s"
  "es_openingToken (snd (es_seen g ts key s)) = es_openingToken s"
  "es_pendingInvalidate (snd (es_seen g ts key s)) = es_pendingInvalidate s"
  "es_invalidated (snd (es_seen g ts key s)) = es_invalidated s"
  by (simp_all add: es_seen_def Let_def split: prod.splits)

lemma es_seen_om_inv: "om_inv (es_groups s) \<Longrightarrow> om_inv (es_groups (snd (es_seen g ts key s)))"
  by (simp add: es_seen_def Let_def om_inv_om_put split: prod.splits)

lemma es_seen_groups_ok: "groups_ok s \<Longrightarrow> groups_ok (snd (es_seen g ts key s))"
  using es_seen_view(5) [of s _ g ts key] by (auto simp: groups_ok_def es_seen_om_inv same_cursor_def)

lemma group_sim_cursor:
  "group_sim T x y \<Longrightarrow> same_cursor x x' \<Longrightarrow> same_cursor y y' \<Longrightarrow> (\<forall>ts \<ge> T. dedup_view ts x' = dedup_view ts y') \<Longrightarrow>
     group_sim T x' y'"
  unfolding group_sim_def same_cursor_def by simp

lemma es_seen_sim:
  assumes "stream_sim T s s'" "T \<le> ts"
  shows "fst (es_seen g ts key s') = fst (es_seen g ts key s)"
    and "stream_sim T (snd (es_seen g ts key s)) (snd (es_seen g ts key s'))"
proof -
  note sim = stream_simD [OF assms(1)]
  have view: "dedup_view ts (group_of s g) = dedup_view ts (group_of s' g)"
    using sim(7) [of g] assms(2) by (simp add: group_sim_def)
  then show "fst (es_seen g ts key s') = fst (es_seen g ts key s)"
    using sim(3) by (simp add: es_seen_view(1))
  have "dedup_view t (group_of (snd (es_seen g ts key s)) g) = dedup_view t (group_of (snd (es_seen g ts key s')) g)" for t
    using es_seen_view(2) [of ts g key s] es_seen_view(2) [of ts g key s'] es_seen_view(3) [of g ts key] view sim(3)
    by (cases "t = ts") (auto simp: dedup_view_def)
  then have "group_sim T (group_of (snd (es_seen g ts key s)) h) (group_of (snd (es_seen g ts key s')) h)" for h
    using group_sim_cursor [OF sim(7) es_seen_view(5) es_seen_view(5), of h] sim(7) [of h]
    by (cases "h = g") (auto simp: es_seen_view(4))
  then show "stream_sim T (snd (es_seen g ts key s)) (snd (es_seen g ts key s'))"
    using sim by (simp add: stream_sim_def es_seen_groups_ok)
qed

section \<open>The record in progress\<close>

lemma dec_past_trans:
  "dec_past d m k \<Longrightarrow> sec < m \<or> sec = m \<and> n < k \<Longrightarrow> dec_past d sec n"
  by (auto simp: dec_past_def)

lemma through_past_next:
  assumes "blob_next (ec_decoder c) = Inr (Some (e, d))" "dec_ok (ec_decoder c)" "through_past c"
  shows "\<not> consumed_through c e \<and> through_past (c\<lparr>ec_decoder := d\<rparr>)"
proof (cases "ec_consumeThrough c")
  case (Some p)
  obtain sec n where p: "p = (sec, n)" by (cases p)
  have "dec_past (ec_decoder c) sec n" using assms(3) Some p by (simp add: through_past_def)
  then have less: "sec < be_section e \<or> sec = be_section e \<and> n < be_entry e"
    and "dec_past d (be_section e) (be_entry e)"
    using blob_next_positions [OF assms(1,2)] by auto
  then have "dec_past d sec n" using dec_past_trans by blast
  then show ?thesis using Some p less by (auto simp: consumed_through_def through_past_def pos_le_def)
qed (simp add: consumed_through_def through_past_def)

lemma current_sim_next:
  assumes "current_sim T c c'" "blob_next (ec_decoder c) = Inr (Some (e, d))"
  shows "current_sim T (c\<lparr>ec_decoder := d\<rparr>) (c'\<lparr>ec_decoder := d\<rparr>)" "\<not> consumed_through c e" "\<not> consumed_through c' e"
proof -
  have *: "dec_ok (ec_decoder c)" "through_past c" "through_past c'" "ec_decoder c' = ec_decoder c"
    using assms(1) by (auto simp: current_sim_def)
  then show "\<not> consumed_through c e" "\<not> consumed_through c' e"
    "current_sim T (c\<lparr>ec_decoder := d\<rparr>) (c'\<lparr>ec_decoder := d\<rparr>)"
    using through_past_next [of c e d] through_past_next [of c' e d] blob_next_positions [OF assms(2)] assms
    by (auto simp: current_sim_def)
qed

lemma stream_sim_update [simp]:
  "stream_sim T (s\<lparr>es_duplicatesSuppressed := n\<rparr>) s' \<longleftrightarrow> stream_sim T s s'"
  "stream_sim T s (s'\<lparr>es_duplicatesSuppressed := n\<rparr>) \<longleftrightarrow> stream_sim T s s'"
  by (simp_all add: stream_sim_def groups_ok_def)

definition produced_sim ::
  "u64 \<Rightarrow> blob_entry option \<times> current_record \<times> event_stream \<Rightarrow> blob_entry option \<times> current_record \<times> event_stream \<Rightarrow> bool" where
  "produced_sim T a b \<longleftrightarrow> fst a = fst b \<and> current_sim T (fst (snd a)) (fst (snd b)) \<and> stream_sim T (snd (snd a)) (snd (snd b))"

lemma produce_next_sim:
  assumes "current_sim T c c'" "stream_sim T s s'"
  shows "rel_result (produced_sim T) (produce_next c s) (produce_next c' s')"
  using assms
proof (induction c s arbitrary: c' s' rule: produce_next.induct)
  case (1 c s)
  have eqs: "ec_decoder c' = ec_decoder c" "ec_group c' = ec_group c" "ec_ts c' = ec_ts c" "ec_txn c' = ec_txn c" "T \<le> ec_ts c"
    using "1.prems"(1) by (auto simp: current_sim_def)
  show ?case
  proof (cases "blob_next (ec_decoder c)")
    case (Inl e)
    then show ?thesis by (simp add: produce_next.simps [of c s] produce_next.simps [of c' s'] eqs)
  next
    case (Inr found)
    show ?thesis
    proof (cases found)
      case None
      then show ?thesis
        using Inr "1.prems" by (simp add: produce_next.simps [of c s] produce_next.simps [of c' s'] eqs produced_sim_def)
    next
      case (Some ed)
      obtain e d where ed: "ed = (e, d)" by (cases ed)
      note next1 = Inr [unfolded Some ed]
      note cur = current_sim_next [OF "1.prems"(1) next1]
      let ?seen = "es_seen (ec_group c) (ec_ts c) (dedupKey (ec_txn c) e)"
      note seen = es_seen_sim [OF "1.prems"(2) eqs(5), of "ec_group c" "dedupKey (ec_txn c) e"]
      show ?thesis
      proof (cases "fst (?seen s)")
        case True
        have "rel_result (produced_sim T)
            (produce_next (c\<lparr>ec_decoder := d\<rparr>)
              ((snd (?seen s))\<lparr>es_duplicatesSuppressed := es_duplicatesSuppressed (snd (?seen s)) + 1\<rparr>))
            (produce_next (c'\<lparr>ec_decoder := d\<rparr>)
              ((snd (?seen s'))\<lparr>es_duplicatesSuppressed := es_duplicatesSuppressed (snd (?seen s')) + 1\<rparr>))"
          by (rule "1.IH"(2) [OF next1 _ _ _ _ cur(2) True cur(1)]) (use seen(2) in simp_all)
        then show ?thesis
          using next1 cur(2,3) seen(1) True
          by (simp add: produce_next.simps [of c s] produce_next.simps [of c' s'] eqs Let_def)
      next
        case False
        then show ?thesis
          using next1 cur seen
          by (simp add: produce_next.simps [of c s] produce_next.simps [of c' s'] eqs Let_def produced_sim_def)
      qed
    qed
  qed
qed

section \<open>Cursors and tokens\<close>

lemma groups_ok_put:
  "groups_ok s \<Longrightarrow> length (eg_dataKey x) \<le> 65535 \<Longrightarrow> length (eg_ddlKey x) \<le> 65535 \<Longrightarrow> groups_ok (put_group g x s)"
  by (simp add: groups_ok_def om_inv_om_put)

lemma groups_ok_keys: "groups_ok s \<Longrightarrow> length (eg_dataKey (group_of s g)) \<le> 65535 \<and> length (eg_ddlKey (group_of s g)) \<le> 65535"
  by (simp add: groups_ok_def)

lemma stream_sim_put:
  assumes "stream_sim T s s'" "group_sim T x y"
    and "length (eg_dataKey x) \<le> 65535" "length (eg_ddlKey x) \<le> 65535"
    and "length (eg_dataKey y) \<le> 65535" "length (eg_ddlKey y) \<le> 65535"
  shows "stream_sim T (put_group g x s) (put_group g y s')"
  using assms by (auto simp: stream_sim_def groups_ok_put)

lemma move_cursor_sim:
  assumes "current_sim T c c'" "stream_sim T s s'"
  shows "stream_sim T (move_cursor c e s) (move_cursor c' e s')"
proof -
  let ?g = "ec_group c"
  have c: "ec_group c' = ?g" "ec_key c' = ec_key c" "T \<le> ec_ts c" "keyTimestamp (ec_key c) = ec_ts c" "length (ec_key c) \<le> 65535"
    using assms(1) by (auto simp: current_sim_def)
  note sim = stream_simD [OF assms(2)]
  have view: "key_view T (ec_key c) = Some (ec_key c)" using c(3,4) by (simp add: key_view_def not_less)
  have keys: "length (eg_ddlKey (group_of s ?g)) \<le> 65535" "length (eg_ddlKey (group_of s' ?g)) \<le> 65535"
    using groups_ok_keys [OF sim(8)] groups_ok_keys [OF sim(9)] by simp_all
  show ?thesis
    unfolding move_cursor_def Let_def c(1,2)
    by (rule stream_sim_put [OF assms(2)]; cases e)
      (use sim(7) [of ?g] view c(5) keys in \<open>simp_all add: group_sim_def\<close>)
qed

lemma move_cursor_fields [simp]:
  "es_scope (move_cursor c e s) = es_scope s" "es_dedupSetBytes (move_cursor c e s) = es_dedupSetBytes s"
  "es_current (move_cursor c e s) = es_current s" "es_pendingInvalidate (move_cursor c e s) = es_pendingInvalidate s"
  "es_invalidated (move_cursor c e s) = es_invalidated s" "es_ownDropKeys (move_cursor c e s) = es_ownDropKeys s"
  "es_resumedFrom (move_cursor c e s) = es_resumedFrom s" "es_openingToken (move_cursor c e s) = es_openingToken s"
  by (simp_all add: move_cursor_def Let_def)

lemma word_le_minus_one: "0 < T \<Longrightarrow> a \<le> T - 1 \<longleftrightarrow> a < (T :: u64)"
proof -
  assume "0 < T"
  then have "unat (T - 1) = unat T - 1" "0 < unat T"
    by (simp_all add: unat_minus_one word_gt_0 unat_gt_0)
  then show ?thesis by (auto simp: word_le_nat_alt word_less_nat_alt)
qed

lemma cursor_beyond_iff:
  "0 < T \<Longrightarrow> cursor_beyond (T - 1) x \<longleftrightarrow>
     eg_hasCursor x \<and> (key_view T (eg_dataKey x) \<noteq> None \<or> key_view T (eg_ddlKey x) \<noteq> None)"
  by (auto simp: cursor_beyond_def key_view_def word_le_minus_one max_def)

lemma cursor_beyond_sim: "0 < T \<Longrightarrow> group_sim T x y \<Longrightarrow> cursor_beyond (T - 1) x = cursor_beyond (T - 1) y"
  by (auto simp: cursor_beyond_iff group_sim_def)

lemma group_of_mem: "om_inv (es_groups s) \<Longrightarrow> (g, x) \<in> set (es_groups s) \<Longrightarrow> group_of s g = x"
  by (simp add: group_of_def map_of_om_inv)

lemma entries_ids:
  assumes "om_inv (es_groups s)"
  shows "map te_logGroupId (es_entries s cov) = sorted_list_of_set {g. cursor_beyond cov (group_of s g)}"
proof -
  let ?xs = "filter (\<lambda>(g, x). cursor_beyond cov x) (es_groups s)"
  have ids: "map te_logGroupId (es_entries s cov) = map fst ?xs"
    by (auto simp: es_entries_def entry_of_group_def)
  have "sorted_wrt (<) (map fst ?xs)"
    using assms unfolding om_inv_def sorted_wrt_map by (rule sorted_wrt_filter)
  moreover have "set (map fst ?xs) = {g. cursor_beyond cov (group_of s g)}"
  proof -
    have "g \<in> fst ` set (es_groups s)" if "cursor_beyond cov (group_of s g)" for g
    proof (rule ccontr)
      assume "g \<notin> fst ` set (es_groups s)"
      then have "map_of (es_groups s) g = None" by (simp add: map_of_eq_None_iff)
      then show False using that by (simp add: group_of_def new_group_def cursor_beyond_def)
    qed
    then show ?thesis using group_of_mem [OF assms] by (auto simp: image_iff) force
  qed
  ultimately show ?thesis
    unfolding ids by (metis (no_types, lifting) List.finite_set sorted_list_of_set.idem_if_sorted_distinct strict_sorted_iff)
qed

lemma entries_length_sim:
  assumes "stream_sim T s s'" "T \<le> ts"
  shows "length (es_entries s (ts - 1)) = length (es_entries s' (ts - 1))"
proof -
  note sim = stream_simD [OF assms(1)]
  have "0 < ts" using sim(1) assms(2) by simp
  then have "cursor_beyond (ts - 1) (group_of s g) = cursor_beyond (ts - 1) (group_of s' g)" for g
    using cursor_beyond_sim group_sim_mono [OF assms(2) sim(7)] by blast
  then have "map te_logGroupId (es_entries s (ts - 1)) = map te_logGroupId (es_entries s' (ts - 1))"
    using sim(8,9) by (simp add: entries_ids groups_ok_def)
  then show ?thesis by (metis length_map)
qed

lemma entries_ok:
  assumes "groups_ok s"
  shows "list_all entry_ok (es_entries s cov)"
proof -
  have "entry_ok (entry_of_group g x)" if "(g, x) \<in> set (es_groups s)" for g x
    using group_of_mem [of s g x] groups_ok_keys [OF assms, of g] assms that
    by (simp add: entry_of_group_def entry_ok_def groups_ok_def)
  then show ?thesis by (auto simp: es_entries_def list_all_iff)
qed

lemma encode_entry_total: "entry_ok e \<Longrightarrow> \<exists>bs. encode_entry e = Inr bs"
  by (simp add: encode_entry_def appendSizedString_def entry_ok_def)

lemma rmap_total: "(\<And>x. x \<in> set xs \<Longrightarrow> \<exists>y. f x = Inr y) \<Longrightarrow> \<exists>ys. rmap f xs = Inr ys"
  by (induction xs) force+

lemma toBSON_entries:
  assumes "list_all entry_ok es"
  shows "if length es \<le> 65535 then \<exists>tok. toBSON (mkToken ts kind es) = Inr tok
    else toBSON (mkToken ts kind es) = Inl InvariantFailure"
proof -
  obtain ys where "rmap encode_entry es = Inr ys"
    using rmap_total [of es encode_entry] encode_entry_total assms by (auto simp: list_all_iff)
  then show ?thesis by (simp add: toBSON_def encode_def mkToken_def write_all_def)
qed

lemma toBSON_sim:
  assumes "stream_sim T s s'" "T \<le> ts"
  shows "rel_result (\<lambda>a b. True) (toBSON (mkToken ts kind (es_entries s (ts - 1)))) (toBSON (mkToken ts kind (es_entries s' (ts - 1))))"
  using toBSON_entries [OF entries_ok, of s "ts - 1" ts kind] toBSON_entries [OF entries_ok, of s' "ts - 1" ts kind]
    entries_length_sim [OF assms] stream_simD(8,9) [OF assms(1)]
  by (auto split: if_splits)

section \<open>Events\<close>

lemma bstr_names [simp]:
  "bstr ''operationType'' \<noteq> bstr ''_id''" "bstr ''clusterTime'' \<noteq> bstr ''_id''" "bstr ''ns'' \<noteq> bstr ''_id''"
  "bstr ''documentKey'' \<noteq> bstr ''_id''" "bstr ''eloq'' \<noteq> bstr ''_id''" "bstr ''operationDescription'' \<noteq> bstr ''_id''"
  "bstr ''operationType'' \<noteq> bstr ''fullDocument''" "bstr ''clusterTime'' \<noteq> bstr ''fullDocument''" "bstr ''ns'' \<noteq> bstr ''fullDocument''"
  "bstr ''documentKey'' \<noteq> bstr ''fullDocument''" "bstr ''eloq'' \<noteq> bstr ''fullDocument''" "bstr ''operationDescription'' \<noteq> bstr ''fullDocument''"
  "bstr ''operationType'' \<noteq> bstr ''fullDocumentOmitted''" "bstr ''clusterTime'' \<noteq> bstr ''fullDocumentOmitted''"
  "bstr ''ns'' \<noteq> bstr ''fullDocumentOmitted''" "bstr ''documentKey'' \<noteq> bstr ''fullDocumentOmitted''"
  "bstr ''eloq'' \<noteq> bstr ''fullDocumentOmitted''" "bstr ''operationDescription'' \<noteq> bstr ''fullDocumentOmitted''"
  by (simp_all add: bstr_def)

lemma es_event_sim:
  assumes "stream_sim T s s'" "current_sim T c c'"
  shows "rel_result event_sim (es_event env s c e) (es_event env s' c' e)"
proof -
  have c: "ec_ts c' = ec_ts c" "T \<le> ec_ts c" using assms(2) by (auto simp: current_sim_def)
  show ?thesis
    unfolding es_event_def c(1)
    by (rule rel_rbind [OF toBSON_sim [OF assms(1) c(2)]])
      (auto simp: Let_def event_sim_def change_of_def has_token_def intro!: rel_rbind_same split: option.splits)
qed

definition step_sim :: "u64 \<Rightarrow> bson_obj option \<times> event_stream \<Rightarrow> bson_obj option \<times> event_stream \<Rightarrow> bool" where
  "step_sim T a b \<longleftrightarrow> rel_option event_sim (fst a) (fst b) \<and> stream_sim T (snd a) (snd b)"

lemma invalidateEvent_sim:
  assumes "stream_sim T s s'" "T \<le> ts"
  shows "rel_result event_sim (invalidateEvent (mkToken ts kind (es_entries s (ts - 1))) ns)
    (invalidateEvent (mkToken ts kind (es_entries s' (ts - 1))) ns)"
  unfolding invalidateEvent_def
  by (rule rel_rbind_same, rule rel_rbind [OF toBSON_sim [OF assms]])
    (simp add: event_sim_def change_of_def has_token_def mkToken_def)

lemma dropsWatchedCollection_scope: "es_scope s' = es_scope s \<Longrightarrow> dropsWatchedCollection s' ch = dropsWatchedCollection s ch"
  by (simp add: dropsWatchedCollection_def split: option.splits)

lemma stream_sim_pending:
  "stream_sim T s s' \<Longrightarrow> event_sim a b \<Longrightarrow> stream_sim T (s\<lparr>es_pendingInvalidate := Some a\<rparr>) (s'\<lparr>es_pendingInvalidate := Some b\<rparr>)"
  by (simp add: stream_sim_def groups_ok_def)

lemma reportDdl_sim:
  assumes "stream_sim T s s'" "T \<le> ts"
  shows "rel_result (step_sim T) (reportDdl ts ch s) (reportDdl ts ch s')"
proof -
  note scope = stream_simD(2) [OF assms(1)]
  have "rel_result (stream_sim T)
      (if dropsWatchedCollection s (Some ch)
       then rbind (invalidateEvent (mkToken ts kInvalidate (es_entries s (ts - 1))) (dc_ns ch))
         (\<lambda>ivd. Inr (s\<lparr>es_pendingInvalidate := Some ivd\<rparr>)) else Inr s)
      (if dropsWatchedCollection s' (Some ch)
       then rbind (invalidateEvent (mkToken ts kInvalidate (es_entries s' (ts - 1))) (dc_ns ch))
         (\<lambda>ivd. Inr (s'\<lparr>es_pendingInvalidate := Some ivd\<rparr>)) else Inr s')"
    using assms(1)
    by (auto simp: dropsWatchedCollection_scope [OF scope]
        intro!: rel_rbind [OF invalidateEvent_sim [OF assms]] stream_sim_pending)
  then show ?thesis
    unfolding reportDdl_def Let_def
    by (intro rel_rbind_same rel_rbind [OF toBSON_sim [OF assms]])
      (erule rel_rbind, simp add: step_sim_def event_sim_def change_of_def has_token_def)
qed

lemma ddlEvent_sim:
  assumes "stream_sim T s s'" "T \<le> ts"
  shows "rel_result (step_sim T) (ddlEvent env ts r s) (ddlEvent env ts r s')"
  unfolding ddlEvent_def stream_simD(2) [OF assms(1)]
  by (rule rel_rbind_same)
    (use assms reportDdl_sim [OF assms] in \<open>auto simp: step_sim_def split: option.splits\<close>)

section \<open>Records\<close>

text \<open>A record a pending resume point does not concern.\<close>

definition past_skip :: "resume_skip option \<Rightarrow> log_item \<Rightarrow> bool" where
  "past_skip sk item = (case sk of None \<Rightarrow> True
     | Some k \<Rightarrow> sk_ts k < item_ts item \<or> (sk_ts k = item_ts item \<and> (case item of
           DataItem r \<Rightarrow> \<not> sk_ddlAtTs k \<and> sk_dataAtTs k \<and> sk_dataKey k < dataKey r
         | DdlItem r \<Rightarrow> \<not> sk_ddlAtTs k \<or> sk_ddlKey k < ddlKey r)))"

definition skips_past :: "event_stream \<Rightarrow> source_record list \<Rightarrow> bool" where
  "skips_past s rs \<longleftrightarrow> (\<forall>r \<in> set rs. past_skip (eg_skip (group_of s (sr_logGroupId r))) (sr_item r))"

definition records_from :: "u64 \<Rightarrow> source_record list \<Rightarrow> bool" where
  "records_from T rs \<longleftrightarrow> (\<forall>r \<in> set rs. T \<le> sr_timestamp r \<and>
     (case sr_item r of DataItem d \<Rightarrow> length (dr_blob d) < 2 ^ 32 | DdlItem d \<Rightarrow> True))"

lemma past_skip_none [simp]: "past_skip None item"
  by (simp add: past_skip_def)

text \<open>Resume points only ever go away.\<close>

definition fewer_skips :: "event_stream \<Rightarrow> event_stream \<Rightarrow> bool" where
  "fewer_skips s s1 \<longleftrightarrow> (\<forall>g. eg_skip (group_of s1 g) = eg_skip (group_of s g) \<or> eg_skip (group_of s1 g) = None)"

lemma fewer_skips_refl [simp]: "fewer_skips s s"
  by (simp add: fewer_skips_def)

lemma fewer_skips_trans: "fewer_skips s s1 \<Longrightarrow> fewer_skips s1 s2 \<Longrightarrow> fewer_skips s s2"
  by (metis fewer_skips_def)

lemma fewer_skips_past: "fewer_skips s s1 \<Longrightarrow> skips_past s rs \<Longrightarrow> skips_past s1 rs"
  unfolding fewer_skips_def skips_past_def by (metis past_skip_none)

lemma fewer_skips_put: "eg_skip x = eg_skip (group_of s g) \<or> eg_skip x = None \<Longrightarrow> fewer_skips s (put_group g x s)"
  by (simp add: fewer_skips_def)

lemma fewer_skips_seen: "fewer_skips s (snd (es_seen g ts key s))"
  using es_seen_view(5) [of s _ g ts key] by (simp add: fewer_skips_def same_cursor_def)

lemma fewer_skips_update [simp]:
  "fewer_skips s (s1\<lparr>es_current := c\<rparr>) = fewer_skips s s1"
  "fewer_skips s (s1\<lparr>es_duplicatesSuppressed := n\<rparr>) = fewer_skips s s1"
  "fewer_skips s (s1\<lparr>es_pendingInvalidate := p\<rparr>) = fewer_skips s s1"
  by (simp_all add: fewer_skips_def)

lemma fewer_skips_move: "fewer_skips s (move_cursor c e s)"
  unfolding move_cursor_def Let_def by (rule fewer_skips_put) (simp split: option.splits)

lemma fewer_skips_produce: "produce_next c s = Inr (e, c1, s1) \<Longrightarrow> fewer_skips s s1"
proof (induction c s rule: produce_next.induct)
  case (1 c s)
  note step = "1.prems" [unfolded produce_next.simps [of c s]]
  show ?case
  proof (cases "blob_next (ec_decoder c)")
    case (Inr found)
    show ?thesis
    proof (cases found)
      case (Some ed)
      obtain b d where ed: "ed = (b, d)" by (cases ed)
      note found = Inr [unfolded Some ed]
      let ?seen = "es_seen (ec_group c) (ec_ts c) (dedupKey (ec_txn c) b) s"
      have "fewer_skips (snd ?seen) s1"
      proof (cases "consumed_through c b")
        case True
        then show ?thesis using "1.IH"(1) [OF found _ refl refl refl True] step found by (simp add: Let_def)
      next
        case consumed: False
        show ?thesis
        proof (cases "fst ?seen")
          case True
          then show ?thesis
            using "1.IH"(2) [OF found _ refl refl refl consumed True] step found consumed
            by (simp add: Let_def fewer_skips_def)
        next
          case False
          then show ?thesis using step found consumed by (simp add: Let_def)
        qed
      qed
      then show ?thesis by (rule fewer_skips_trans [OF fewer_skips_seen])
    qed (use step Inr in simp)
  qed (use step in simp)
qed

lemma fewer_skips_report: "reportDdl ts ch s = Inr (ev, s1) \<Longrightarrow> fewer_skips s s1"
  by (auto simp: reportDdl_def Let_def split: if_splits)

lemma fewer_skips_ddl: "ddlEvent env ts r s = Inr (ev, s1) \<Longrightarrow> fewer_skips s s1"
  by (auto simp: ddlEvent_def dest: fewer_skips_report split: option.splits if_splits)

text \<open>Starting a record that no resume point concerns, whatever resume point there still is.\<close>

definition untouched :: "u32 \<Rightarrow> log_item \<Rightarrow> event_stream \<Rightarrow> event_stream" where
  "untouched g item s = (let x = group_of s g in
     put_group g (case eg_skip x of Some k \<Rightarrow> if item_ts item > sk_ts k then x\<lparr>eg_skip := None\<rparr> else x | None \<Rightarrow> x) s)"

lemma untouched_skip:
  assumes "past_skip (eg_skip (group_of s g)) item"
  shows "past_skip (eg_skip (group_of (untouched g item s) g)) item"
    and "eg_skip (group_of (untouched g item s) g) = Some k \<Longrightarrow> sk_ts k = item_ts item"
  using assms by (auto simp: untouched_def Let_def past_skip_def split: option.splits)

lemma untouched_sim:
  assumes "stream_sim T s s'"
  shows "stream_sim T (untouched g item s) (untouched g item s')"
  unfolding untouched_def Let_def
  by (rule stream_sim_put [OF assms])
    (use stream_simD(7) [OF assms, of g] groups_ok_keys [OF stream_simD(8) [OF assms], of g]
      groups_ok_keys [OF stream_simD(9) [OF assms], of g] in \<open>auto simp: group_sim_def split: option.splits\<close>)

lemma fewer_skips_untouched: "fewer_skips s (untouched g item s)"
  unfolding untouched_def Let_def by (rule fewer_skips_put) (simp split: option.splits)

definition start_data :: "u32 \<Rightarrow> data_record \<Rightarrow> event_stream \<Rightarrow> event_stream" where
  "start_data g r s = s\<lparr>es_current := Some \<lparr>ec_group = g, ec_key = dataKey r, ec_ts = dr_commit_ts r, ec_txn = dr_txn_number r,
     ec_decoder = make_decoder (dr_blob r) (es_scope s), ec_consumeThrough = None\<rparr>\<rparr>"

definition start_ddl :: "u32 \<Rightarrow> ddl_record \<Rightarrow> event_stream \<Rightarrow> event_stream" where
  "start_ddl g r s = put_group g ((group_of s g)\<lparr>eg_skip := None, eg_hasCursor := True, eg_ddlKey := ddlKey r\<rparr>) s"

lemma es_begin_past:
  assumes "past_skip (eg_skip (group_of s (sr_logGroupId rec))) (sr_item rec)"
  shows "es_begin env rec s = (let s1 = untouched (sr_logGroupId rec) (sr_item rec) s in case sr_item rec of
      DataItem r \<Rightarrow> Inr (None, start_data (sr_logGroupId rec) r s1)
    | DdlItem r \<Rightarrow> ddlEvent env (dd_ddl_ts r) r (start_ddl (sr_logGroupId rec) r s1))"
proof -
  let ?g = "sr_logGroupId rec"
  let ?s = "untouched ?g (sr_item rec) s"
  note sk = untouched_skip [OF assms]
  have "es_begin env rec s = (case sr_item rec of DdlItem r \<Rightarrow> begin_ddl env ?g r ?s
      | DataItem r \<Rightarrow> rbind (begin_data ?g r ?s) (\<lambda>s1. Inr (None, s1)))"
    by (simp add: es_begin_def untouched_def sr_timestamp_def Let_def split: log_item.split option.split)
  moreover have "begin_data ?g r ?s = Inr (start_data ?g r ?s)" if "sr_item rec = DataItem r" for r
    using sk that by (auto simp: begin_data_def start_data_def past_skip_def produced_before_def Let_def split: option.splits)
  moreover have "begin_ddl env ?g r ?s = ddlEvent env (dd_ddl_ts r) r (start_ddl ?g r ?s)" if "sr_item rec = DdlItem r" for r
    using sk that by (auto simp: begin_ddl_def start_ddl_def past_skip_def Let_def split: option.splits)
  ultimately show ?thesis by (simp add: Let_def split: log_item.splits)
qed

lemma start_data_sim:
  assumes "stream_sim T s s'" "T \<le> dr_commit_ts r" "length (dr_blob r) < 2 ^ 32"
  shows "stream_sim T (start_data g r s) (start_data g r s')"
proof -
  note sim = stream_simD [OF assms(1)]
  have "dec_ok (make_decoder (dr_blob r) sc)" for sc
    using assms(3) by (simp add: dec_ok_def make_decoder_def)
  then show ?thesis
    using sim assms(2) by (auto simp: stream_sim_def start_data_def current_sim_def through_past_def length_dataKey groups_ok_def)
qed

lemma start_ddl_sim:
  assumes "stream_sim T s s'" "T \<le> dd_ddl_ts r"
  shows "stream_sim T (start_ddl g r s) (start_ddl g r s')"
  unfolding start_ddl_def
  by (rule stream_sim_put [OF assms(1)])
    (use stream_simD(7) [OF assms(1), of g] groups_ok_keys [OF stream_simD(8) [OF assms(1)], of g]
      groups_ok_keys [OF stream_simD(9) [OF assms(1)], of g] assms(2)
      in \<open>auto simp: group_sim_def key_view_def not_less length_ddlKey\<close>)

lemma es_begin_sim:
  assumes "stream_sim T s s'" "skips_past s (rec # rest)" "skips_past s' (rec # rest)" "records_from T (rec # rest)"
  shows "rel_result (step_sim T) (es_begin env rec s) (es_begin env rec s')"
proof -
  let ?u = "untouched (sr_logGroupId rec) (sr_item rec)"
  note sim = untouched_sim [OF assms(1), of "sr_logGroupId rec" "sr_item rec"]
  have "es_begin env rec x = (case sr_item rec of
      DataItem r \<Rightarrow> Inr (None, start_data (sr_logGroupId rec) r (?u x))
    | DdlItem r \<Rightarrow> ddlEvent env (dd_ddl_ts r) r (start_ddl (sr_logGroupId rec) r (?u x)))" if "x \<in> {s, s'}" for x
    using es_begin_past [of x rec env] assms(2,3) that by (auto simp: skips_past_def Let_def)
  moreover have "T \<le> item_ts (sr_item rec)" using assms(4) by (simp add: records_from_def sr_timestamp_def)
  ultimately show ?thesis
    using start_data_sim [OF sim] ddlEvent_sim [OF start_ddl_sim [OF sim]] assms(4)
    by (cases "sr_item rec") (simp_all add: step_sim_def records_from_def)
qed

lemma fewer_skips_begin:
  assumes "es_begin env rec s = Inr (ev, s1)" "past_skip (eg_skip (group_of s (sr_logGroupId rec))) (sr_item rec)"
  shows "fewer_skips s s1"
proof -
  let ?u = "untouched (sr_logGroupId rec) (sr_item rec) s"
  have "fewer_skips ?u (start_data g r ?u)" "fewer_skips ?u (start_ddl g d ?u)" for g r d
    by (simp_all add: start_data_def start_ddl_def fewer_skips_put)
  then have "fewer_skips ?u s1"
    using assms(1) fewer_skips_ddl fewer_skips_trans unfolding es_begin_past [OF assms(2)] Let_def
    by (cases "sr_item rec") (auto, blast)
  then show ?thesis using fewer_skips_trans fewer_skips_untouched by blast
qed

section \<open>Pulling\<close>

definition pulled_sim :: "u64 \<Rightarrow> bson_obj option \<times> event_stream \<times> source_record list \<Rightarrow>
    bson_obj option \<times> event_stream \<times> source_record list \<Rightarrow> bool" where
  "pulled_sim T a b \<longleftrightarrow> rel_option event_sim (fst a) (fst b) \<and> stream_sim T (fst (snd a)) (fst (snd b)) \<and>
     snd (snd a) = snd (snd b) \<and> skips_past (fst (snd a)) (snd (snd a)) \<and> skips_past (fst (snd b)) (snd (snd b)) \<and>
     records_from T (snd (snd a))"

lemma stream_sim_current:
  "stream_sim T s s' \<Longrightarrow> rel_option (current_sim T) c c' \<Longrightarrow> stream_sim T (s\<lparr>es_current := c\<rparr>) (s'\<lparr>es_current := c'\<rparr>)"
  by (simp add: stream_sim_def groups_ok_def)

lemma skips_past_tail: "skips_past s (r # rs) \<Longrightarrow> skips_past s rs"
  by (simp add: skips_past_def)

lemma skips_past_update [simp]:
  "skips_past (s\<lparr>es_current := c\<rparr>) rs = skips_past s rs"
  "skips_past (s\<lparr>es_pendingInvalidate := p, es_invalidateToken := t, es_invalidated := b\<rparr>) rs = skips_past s rs"
  by (simp_all add: skips_past_def group_of_def)

lemma records_from_tail: "records_from T (r # rs) \<Longrightarrow> records_from T rs"
  by (simp add: records_from_def)

lemma es_next_loop_invalidated: "es_invalidated s \<Longrightarrow> es_next_loop env s rs = Inr (None, s, rs)"
  by (simp add: es_next_loop.simps [of env s rs])

lemma es_next_loop_pending:
  "\<not> es_invalidated s \<Longrightarrow> es_pendingInvalidate s = Some ivd \<Longrightarrow> getField ivd (bstr ''_id'') = Some (BObject tok) \<Longrightarrow>
     es_next_loop env s rs = Inr (Some ivd, s\<lparr>es_pendingInvalidate := None, es_invalidateToken := tok, es_invalidated := True\<rparr>, rs)"
  by (simp add: es_next_loop.simps [of env s rs])

lemma es_next_loop_current:
  "\<not> es_invalidated s \<Longrightarrow> es_pendingInvalidate s = None \<Longrightarrow> es_current s = Some c \<Longrightarrow>
     es_next_loop env s rs = rbind (produce_next c s) (\<lambda>(found, c1, s1). case found of
         Some e \<Rightarrow> let s2 = move_cursor c1 (Some e) s1 in
           rbind (es_event env s2 c1 e) (\<lambda>event. Inr (Some event, s2\<lparr>es_current := Some c1\<rparr>, rs))
       | None \<Rightarrow> es_next_loop env ((move_cursor c1 None s1)\<lparr>es_current := None\<rparr>) rs)"
  by (simp add: es_next_loop.simps [of env s rs])

lemma es_next_loop_empty:
  "\<not> es_invalidated s \<Longrightarrow> es_pendingInvalidate s = None \<Longrightarrow> es_current s = None \<Longrightarrow> es_next_loop env s [] = Inr (None, s, [])"
  by (simp add: es_next_loop.simps [of env s])

lemma es_next_loop_record:
  "\<not> es_invalidated s \<Longrightarrow> es_pendingInvalidate s = None \<Longrightarrow> es_current s = None \<Longrightarrow>
     es_next_loop env s (rec # rest) = rbind (es_begin env rec s) (\<lambda>(event, s1). case event of
         Some ev \<Rightarrow> Inr (Some ev, s1, rest) | None \<Rightarrow> es_next_loop env s1 rest)"
  by (simp add: es_next_loop.simps [of env s "rec # rest"])

lemma pending_sim:
  assumes "stream_sim T s s'" "skips_past s rs" "skips_past s' rs" "records_from T rs"
    and "\<not> es_invalidated s" "es_pendingInvalidate s \<noteq> None"
  shows "rel_result (pulled_sim T) (es_next_loop env s rs) (es_next_loop env s' rs)"
proof -
  note sim = stream_simD [OF assms(1)]
  obtain ivd ivd' where ivd: "es_pendingInvalidate s = Some ivd" "es_pendingInvalidate s' = Some ivd'" "event_sim ivd ivd'"
    using sim(5) assms(6) by (auto elim: option.rel_cases)
  obtain tok tok' where tok: "getField ivd (bstr ''_id'') = Some (BObject tok)" "getField ivd' (bstr ''_id'') = Some (BObject tok')"
    using ivd(3) by (auto simp: event_sim_def has_token_def)
  have "stream_sim T (s\<lparr>es_pendingInvalidate := None, es_invalidateToken := tok, es_invalidated := True\<rparr>)
      (s'\<lparr>es_pendingInvalidate := None, es_invalidateToken := tok', es_invalidated := True\<rparr>)"
    using assms(1) by (simp add: stream_sim_def groups_ok_def group_of_def)
  then show ?thesis
    using ivd tok assms(2-5) sim(4) by (simp add: es_next_loop_pending pulled_sim_def)
qed

definition after_produce :: "event_env \<Rightarrow> blob_entry option \<times> current_record \<times> event_stream \<Rightarrow> source_record list \<Rightarrow>
    (bson_obj option \<times> event_stream \<times> source_record list) result" where
  "after_produce env p rs = (case p of (found, c1, s1) \<Rightarrow> (case found of
       Some e \<Rightarrow> let s2 = move_cursor c1 (Some e) s1 in
         rbind (es_event env s2 c1 e) (\<lambda>event. Inr (Some event, s2\<lparr>es_current := Some c1\<rparr>, rs))
     | None \<Rightarrow> es_next_loop env ((move_cursor c1 None s1)\<lparr>es_current := None\<rparr>) rs))"

lemma after_produce_sim:
  assumes "current_sim T c c'" "stream_sim T s s'" "skips_past s rs" "skips_past s' rs" "records_from T rs"
    and "found = None \<Longrightarrow> rel_result (pulled_sim T) (es_next_loop env ((move_cursor c None s)\<lparr>es_current := None\<rparr>) rs)
      (es_next_loop env ((move_cursor c' None s')\<lparr>es_current := None\<rparr>) rs)"
  shows "rel_result (pulled_sim T) (after_produce env (found, c, s) rs) (after_produce env (found, c', s') rs)"
proof (cases found)
  case (Some e)
  note moved = move_cursor_sim [OF assms(1,2), of "Some e"]
  have past: "skips_past (move_cursor c (Some e) s) rs" "skips_past (move_cursor c' (Some e) s') rs"
    using assms(3,4) fewer_skips_past [OF fewer_skips_move] by blast+
  have "rel_result event_sim (es_event env (move_cursor c (Some e) s) c e) (es_event env (move_cursor c' (Some e) s') c' e)"
    using es_event_sim [OF moved assms(1)] .
  then show ?thesis
    using moved past assms(1,5) Some
    by (auto simp: after_produce_def Let_def pulled_sim_def stream_sim_current intro!: rel_rbind)
qed (use assms(6) in \<open>simp add: after_produce_def\<close>)

lemma es_next_loop_sim:
  assumes "stream_sim T s s'" "skips_past s rs" "skips_past s' rs" "records_from T rs"
  shows "rel_result (pulled_sim T) (es_next_loop env s rs) (es_next_loop env s' rs)"
  using assms
proof (induction env s rs arbitrary: s' rule: es_next_loop.induct)
  case (1 env s rs)
  note prems = "1.prems"
  note sim = stream_simD [OF prems(1)]
  consider (invalidated) "es_invalidated s" | (pending) "\<not> es_invalidated s" "es_pendingInvalidate s \<noteq> None"
    | (current) c where "\<not> es_invalidated s" "es_pendingInvalidate s = None" "es_current s = Some c"
    | (none) "\<not> es_invalidated s" "es_pendingInvalidate s = None" "es_current s = None" by force
  then show ?case
  proof cases
    case invalidated
    then show ?thesis using prems sim(4) by (simp add: es_next_loop_invalidated pulled_sim_def)
  next
    case pending
    then show ?thesis using pending_sim prems by blast
  next
    case (current c)
    obtain c' where c': "es_current s' = Some c'" "current_sim T c c'"
      using sim(6) current(3) by (auto elim: option.rel_cases)
    have s': "\<not> es_invalidated s'" "es_pendingInvalidate s' = None"
      using sim(4,5) current by auto
    have "rel_result (pulled_sim T) (after_produce env (found, c1, s1) rs) (after_produce env (found, c1', s1') rs)"
      if produced: "produce_next c s = Inr (found, c1, s1)" "produce_next c' s' = Inr (found, c1', s1')"
        and c1: "current_sim T c1 c1'" and s1: "stream_sim T s1 s1'" for found c1 s1 c1' s1'
    proof (rule after_produce_sim [OF c1 s1 _ _ prems(4)])
      show past: "skips_past s1 rs" "skips_past s1' rs"
        using produced prems(2,3) by (metis fewer_skips_past fewer_skips_produce)+
      assume found: "found = None"
      show "rel_result (pulled_sim T) (es_next_loop env ((move_cursor c1 None s1)\<lparr>es_current := None\<rparr>) rs)
          (es_next_loop env ((move_cursor c1' None s1')\<lparr>es_current := None\<rparr>) rs)"
        using "1.IH"(2) [OF current produced(1) [unfolded found] refl refl refl, of "(move_cursor c1' None s1')\<lparr>es_current := None\<rparr>"]
          move_cursor_sim [OF c1 s1] past prems(4) fewer_skips_past [OF fewer_skips_move] by (simp add: stream_sim_current)
    qed
    then show ?thesis
      unfolding es_next_loop_current [OF current] es_next_loop_current [OF s' c'(1)]
      using produce_next_sim [OF c'(2) prems(1)]
      by (auto simp: produced_sim_def after_produce_def elim!: rel_sum.cases)
  next
    case none
    have s': "\<not> es_invalidated s'" "es_pendingInvalidate s' = None" "es_current s' = None"
      using sim(4,5,6) none by auto
    show ?thesis
    proof (cases rs)
      case Nil
      then show ?thesis using none s' prems by (simp add: es_next_loop_empty pulled_sim_def)
    next
      case (Cons rec rest)
      have past: "past_skip (eg_skip (group_of s (sr_logGroupId rec))) (sr_item rec)"
        "past_skip (eg_skip (group_of s' (sr_logGroupId rec))) (sr_item rec)"
        using prems(2,3) Cons by (auto simp: skips_past_def)
      have rest: "skips_past s1 rest" "skips_past s1' rest" "records_from T rest"
        if "es_begin env rec s = Inr (ev, s1)" "es_begin env rec s' = Inr (ev', s1')" for ev ev' s1 s1'
        using fewer_skips_past [OF fewer_skips_begin [OF that(1) past(1)]] fewer_skips_past [OF fewer_skips_begin [OF that(2) past(2)]]
          prems(2-4) skips_past_tail records_from_tail unfolding Cons by blast+
      show ?thesis
        unfolding Cons es_next_loop_record [OF none] es_next_loop_record [OF s']
        using es_begin_sim [OF prems(1) prems(2-4) [unfolded Cons], of env] rest "1.IH"(1) [OF none Cons _ refl refl]
        by (auto simp: step_sim_def pulled_sim_def elim!: rel_sum.cases option.rel_cases)
    qed
  qed
qed

end
