(* ===== verification/Event_Invariant.thy ===== *)
theory Event_Invariant
  imports Event_Sim
begin

text \<open>
  Invariants of an event stream. The locale \<open>stream_invariant\<close> is the contract of a predicate that
  does not look at the cursors, the record in progress or the invalidate: if recording a change in a
  dedup set keeps it, then every operation of the stream does. It is interpreted for the settings of
  a stream, which never change, and for the accounting of the dedup sets.
\<close>

definition same_dedup :: "stream_group \<Rightarrow> stream_group \<Rightarrow> bool" where
  "same_dedup x y \<longleftrightarrow> eg_dedupTs y = eg_dedupTs x \<and> eg_dedup y = eg_dedup x \<and> eg_dedupBytes y = eg_dedupBytes x"

lemma same_dedup_update [simp]:
  "same_dedup x x"
  "same_dedup x (y\<lparr>eg_hasCursor := b\<rparr>) = same_dedup x y" "same_dedup x (y\<lparr>eg_dataKey := k\<rparr>) = same_dedup x y"
  "same_dedup x (y\<lparr>eg_ddlKey := k\<rparr>) = same_dedup x y" "same_dedup x (y\<lparr>eg_partial := b\<rparr>) = same_dedup x y"
  "same_dedup x (y\<lparr>eg_section := n\<rparr>) = same_dedup x y" "same_dedup x (y\<lparr>eg_entry := n\<rparr>) = same_dedup x y"
  "same_dedup x (y\<lparr>eg_skip := sk\<rparr>) = same_dedup x y"
  by (simp_all add: same_dedup_def)

locale stream_invariant =
  fixes P :: "event_stream \<Rightarrow> bool"
  assumes seen: "P s \<Longrightarrow> P (snd (es_seen g ts key s))"
    and cursor: "P s \<Longrightarrow> same_dedup (group_of s g) x \<Longrightarrow> P (put_group g x s)"
    and current: "P s \<Longrightarrow> P (s\<lparr>es_current := c\<rparr>)"
    and suppressed: "P s \<Longrightarrow> P (s\<lparr>es_duplicatesSuppressed := n\<rparr>)"
    and pending: "P s \<Longrightarrow> P (s\<lparr>es_pendingInvalidate := i\<rparr>)"
    and own_drops: "P s \<Longrightarrow> P (s\<lparr>es_ownDropKeys := m\<rparr>)"
    and invalidated: "P s \<Longrightarrow> P (s\<lparr>es_pendingInvalidate := i, es_invalidateToken := t, es_invalidated := b\<rparr>)"
    and stats: "P s \<Longrightarrow> P (s\<lparr>es_stats := st\<rparr>)"
begin

lemma consumed: "consume_all g ts txn d s = Inr s1 \<Longrightarrow> P s \<Longrightarrow> P s1"
proof (induction g ts txn d s rule: consume_all.induct)
  case (1 g ts txn d s)
  then show ?case
    using seen by (cases "blob_next d") (auto simp: consume_all.simps [of g ts txn d s] split: option.splits)
qed

lemma produced: "produce_next c s = Inr (f, c1, s1) \<Longrightarrow> P s \<Longrightarrow> P s1"
proof (induction c s rule: produce_next.induct)
  case (1 c s)
  note step = "1.prems"(1) [unfolded produce_next.simps [of c s]]
  show ?case
  proof (cases "blob_next (ec_decoder c)")
    case (Inr found)
    show ?thesis
    proof (cases found)
      case (Some ed)
      obtain e d where ed: "ed = (e, d)" by (cases ed)
      note nxt = Inr [unfolded Some ed]
      let ?seen = "es_seen (ec_group c) (ec_ts c) (dedupKey (ec_txn c) e) s"
      show ?thesis
        using step nxt "1.IH"(1) [OF nxt _ refl refl refl] "1.IH"(2) [OF nxt _ refl refl refl] seen [OF "1.prems"(2)] suppressed
        by (cases "consumed_through c e"; cases "fst ?seen") (auto simp: Let_def)
    qed (use step Inr "1.prems"(2) in simp)
  qed (use step in simp)
qed

lemma moved: "P s \<Longrightarrow> P (move_cursor c e s)"
  unfolding move_cursor_def Let_def by (rule cursor) (simp_all split: option.splits)

lemma reported_ddl:
  assumes "ddlEvent env ts r s = Inr (ev, s1)" "P s"
  shows "P s1"
proof -
  have "P s1" if "reportDdl ts ch s = Inr (ev, s1)" for ch
    using that assms(2) pending by (auto simp: reportDdl_def Let_def split: if_splits)
  then show ?thesis using assms by (auto simp: ddlEvent_def split: option.splits if_splits)
qed

lemma skipped_ddl: "skip_ddl env g r s = Inr s1 \<Longrightarrow> P s \<Longrightarrow> P s1"
  using own_drops pending by (auto simp: skip_ddl_def Let_def split: if_splits option.splits)

lemma begun:
  assumes "es_begin env r s = Inr (ev, s1)" "P s"
  shows "P s1"
proof -
  let ?g = "sr_logGroupId r"
  define s2 where "s2 = put_group ?g (case eg_skip (group_of s ?g) of Some k \<Rightarrow>
      if sr_timestamp r > sk_ts k then (group_of s ?g)\<lparr>eg_skip := None\<rparr> else group_of s ?g | None \<Rightarrow> group_of s ?g) s"
  have s2: "P s2" unfolding s2_def by (rule cursor [OF assms(2)]) (simp split: option.splits)
  have step: "(case sr_item r of DdlItem d \<Rightarrow> begin_ddl env ?g d s2 | DataItem d \<Rightarrow> rbind (begin_data ?g d s2) (\<lambda>s1. Inr (None, s1))) = Inr (ev, s1)"
    using assms(1) unfolding es_begin_def Let_def s2_def .
  show ?thesis
  proof (cases "sr_item r")
    case (DataItem d)
    then show ?thesis
      using step s2 consumed current by (auto simp: begin_data_def Let_def split: option.splits if_splits)
  next
    case (DdlItem d)
    have "P (put_group ?g ((group_of s2 ?g)\<lparr>eg_skip := None, eg_hasCursor := True, eg_ddlKey := ddlKey d\<rparr>) s2)"
      by (rule cursor [OF s2]) simp
    then show ?thesis
      using step DdlItem reported_ddl skipped_ddl s2 by (auto simp: begin_ddl_def Let_def split: if_splits)
  qed
qed

lemma looped:
  assumes "es_next_loop env s rs = Inr (ev, s1, rs1)" "P s"
  shows "P s1"
  using assms
proof (induction env s rs rule: es_next_loop.induct)
  case (1 env s rs)
  consider (over) "es_invalidated s" | (ending) i where "\<not> es_invalidated s" "es_pendingInvalidate s = Some i"
    | (reading) c where "\<not> es_invalidated s" "es_pendingInvalidate s = None" "es_current s = Some c"
    | (none) "\<not> es_invalidated s" "es_pendingInvalidate s = None" "es_current s = None" by force
  then show ?case
  proof cases
    case over
    then show ?thesis using "1.prems" by (simp add: es_next_loop_invalidated)
  next
    case (ending i)
    then show ?thesis
      using "1.prems" invalidated by (auto simp: es_next_loop.simps [of env s rs] split: option.splits bson.splits)
  next
    case (reading c)
    obtain found c1 s2 where p: "produce_next c s = Inr (found, c1, s2)" "after_produce env (found, c1, s2) rs = Inr (ev, s1, rs1)"
      using "1.prems"(1) unfolding es_next_loop_current [OF reading] after_produce_def by auto
    have s2: "P (move_cursor c1 found s2)" using moved produced [OF p(1) "1.prems"(2)] by simp
    show ?thesis
    proof (cases found)
      case None
      then show ?thesis
        using "1.IH"(2) [OF reading p(1) [unfolded None] refl refl refl] p(2) s2 current
        by (simp add: after_produce_def)
    next
      case (Some e)
      then show ?thesis
        using p(2) s2 current by (auto simp: after_produce_def Let_def)
    qed
  next
    case none
    show ?thesis
    proof (cases rs)
      case Nil
      then show ?thesis using "1.prems" es_next_loop_empty [OF none] by simp
    next
      case (Cons r rest)
      obtain event s2 where b: "es_begin env r s = Inr (event, s2)"
        and more: "(case event of Some ev \<Rightarrow> Inr (Some ev, s2, rest) | None \<Rightarrow> es_next_loop env s2 rest) = Inr (ev, s1, rs1)"
        using "1.prems"(1) unfolding Cons es_next_loop_record [OF none] by auto
      note s2 = begun [OF b "1.prems"(2)]
      show ?thesis
      proof (cases event)
        case None
        then show ?thesis using "1.IH"(1) [OF none Cons b [unfolded None] refl refl _ s2] more by simp
      qed (use more s2 in simp)
    qed
  qed
qed

lemma pulled: "es_next env src now s rs = Inr (ev, s1, rs1) \<Longrightarrow> P s \<Longrightarrow> P s1"
  using looped stats by (auto simp: es_next_def publishStats_def Let_def)

end

section \<open>The settings of a stream\<close>

definition settings :: "event_stream \<Rightarrow> stream_scope \<times> int \<times> bson_obj" where
  "settings s = (es_scope s, es_dedupSetBytes s, es_openingToken s)"

interpretation stream_settings: stream_invariant "\<lambda>s. settings s = x" for x
  by unfold_locales (simp_all add: settings_def)

section \<open>The dedup sets\<close>

definition dedup_ok :: "int \<Rightarrow> stream_group \<Rightarrow> bool" where
  "dedup_ok limit x \<longleftrightarrow> finite (eg_dedup x) \<and> eg_dedupBytes x = (\<Sum>key \<in> eg_dedup x. int (length key) + 32) \<and> eg_dedupBytes x \<le> limit"

definition stream_dedup_ok :: "event_stream \<Rightarrow> bool" where
  "stream_dedup_ok s \<longleftrightarrow> 0 \<le> es_dedupSetBytes s \<and> (\<forall>g. dedup_ok (es_dedupSetBytes s) (group_of s g))"

lemma dedup_ok_new: "0 \<le> limit \<Longrightarrow> dedup_ok limit new_group"
  by (simp add: dedup_ok_def new_group_def)

lemma dedup_ok_same: "same_dedup x y \<Longrightarrow> dedup_ok limit x \<Longrightarrow> dedup_ok limit y"
  by (simp add: dedup_ok_def same_dedup_def)

lemma group_seen_ok: "0 \<le> limit \<Longrightarrow> dedup_ok limit x \<Longrightarrow> dedup_ok limit (snd (snd (group_seen limit ts key x)))"
  by (auto simp: group_seen_def dedup_ok_def Let_def)

lemma es_seen_dedup:
  assumes "stream_dedup_ok s"
  shows "stream_dedup_ok (snd (es_seen g ts key s))"
proof -
  obtain dup ovf x where x: "group_seen (es_dedupSetBytes s) ts key (group_of s g) = (dup, ovf, x)" by (metis prod_cases3)
  then have "dedup_ok (es_dedupSetBytes s) x"
    using group_seen_ok [of "es_dedupSetBytes s" "group_of s g" ts key] assms by (simp add: stream_dedup_ok_def)
  then show ?thesis using assms x by (simp add: es_seen_def stream_dedup_ok_def Let_def)
qed

interpretation stream_dedup: stream_invariant stream_dedup_ok
  by unfold_locales (simp_all add: es_seen_dedup, auto simp: stream_dedup_ok_def intro: dedup_ok_same)

end
