(* ===== verification/Event_History.thy ===== *)
theory Event_History
  imports Event_Invariant
begin

text \<open>
  The state of a freshly opened event stream as a function of what it has consumed. The history of a
  stream is the list of records it has begun, each with the changes read of it; the cursors, the
  dedup sets and the pending invalidate of the stream are what the history says, and the token of an
  event is the stream's position right after it.
\<close>

section \<open>Reading changes into the dedup set\<close>

definition fold_seen :: "int \<Rightarrow> bytes list \<Rightarrow> bytes set \<times> int \<Rightarrow> bytes set \<times> int" where
  "fold_seen limit keys v = fold (\<lambda>key v. snd (snd (view_seen limit key v))) keys v"

lemma fold_seen_simps [simp]:
  "fold_seen limit [] v = v"
  "fold_seen limit (k # ks) v = fold_seen limit ks (snd (snd (view_seen limit k v)))"
  "fold_seen limit (ks @ ls) v = fold_seen limit ls (fold_seen limit ks v)"
  by (simp_all add: fold_seen_def)

definition same_shell :: "event_stream \<Rightarrow> event_stream \<Rightarrow> bool" where
  "same_shell s s1 \<longleftrightarrow> es_scope s1 = es_scope s \<and> es_dedupSetBytes s1 = es_dedupSetBytes s \<and> es_current s1 = es_current s \<and>
     es_openingToken s1 = es_openingToken s \<and> es_ownDropKeys s1 = es_ownDropKeys s \<and> es_resumedFrom s1 = es_resumedFrom s \<and>
     es_pendingInvalidate s1 = es_pendingInvalidate s \<and> es_invalidated s1 = es_invalidated s \<and>
     (om_inv (es_groups s) \<longrightarrow> om_inv (es_groups s1))"

text \<open>The stream after the changes with the given dedup keys were read into the set of a group.\<close>

definition absorbed :: "u32 \<Rightarrow> u64 \<Rightarrow> bytes list \<Rightarrow> event_stream \<Rightarrow> event_stream \<Rightarrow> bool" where
  "absorbed g ts keys s s1 \<longleftrightarrow> same_shell s s1 \<and> (\<forall>h. same_cursor (group_of s h) (group_of s1 h)) \<and>
     (\<forall>h. h \<noteq> g \<longrightarrow> group_of s1 h = group_of s h) \<and>
     dedup_view ts (group_of s1 g) = fold_seen (es_dedupSetBytes s) keys (dedup_view ts (group_of s g)) \<and>
     (if keys = [] then group_of s1 g = group_of s g else eg_dedupTs (group_of s1 g) = ts)"

lemma absorbed_refl: "absorbed g ts [] s s"
  by (simp add: absorbed_def same_shell_def same_cursor_def)

lemma absorbed_seen: "absorbed g ts [key] s (snd (es_seen g ts key s))"
  by (simp add: absorbed_def same_shell_def es_seen_om_inv es_seen_view(2-5))

lemma absorbed_trans: "absorbed g ts ks s s1 \<Longrightarrow> absorbed g ts ls s1 s2 \<Longrightarrow> absorbed g ts (ks @ ls) s s2"
  unfolding absorbed_def same_shell_def same_cursor_def by (auto split: if_splits)

lemma absorbed_step: "absorbed g ts ls (snd (es_seen g ts key s)) s2 \<Longrightarrow> absorbed g ts (key # ls) s s2"
  using absorbed_trans [OF absorbed_seen] by fastforce

lemma absorbed_update [simp]:
  "absorbed g ts ks (s\<lparr>es_duplicatesSuppressed := n\<rparr>) s1 = absorbed g ts ks s s1"
  by (simp add: absorbed_def same_shell_def)

section \<open>Reading along a blob\<close>

fun dec_run :: "blob_decoder \<Rightarrow> blob_entry list \<Rightarrow> blob_decoder \<Rightarrow> bool" where
  "dec_run d [] d' \<longleftrightarrow> d' = d"
| "dec_run d (e # es) d' \<longleftrightarrow> (\<exists>d1. blob_next d = Inr (Some (e, d1)) \<and> dec_run d1 es d')"

lemma dec_run_append: "dec_run d (es @ fs) d' \<longleftrightarrow> (\<exists>d1. dec_run d es d1 \<and> dec_run d1 fs d')"
  by (induction es arbitrary: d) auto

lemma dec_run_ok: "dec_run d es d' \<Longrightarrow> dec_ok d \<Longrightarrow> dec_ok d'"
  by (induction es arbitrary: d) (auto dest: blob_next_positions)

lemma pos_le_refl [simp]: "pos_le p p"
  by (simp add: pos_le_def)

text \<open>Along a run positions increase, and the last one read lies behind the decoder.\<close>

lemma dec_run_before:
  "dec_run d es d' \<Longrightarrow> dec_ok d \<Longrightarrow> dec_past d sec n \<Longrightarrow> dec_past d' sec n \<and> (\<forall>e \<in> set es. pos_le (sec, n) (be_section e, be_entry e))"
proof (induction es arbitrary: d)
  case (Cons e es)
  then obtain d1 where d1: "blob_next d = Inr (Some (e, d1))" "dec_run d1 es d'" by auto
  note pos = blob_next_positions [OF d1(1) Cons.prems(2)]
  then have less: "sec < be_section e \<or> sec = be_section e \<and> n < be_entry e" using Cons.prems(3) by blast
  then have "dec_past d1 sec n" using pos dec_past_trans by blast
  then show ?case using Cons.IH [OF d1(2)] pos less by (auto simp: pos_le_def)
qed simp

lemma dec_run_last:
  assumes "dec_run d es d'" "dec_ok d" "es \<noteq> []"
  shows "dec_past d' (be_section (last es)) (be_entry (last es))"
    and "e \<in> set es \<Longrightarrow> pos_le (be_section e, be_entry e) (be_section (last es), be_entry (last es))"
proof -
  have "dec_past d' (be_section (last es)) (be_entry (last es)) \<and>
      (\<forall>e \<in> set es. pos_le (be_section e, be_entry e) (be_section (last es), be_entry (last es)))"
    using assms
  proof (induction es arbitrary: d)
    case (Cons e es)
    then obtain d1 where d1: "blob_next d = Inr (Some (e, d1))" "dec_run d1 es d'" by auto
    note pos = blob_next_positions [OF d1(1) Cons.prems(2)]
    show ?case
    proof (cases "es = []")
      case True
      then show ?thesis using pos d1(2) by simp
    next
      case False
      then show ?thesis
        using Cons.IH [OF d1(2)] dec_run_before [OF d1(2), of "be_section e" "be_entry e"] pos last_in_set [OF False] by auto
    qed
  qed simp
  then show "dec_past d' (be_section (last es)) (be_entry (last es))"
    "e \<in> set es \<Longrightarrow> pos_le (be_section e, be_entry e) (be_section (last es), be_entry (last es))" by blast+
qed

text \<open>\<open>produce_next\<close> reads a run of changes.\<close>

definition keys_of :: "u64 \<Rightarrow> blob_entry list \<Rightarrow> bytes list" where
  "keys_of txn es = map (dedupKey txn) es"

lemma produce_next_run:
  assumes "produce_next c s = Inr (found, c1, s1)"
  shows "\<exists>es. dec_run (ec_decoder c) es (ec_decoder c1) \<and> c1 = c\<lparr>ec_decoder := ec_decoder c1\<rparr> \<and>
    absorbed (ec_group c) (ec_ts c) (keys_of (ec_txn c) es) s s1 \<and>
    (case found of None \<Rightarrow> blob_next (ec_decoder c1) = Inr None | Some e \<Rightarrow> es \<noteq> [] \<and> last es = e)"
  using assms
proof (induction c s rule: produce_next.induct)
  case (1 c s)
  note step = "1.prems" [unfolded produce_next.simps [of c s]]
  show ?case
  proof (cases "blob_next (ec_decoder c)")
    case (Inr o1)
    show ?thesis
    proof (cases o1)
      case None
      then show ?thesis
        using step Inr absorbed_refl by (intro exI [of _ "[]"]) (auto simp: keys_of_def)
    next
      case (Some ed)
      obtain b d where ed: "ed = (b, d)" by (cases ed)
      note nxt = Inr [unfolded Some ed]
      let ?seen = "es_seen (ec_group c) (ec_ts c) (dedupKey (ec_txn c) b) s"
      let ?dup = "(snd ?seen)\<lparr>es_duplicatesSuppressed := es_duplicatesSuppressed (snd ?seen) + 1\<rparr>"
      have more: ?thesis if "dec_run d es (ec_decoder c1)" "c1 = c\<lparr>ec_decoder := ec_decoder c1\<rparr>"
        "absorbed (ec_group c) (ec_ts c) (keys_of (ec_txn c) es) (snd ?seen) s1"
        "case found of None \<Rightarrow> blob_next (ec_decoder c1) = Inr None | Some e \<Rightarrow> es \<noteq> [] \<and> last es = e" for es
        using that nxt absorbed_step by (intro exI [of _ "b # es"]) (auto simp: keys_of_def split: option.splits)
      consider (through) "consumed_through c b" | (dup) "\<not> consumed_through c b" "fst ?seen"
        | (new) "\<not> consumed_through c b" "\<not> fst ?seen" by blast
      then show ?thesis
      proof cases
        case through
        then show ?thesis using "1.IH"(1) [OF nxt _ refl refl refl through] step nxt more by (fastforce simp: Let_def)
      next
        case dup
        then show ?thesis using "1.IH"(2) [OF nxt _ refl refl refl dup] step nxt more by (fastforce simp: Let_def)
      next
        case new
        then show ?thesis
          using step nxt absorbed_seen by (intro exI [of _ "[b]"]) (auto simp: Let_def keys_of_def)
      qed
    qed
  qed (use step in simp)
qed

section \<open>Histories\<close>

type_synonym begun = "source_record \<times> blob_entry list"

definition item_data_keys :: "u32 \<Rightarrow> source_record \<Rightarrow> bytes list" where
  "item_data_keys g r = (case sr_item r of DataItem d \<Rightarrow> if sr_logGroupId r = g then [dataKey d] else [] | DdlItem d \<Rightarrow> [])"

definition item_ddl_keys :: "u32 \<Rightarrow> source_record \<Rightarrow> bytes list" where
  "item_ddl_keys g r = (case sr_item r of DataItem d \<Rightarrow> [] | DdlItem d \<Rightarrow> if sr_logGroupId r = g then [ddlKey d] else [])"

definition data_keys :: "u32 \<Rightarrow> source_record list \<Rightarrow> bytes list" where
  "data_keys g rs = concat (map (item_data_keys g) rs)"

definition ddl_keys :: "u32 \<Rightarrow> source_record list \<Rightarrow> bytes list" where
  "ddl_keys g rs = concat (map (item_ddl_keys g) rs)"

definition last_key :: "bytes list \<Rightarrow> bytes" where
  "last_key ks = (if ks = [] then [] else last ks)"

definition change_keys :: "u64 \<Rightarrow> u32 \<Rightarrow> begun \<Rightarrow> bytes list" where
  "change_keys T g b = (case sr_item (fst b) of
       DataItem d \<Rightarrow> if sr_logGroupId (fst b) = g \<and> dr_commit_ts d = T then keys_of (dr_txn_number d) (snd b) else []
     | DdlItem d \<Rightarrow> [])"

definition history_keys :: "u64 \<Rightarrow> u32 \<Rightarrow> begun list \<Rightarrow> bytes list" where
  "history_keys T g h = concat (map (change_keys T g) h)"

lemma keys_append [simp]:
  "data_keys g (rs @ qs) = data_keys g rs @ data_keys g qs" "ddl_keys g (rs @ qs) = ddl_keys g rs @ ddl_keys g qs"
  "history_keys T g (h @ k) = history_keys T g h @ history_keys T g k"
  "data_keys g (r # rs) = item_data_keys g r @ data_keys g rs" "ddl_keys g (r # rs) = item_ddl_keys g r @ ddl_keys g rs"
  "history_keys T g (b # k) = change_keys T g b @ history_keys T g k"
  "data_keys g [] = []" "ddl_keys g [] = []" "history_keys T g [] = []"
  by (simp_all add: data_keys_def ddl_keys_def history_keys_def)

lemma last_key_append [simp]: "last_key (ks @ ls) = (if ls = [] then last_key ks else last ls)"
  by (simp add: last_key_def)

lemma last_key_Nil [simp]: "last_key [] = []"
  by (simp add: last_key_def)

definition history_until :: "u64 \<Rightarrow> begun list \<Rightarrow> bool" where
  "history_until T h \<longleftrightarrow> (\<forall>b \<in> set h. sr_timestamp (fst b) \<le> T)"

lemma history_until_simps [simp]:
  "history_until T []" "history_until T (h @ k) \<longleftrightarrow> history_until T h \<and> history_until T k"
  "history_until T (b # h) \<longleftrightarrow> sr_timestamp (fst b) \<le> T \<and> history_until T h"
  by (auto simp: history_until_def)

lemma history_keys_later: "history_until ts h \<Longrightarrow> ts < T \<Longrightarrow> history_keys T g h = []"
  by (induction h) (auto simp: change_keys_def sr_timestamp_def split: log_item.splits)

text \<open>A group of a stream with history \<open>h\<close>, in the middle of the record of group \<open>fst p\<close> if \<open>p\<close> is given.\<close>

definition group_inv :: "int \<Rightarrow> begun list \<Rightarrow> (u32 \<times> u32 \<times> u32) option \<Rightarrow> u32 \<Rightarrow> stream_group \<Rightarrow> bool" where
  "group_inv limit h p g x \<longleftrightarrow> eg_skip x = None \<and> eg_hasCursor x = (g \<in> sr_logGroupId ` fst ` set h) \<and>
     eg_dataKey x = last_key (data_keys g (map fst h)) \<and> eg_ddlKey x = last_key (ddl_keys g (map fst h)) \<and>
     (\<forall>T. history_until T h \<longrightarrow> dedup_view T x = fold_seen limit (history_keys T g h) ({}, 0)) \<and>
     (case p of Some (g', sec, n) \<Rightarrow> if g' = g then eg_partial x \<and> eg_section x = sec \<and> eg_entry x = n else \<not> eg_partial x
      | None \<Rightarrow> \<not> eg_partial x)"

definition groups_inv :: "begun list \<Rightarrow> (u32 \<times> u32 \<times> u32) option \<Rightarrow> event_stream \<Rightarrow> bool" where
  "groups_inv h p s \<longleftrightarrow> om_inv (es_groups s) \<and> (\<forall>g. group_inv (es_dedupSetBytes s) h p g (group_of s g))"

lemma groups_inv_update [simp]:
  "groups_inv h p (s\<lparr>es_current := c\<rparr>) = groups_inv h p s" "groups_inv h p (s\<lparr>es_pendingInvalidate := i\<rparr>) = groups_inv h p s"
  "groups_inv h p (s\<lparr>es_openingToken := t\<rparr>) = groups_inv h p s" "groups_inv h p (s\<lparr>es_stats := st\<rparr>) = groups_inv h p s"
  by (simp_all add: groups_inv_def group_of_def)

lemma groups_inv_new: "groups_inv [] None (make_stream scope limit)"
  by (simp add: groups_inv_def group_inv_def group_of_def make_stream_def new_group_def dedup_view_def om_inv_def)

lemma untouched_none:
  assumes "eg_skip (group_of s g) = None" "om_inv (es_groups s)"
  shows "group_of (untouched g item s) = group_of s" and "om_inv (es_groups (untouched g item s))"
  using assms by (auto simp: untouched_def Let_def om_inv_om_put fun_eq_iff)

text \<open>Reading changes of the record in progress, and moving the cursor to it.\<close>

definition in_progress :: "source_record \<Rightarrow> blob_entry list \<Rightarrow> begun list" where
  "in_progress r es = (if es = [] then [] else [(r, es)])"

definition progress_at :: "source_record \<Rightarrow> blob_entry list \<Rightarrow> (u32 \<times> u32 \<times> u32) option" where
  "progress_at r es = (if es = [] then None else Some (sr_logGroupId r, be_section (last es), be_entry (last es)))"

lemma absorbed_dedup:
  assumes old: "group_inv limit (h @ in_progress r es) p g (group_of s g)" and limit: "limit = es_dedupSetBytes s"
    and r: "sr_item r = DataItem d" "g = sr_logGroupId r" and sorted: "history_until (dr_commit_ts d) h"
    and absorbed: "absorbed g (dr_commit_ts d) (keys_of (dr_txn_number d) fs) s s1"
    and T: "history_until T (h @ [(r, es @ fs)])"
  shows "dedup_view T (group_of s1 g) = fold_seen limit (history_keys T g (h @ [(r, es @ fs)])) ({}, 0)"
proof -
  have T': "history_until T (h @ in_progress r es)" using T by (simp add: in_progress_def)
  then have view: "dedup_view T (group_of s g) = fold_seen limit (history_keys T g (h @ in_progress r es)) ({}, 0)"
    using old by (simp add: group_inv_def)
  show ?thesis
  proof (cases "T = dr_commit_ts d")
    case True
    then show ?thesis
      using view absorbed r limit
      by (cases "es = []") (simp_all add: change_keys_def keys_of_def absorbed_def in_progress_def)
  next
    case False
    then have later: "dr_commit_ts d < T" using T r by (auto simp: sr_timestamp_def)
    then have none: "history_keys T g (h @ [(r, es @ fs)]) = []" "history_keys T g (h @ in_progress r es) = []"
      using history_keys_later [OF sorted] r by (auto simp: change_keys_def in_progress_def)
    then show ?thesis
      using view absorbed False by (cases "fs = []") (simp_all add: absorbed_def keys_of_def dedup_view_def)
  qed
qed

lemma absorbed_moved:
  assumes inv: "groups_inv (h @ in_progress r es) (progress_at r es) s" and r: "sr_item r = DataItem d"
    and sorted: "history_until (dr_commit_ts d) h"
    and absorbed: "absorbed (sr_logGroupId r) (dr_commit_ts d) (keys_of (dr_txn_number d) fs) s s1"
    and c: "ec_group c = sr_logGroupId r" "ec_key c = dataKey d"
    and e: "case e of None \<Rightarrow> p = None | Some x \<Rightarrow> p = Some (sr_logGroupId r, be_section x, be_entry x)"
  shows "groups_inv (h @ [(r, es @ fs)]) p (move_cursor c e s1)"
proof -
  note shell = absorbed [unfolded absorbed_def]
  have "group_inv (es_dedupSetBytes s) (h @ [(r, es @ fs)]) p g (group_of (move_cursor c e s1) g)" for g
  proof -
    have old: "group_inv (es_dedupSetBytes s) (h @ in_progress r es) (progress_at r es) g (group_of s g)"
      using inv by (simp add: groups_inv_def)
    show ?thesis
    proof (cases "g = sr_logGroupId r")
      case False
      have "group_of (move_cursor c e s1) g = group_of s g"
        using False shell c by (simp add: move_cursor_def Let_def)
      then show ?thesis
        using False old e
        by (cases "es = []")
          (auto simp: group_inv_def item_data_keys_def item_ddl_keys_def change_keys_def in_progress_def progress_at_def r
            split: option.splits)
    next
      case True
      let ?x = "group_of (move_cursor c e s1) g"
      have x: "eg_skip ?x = None" "eg_hasCursor ?x" "eg_dataKey ?x = dataKey d" "eg_ddlKey ?x = eg_ddlKey (group_of s g)"
        "\<And>T. dedup_view T ?x = dedup_view T (group_of s1 g)"
        "eg_partial ?x = (e \<noteq> None)" "\<And>y. e = Some y \<Longrightarrow> eg_section ?x = be_section y \<and> eg_entry ?x = be_entry y"
        using c old shell True by (auto simp: move_cursor_def Let_def group_inv_def same_cursor_def split: option.splits)
      note dedup = absorbed_dedup [OF old refl r True sorted absorbed [folded True]]
      show ?thesis
        using x True old r dedup e
        by (cases "es = []")
          (auto simp: group_inv_def item_data_keys_def item_ddl_keys_def in_progress_def split: option.splits)
    qed
  qed
  moreover have "om_inv (es_groups (move_cursor c e s1))"
    using inv shell by (simp add: groups_inv_def same_shell_def move_cursor_def Let_def om_inv_om_put)
  ultimately show ?thesis using shell by (simp add: groups_inv_def same_shell_def)
qed

lemma started_ddl:
  assumes inv: "groups_inv h None s" and r: "sr_item r = DdlItem d"
  shows "groups_inv (h @ [(r, [])]) None (start_ddl (sr_logGroupId r) d (untouched (sr_logGroupId r) (sr_item r) s))"
proof -
  let ?s = "untouched (sr_logGroupId r) (sr_item r) s"
  have g: "group_inv (es_dedupSetBytes s) h None g (group_of s g)" for g using inv by (simp add: groups_inv_def)
  have s: "group_of ?s = group_of s" "om_inv (es_groups ?s)" "es_dedupSetBytes ?s = es_dedupSetBytes s"
    using untouched_none [of s] inv g by (simp_all add: groups_inv_def group_inv_def untouched_def Let_def)
  then show ?thesis
    using g by (auto simp: groups_inv_def start_ddl_def om_inv_om_put group_inv_def item_data_keys_def item_ddl_keys_def
        change_keys_def r)
qed

section \<open>What a stream has done\<close>

definition ddl_change_of :: "event_env \<Rightarrow> source_record \<Rightarrow> ddl_change option result" where
  "ddl_change_of env r = (case sr_item r of DataItem d \<Rightarrow> Inr None
     | DdlItem d \<Rightarrow> decodeCdcDdl (env_maxDepth env) (dd_schema_op d))"

text \<open>The record that ends a stream: a drop of the watched collection.\<close>

definition ends_stream :: "event_env \<Rightarrow> stream_scope \<Rightarrow> source_record \<Rightarrow> bool" where
  "ends_stream env scope r = (case ddl_change_of env r of
       Inr (Some ch) \<Rightarrow> dc_dropsCollection ch \<and> scope_isCollection scope (dc_ns ch) | _ \<Rightarrow> False)"

definition complete :: "event_env \<Rightarrow> stream_scope \<Rightarrow> begun \<Rightarrow> bool" where
  "complete env scope b = (case sr_item (fst b) of
       DataItem d \<Rightarrow> \<exists>d'. dec_run (make_decoder (dr_blob d) scope) (snd b) d' \<and> blob_next d' = Inr None
     | DdlItem d \<Rightarrow> snd b = [] \<and> (\<exists>ch. ddl_change_of env (fst b) = Inr ch))"

definition current_of :: "stream_scope \<Rightarrow> begun \<Rightarrow> current_record \<Rightarrow> bool" where
  "current_of scope b c \<longleftrightarrow> ec_group c = sr_logGroupId (fst b) \<and> ec_consumeThrough c = None \<and>
     (\<exists>d. sr_item (fst b) = DataItem d \<and> ec_key c = dataKey d \<and> ec_ts c = dr_commit_ts d \<and> ec_txn c = dr_txn_number d \<and>
       dec_run (make_decoder (dr_blob d) scope) (snd b) (ec_decoder c))"

definition begun_records :: "begun list \<Rightarrow> begun option \<Rightarrow> source_record list" where
  "begun_records h cur = map fst h @ (case cur of None \<Rightarrow> [] | Some b \<Rightarrow> [fst b])"

definition current_inv :: "begun list \<Rightarrow> begun option \<Rightarrow> event_stream \<Rightarrow> bool" where
  "current_inv h cur s = (case cur of
       None \<Rightarrow> es_current s = None \<and> groups_inv h None s
     | Some b \<Rightarrow> (\<exists>c. es_current s = Some c \<and> current_of (es_scope s) b c) \<and>
         groups_inv (h @ in_progress (fst b) (snd b)) (progress_at (fst b) (snd b)) s)"

definition pending_inv :: "event_env \<Rightarrow> begun list \<Rightarrow> begun option \<Rightarrow> event_stream \<Rightarrow> bool" where
  "pending_inv env h cur s = (case es_pendingInvalidate s of
       None \<Rightarrow> \<forall>b \<in> set h. \<not> ends_stream env (es_scope s) (fst b)
     | Some ivd \<Rightarrow> cur = None \<and> (\<exists>h0 r ch es. h = h0 @ [(r, [])] \<and> (\<forall>b \<in> set h0. \<not> ends_stream env (es_scope s) (fst b)) \<and>
         ends_stream env (es_scope s) r \<and> ddl_change_of env r = Inr (Some ch) \<and>
         invalidateEvent (mkToken (sr_timestamp r) kInvalidate es) (dc_ns ch) = Inr ivd))"

definition traced :: "event_env \<Rightarrow> begun list \<Rightarrow> begun option \<Rightarrow> event_stream \<Rightarrow> bool" where
  "traced env h cur s \<longleftrightarrow> list_all (complete env (es_scope s)) h \<and> current_inv h cur s \<and> pending_inv env h cur s \<and>
     \<not> es_invalidated s"

lemma traced_new: "traced env [] None (make_stream scope limit)"
  using groups_inv_new [of scope limit]
  by (simp add: traced_def current_inv_def pending_inv_def make_stream_def)

lemma traced_update [simp]:
  "traced env h cur (s\<lparr>es_openingToken := t\<rparr>) = traced env h cur s" "traced env h cur (s\<lparr>es_stats := st\<rparr>) = traced env h cur s"
  by (simp_all add: traced_def current_inv_def pending_inv_def split: option.splits)

text \<open>The token of an event: the position of the stream that returned it.\<close>

definition token_of :: "event_stream \<Rightarrow> u64 \<Rightarrow> bson_obj \<Rightarrow> bool" where
  "token_of s T event \<longleftrightarrow> (\<exists>tok. toBSON (mkToken T kEvent (es_entries s (T - 1))) = Inr tok \<and>
     getField event (bstr ''_id'') = Some (BObject tok))"

definition reported :: "begun list \<Rightarrow> begun option \<Rightarrow> event_stream \<Rightarrow> bson_obj option \<Rightarrow> bool" where
  "reported h cur s event = (case event of None \<Rightarrow> True
     | Some ev \<Rightarrow> begun_records h cur \<noteq> [] \<and> token_of s (sr_timestamp (last (begun_records h cur))) ev \<and>
         (\<forall>b. cur = Some b \<longrightarrow> snd b \<noteq> []))"

lemma es_entries_update [simp]:
  "es_entries (s\<lparr>es_current := c\<rparr>) t = es_entries s t" "es_entries (s\<lparr>es_pendingInvalidate := p\<rparr>) t = es_entries s t"
  "es_entries (s\<lparr>es_stats := st\<rparr>) t = es_entries s t"
  by (simp_all add: es_entries_def)

lemma es_event_token: "es_event env s c e = Inr ev \<Longrightarrow> token_of s (ec_ts c) ev"
  by (auto simp: es_event_def token_of_def Let_def)

text \<open>A collection in a database that no stream reports is not watched.\<close>

definition watchable :: "stream_scope \<Rightarrow> bool" where
  "watchable scope \<longleftrightarrow> (sc_kind scope = kCollection \<longrightarrow> \<not> isExcludedDatabase (databaseOf (sc_target scope)))"

lemma watchable_includes: "watchable scope \<Longrightarrow> scope_isCollection scope ns \<Longrightarrow> scope_includes scope ns"
  by (simp add: watchable_def scope_isCollection_def scope_includes_def Let_def)

lemma start_ddl_fields [simp]:
  "es_scope (start_ddl g d s) = es_scope s" "es_dedupSetBytes (start_ddl g d s) = es_dedupSetBytes s"
  "es_current (start_ddl g d s) = es_current s" "es_pendingInvalidate (start_ddl g d s) = es_pendingInvalidate s"
  "es_invalidated (start_ddl g d s) = es_invalidated s"
  by (simp_all add: start_ddl_def)

lemma untouched_fields [simp]:
  "es_scope (untouched g i s) = es_scope s" "es_dedupSetBytes (untouched g i s) = es_dedupSetBytes s"
  "es_current (untouched g i s) = es_current s" "es_pendingInvalidate (untouched g i s) = es_pendingInvalidate s"
  "es_invalidated (untouched g i s) = es_invalidated s"
  by (simp_all add: untouched_def Let_def)

lemma drops_ends:
  "ddl_change_of env r = Inr change \<Longrightarrow> dropsWatchedCollection s change = ends_stream env (es_scope s) r"
  by (simp add: dropsWatchedCollection_def ends_stream_def split: option.splits)

lemma report_traced:
  assumes "reportDdl ts ch s = Inr (ev, s1)" "list_all (complete env (es_scope s)) (h @ [(r, [])])"
    and "groups_inv (h @ [(r, [])]) None s" "\<forall>b \<in> set h. \<not> ends_stream env (es_scope s) (fst b)"
    and "es_current s = None" "es_pendingInvalidate s = None" "\<not> es_invalidated s"
    and "ddl_change_of env r = Inr (Some ch)" "ts = sr_timestamp r"
  shows "traced env (h @ [(r, [])]) None s1 \<and> reported (h @ [(r, [])]) None s1 ev"
proof (cases "dropsWatchedCollection s (Some ch)")
  case True
  then obtain ivd where "invalidateEvent (mkToken ts kInvalidate (es_entries s (ts - 1))) (dc_ns ch) = Inr ivd"
    "s1 = s\<lparr>es_pendingInvalidate := Some ivd\<rparr>"
    using assms(1) by (auto simp: reportDdl_def Let_def)
  then show ?thesis
    using assms True drops_ends [OF assms(8), of s]
    by (auto simp: reportDdl_def Let_def traced_def current_inv_def pending_inv_def reported_def begun_records_def token_of_def)
next
  case False
  then show ?thesis
    using assms drops_ends [OF assms(8), of s]
    by (auto simp: reportDdl_def Let_def traced_def current_inv_def pending_inv_def reported_def begun_records_def token_of_def)
qed

lemma ddl_traced:
  assumes tr: "traced env h None s" and idle: "es_pendingInvalidate s = None" and scope: "watchable (es_scope s)"
    and step: "es_begin env r s = Inr (ev, s1)" and r: "sr_item r = DdlItem d"
  shows "traced env (h @ [(r, [])]) None s1 \<and> reported (h @ [(r, [])]) None s1 ev"
proof -
  let ?s = "start_ddl (sr_logGroupId r) d (untouched (sr_logGroupId r) (sr_item r) s)"
  have inv: "groups_inv h None s" "es_current s = None" using tr by (simp_all add: traced_def current_inv_def)
  then have "eg_skip (group_of s (sr_logGroupId r)) = None" by (simp add: groups_inv_def group_inv_def)
  then have step': "ddlEvent env (sr_timestamp r) d ?s = Inr (ev, s1)"
    using step es_begin_past [of s r env] r by (simp add: sr_timestamp_def)
  have ends: "\<forall>b \<in> set h. \<not> ends_stream env (es_scope s) (fst b)" using tr idle by (simp add: traced_def pending_inv_def)
  obtain change where ch: "ddl_change_of env r = Inr change" using step' r by (auto simp: ddlEvent_def ddl_change_of_def)
  have all: "list_all (complete env (es_scope s)) (h @ [(r, [])])"
    using tr ch r by (simp add: traced_def complete_def)
  have out: "traced env (h @ [(r, [])]) None ?s \<and> reported (h @ [(r, [])]) None ?s None" if "\<not> ends_stream env (es_scope s) r"
    using that all started_ddl [OF inv(1) r] inv(2) ends tr idle
    by (simp add: traced_def current_inv_def pending_inv_def reported_def)
  show ?thesis
  proof (cases "\<exists>c. change = Some c \<and> scope_includes (es_scope s) (dc_ns c)")
    case True
    then obtain c where "change = Some c" "reportDdl (sr_timestamp r) c ?s = Inr (ev, s1)"
      using step' ch r by (auto simp: ddlEvent_def ddl_change_of_def)
    then show ?thesis
      using report_traced [of "sr_timestamp r" c ?s ev s1 env h r] all started_ddl [OF inv(1) r] inv(2) ends ch tr idle
      by (simp add: traced_def)
  next
    case False
    then have "\<not> ends_stream env (es_scope s) r"
      using watchable_includes [OF scope] ch by (auto simp: ends_stream_def split: option.splits)
    moreover have "ev = None" "s1 = ?s"
      using step' ch r False by (auto simp: ddlEvent_def ddl_change_of_def split: option.splits)
    ultimately show ?thesis using out by simp
  qed
qed

lemma data_traced:
  assumes tr: "traced env h None s" and idle: "es_pendingInvalidate s = None"
    and step: "es_begin env r s = Inr (ev, s1)" and r: "sr_item r = DataItem d"
  shows "ev = None \<and> traced env h (Some (r, [])) s1"
proof -
  let ?s = "untouched (sr_logGroupId r) (sr_item r) s"
  have inv: "groups_inv h None s" "es_current s = None" using tr by (simp_all add: traced_def current_inv_def)
  then have skip: "eg_skip (group_of s (sr_logGroupId r)) = None" by (simp add: groups_inv_def group_inv_def)
  then have s1: "ev = None" "s1 = start_data (sr_logGroupId r) d ?s"
    using step es_begin_past [of s r env] r by simp_all
  have "groups_inv h None ?s"
    using inv untouched_none [OF skip] by (simp add: groups_inv_def)
  then show ?thesis
    using tr idle r
    by (simp add: s1 start_data_def traced_def current_inv_def pending_inv_def current_of_def in_progress_def progress_at_def)
qed

lemma current_traced:
  assumes tr: "traced env h (Some (r, es)) s" and c: "es_current s = Some c" and step: "produce_next c s = Inr (found, c1, s1)"
    and sorted: "history_until (sr_timestamp r) h"
  shows "\<exists>fs. case found of
      Some e \<Rightarrow> fs \<noteq> [] \<and> ec_ts c1 = sr_timestamp r \<and> traced env h (Some (r, es @ fs)) ((move_cursor c1 (Some e) s1)\<lparr>es_current := Some c1\<rparr>)
    | None \<Rightarrow> traced env (h @ [(r, es @ fs)]) None ((move_cursor c1 None s1)\<lparr>es_current := None\<rparr>)"
proof -
  obtain d where d: "sr_item r = DataItem d" "ec_key c = dataKey d" "ec_ts c = dr_commit_ts d" "ec_txn c = dr_txn_number d"
      "dec_run (make_decoder (dr_blob d) (es_scope s)) es (ec_decoder c)" "ec_group c = sr_logGroupId r" "ec_consumeThrough c = None"
    and inv: "groups_inv (h @ in_progress r es) (progress_at r es) s"
    using tr c by (auto simp: traced_def current_inv_def current_of_def)
  obtain fs where fs: "dec_run (ec_decoder c) fs (ec_decoder c1)" "c1 = c\<lparr>ec_decoder := ec_decoder c1\<rparr>"
      "absorbed (ec_group c) (ec_ts c) (keys_of (ec_txn c) fs) s s1"
      "case found of None \<Rightarrow> blob_next (ec_decoder c1) = Inr None | Some e \<Rightarrow> fs \<noteq> [] \<and> last fs = e"
    using produce_next_run [OF step] by blast
  have c1: "ec_group c1 = sr_logGroupId r" "ec_key c1 = dataKey d" "ec_ts c1 = dr_commit_ts d" "ec_txn c1 = dr_txn_number d"
    "ec_consumeThrough c1 = None"
    using fs(2) d by (metis current_record.select_convs current_record.surjective current_record.update_convs(5))+
  have s1: "es_scope s1 = es_scope s" "es_pendingInvalidate s1 = es_pendingInvalidate s" "es_invalidated s1 = es_invalidated s"
    using fs(3) by (simp_all add: absorbed_def same_shell_def)
  note moved = absorbed_moved [OF inv d(1) _ fs(3) [unfolded d] c1(1,2)]
  have run: "dec_run (make_decoder (dr_blob d) (es_scope s)) (es @ fs) (ec_decoder c1)"
    using d(5) fs(1) dec_run_append by blast
  have ends: "\<not> ends_stream env sc r" for sc by (simp add: ends_stream_def ddl_change_of_def d)
  show ?thesis
  proof (cases found)
    case None
    have "groups_inv (h @ [(r, es @ fs)]) None (move_cursor c1 None s1)"
      by (rule moved) (use sorted d in \<open>simp_all add: sr_timestamp_def\<close>)
    then show ?thesis
      using None tr d run fs(4) s1 ends
      by (intro exI [of _ fs]) (auto simp: traced_def current_inv_def pending_inv_def complete_def split: option.splits)
  next
    case (Some e)
    have "groups_inv (h @ [(r, es @ fs)]) (progress_at r (es @ fs)) (move_cursor c1 (Some e) s1)"
      by (rule moved) (use sorted d fs(4) Some in \<open>auto simp: sr_timestamp_def progress_at_def\<close>)
    then show ?thesis
      using Some tr d run fs(4) s1 c1
      by (intro exI [of _ fs])
        (auto simp: traced_def current_inv_def pending_inv_def current_of_def in_progress_def sr_timestamp_def split: option.splits)
  qed
qed

section \<open>Pulling\<close>

lemma begin_traced:
  assumes "traced env h None s" "es_pendingInvalidate s = None" "watchable (es_scope s)" "es_begin env r s = Inr (ev, s1)"
  obtains h1 cur1 where "traced env h1 cur1 s1" "reported h1 cur1 s1 ev" "begun_records h1 cur1 = map fst h @ [r]"
proof (cases "sr_item r")
  case (DataItem d)
  then show ?thesis
    using data_traced [OF assms(1,2,4) DataItem] that [of h "Some (r, [])"] by (simp add: reported_def begun_records_def)
next
  case (DdlItem d)
  then show ?thesis
    using ddl_traced [OF assms DdlItem] that [of "h @ [(r, [])]" None] by (simp add: begun_records_def)
qed

lemma loop_traced:
  assumes "es_next_loop env s rs = Inr (ev, s1, rs1)" "traced env h cur s" "watchable (es_scope s)"
    and "sorted (map sr_timestamp (begun_records h cur @ rs))" "\<not> es_invalidated s1"
  shows "\<exists>h1 cur1. traced env h1 cur1 s1 \<and> begun_records h1 cur1 @ rs1 = begun_records h cur @ rs \<and>
    reported h1 cur1 s1 ev"
  using assms
proof (induction env s rs arbitrary: h cur rule: es_next_loop.induct)
  case (1 env s rs)
  note prems = "1.prems"
  have live: "\<not> es_invalidated s" using prems(2) by (simp add: traced_def)
  have idle: "es_pendingInvalidate s = None"
    using prems(1,5) live by (subst (asm) es_next_loop.simps) (auto split: option.splits bson.splits)
  show ?case
  proof (cases cur)
    case (Some b)
    obtain r es where b: "b = (r, es)" by (cases b)
    obtain c where c: "es_current s = Some c" using prems(2) Some by (auto simp: traced_def current_inv_def)
    obtain found c1 s2 where produced: "produce_next c s = Inr (found, c1, s2)"
      and rest: "after_produce env (found, c1, s2) rs = Inr (ev, s1, rs1)"
      using prems(1) unfolding es_next_loop_current [OF live idle c] after_produce_def by auto
    have "history_until (sr_timestamp r) h"
      using prems(4) Some b by (auto simp: history_until_def begun_records_def sorted_append)
    then obtain fs where fs: "case found of
        Some e \<Rightarrow> fs \<noteq> [] \<and> ec_ts c1 = sr_timestamp r \<and> traced env h (Some (r, es @ fs)) ((move_cursor c1 (Some e) s2)\<lparr>es_current := Some c1\<rparr>)
      | None \<Rightarrow> traced env (h @ [(r, es @ fs)]) None ((move_cursor c1 None s2)\<lparr>es_current := None\<rparr>)"
      using current_traced [OF prems(2) [unfolded Some b] c produced] by blast
    have same: "es_scope s2 = es_scope s" using stream_settings.produced [OF produced refl] by (simp add: settings_def)
    show ?thesis
    proof (cases found)
      case None
      then have "es_next_loop env ((move_cursor c1 None s2)\<lparr>es_current := None\<rparr>) rs = Inr (ev, s1, rs1)"
        using rest by (simp add: after_produce_def)
      then show ?thesis
        using "1.IH"(2) [OF live idle c produced [unfolded None] refl refl refl, of "h @ [(r, es @ fs)]" None] fs prems(3-5) same Some b None
        by (simp add: begun_records_def)
    next
      case found: (Some e)
      then obtain event where event: "es_event env (move_cursor c1 (Some e) s2) c1 e = Inr event" and "ev = Some event"
          "s1 = (move_cursor c1 (Some e) s2)\<lparr>es_current := Some c1\<rparr>" "rs1 = rs"
        using rest by (auto simp: after_produce_def Let_def)
      then show ?thesis
        using fs same Some b found es_event_token [OF event]
        by (intro exI [of _ h] exI [of _ "Some (r, es @ fs)"])
          (auto simp: begun_records_def reported_def token_of_def)
    qed
  next
    case None
    have c: "es_current s = None" and skip: "eg_skip (group_of s g) = None" for g
      using prems(2) None by (simp_all add: traced_def current_inv_def groups_inv_def group_inv_def)
    show ?thesis
    proof (cases rs)
      case Nil
      then show ?thesis
        using prems(1,2) es_next_loop_empty [OF live idle c] None
        by (intro exI [of _ h] exI [of _ None]) (simp add: reported_def)
    next
      case (Cons r rest)
      obtain event s2 where step: "es_begin env r s = Inr (event, s2)"
        and more: "(case event of Some ev \<Rightarrow> Inr (Some ev, s2, rest) | None \<Rightarrow> es_next_loop env s2 rest) = Inr (ev, s1, rs1)"
        using prems(1) unfolding Cons es_next_loop_record [OF live idle c] by auto
      have same: "es_scope s2 = es_scope s" using stream_settings.begun [OF step refl] by (simp add: settings_def)
      obtain h2 cur2 where tr2: "traced env h2 cur2 s2" "reported h2 cur2 s2 event" "begun_records h2 cur2 = begun_records h cur @ [r]"
        using begin_traced [OF prems(2) [unfolded None] idle prems(3) step] None by (auto simp: begun_records_def)
      show ?thesis
      proof (cases event)
        case None
        then show ?thesis
          using "1.IH"(1) [OF live idle c Cons step [unfolded None] refl refl, of h2 cur2] more tr2 prems(3-5) same Cons by simp
      next
        case (Some e)
        then show ?thesis using more tr2 same Cons by (intro exI [of _ h2] exI [of _ cur2]) auto
      qed
    qed
  qed
qed

end
