(* ===== verification/Event_Catchup.thy ===== *)
theory Event_Catchup
  imports Event_History
begin

text \<open>
  Catching up. A stream opened at the token of an event starts again at the token's timestamp, so it
  is given records the first stream had already consumed. \<open>catching\<close> is the state of the resumed
  stream while it reads these: nothing is returned, the cursors stay at the token's positions, and
  the dedup sets fill as they had filled in the first stream. At the end the two streams are related
  by the simulation of \<open>Event_Sim\<close>.
\<close>

section \<open>The order of the log\<close>

fun item_before :: "log_item \<Rightarrow> log_item \<Rightarrow> bool" where
  "item_before (DataItem a) (DataItem b) \<longleftrightarrow> dataKey a < dataKey b"
| "item_before (DataItem a) (DdlItem b) \<longleftrightarrow> dr_commit_ts a \<le> dd_ddl_ts b"
| "item_before (DdlItem a) (DataItem b) \<longleftrightarrow> dd_ddl_ts a < dr_commit_ts b"
| "item_before (DdlItem a) (DdlItem b) \<longleftrightarrow> ddlKey a < ddlKey b"

definition record_before :: "source_record \<Rightarrow> source_record \<Rightarrow> bool" where
  "record_before a b \<longleftrightarrow> sr_timestamp a \<le> sr_timestamp b \<and>
     (sr_logGroupId a = sr_logGroupId b \<longrightarrow> item_before (sr_item a) (sr_item b))"

text \<open>Timestamps do not decrease, and each group's records come in the order of its log.\<close>

definition log_ordered :: "source_record list \<Rightarrow> bool" where
  "log_ordered rs = sorted_wrt record_before rs"

definition key_before :: "bytes \<Rightarrow> bytes \<Rightarrow> bool" where
  "key_before a b \<longleftrightarrow> a < b \<and> keyTimestamp a \<le> keyTimestamp b"

lemma item_keys_mem:
  "k \<in> set (data_keys g rs) \<longleftrightarrow> (\<exists>r \<in> set rs. \<exists>d. sr_item r = DataItem d \<and> sr_logGroupId r = g \<and> k = dataKey d)"
  "k \<in> set (ddl_keys g rs) \<longleftrightarrow> (\<exists>r \<in> set rs. \<exists>d. sr_item r = DdlItem d \<and> sr_logGroupId r = g \<and> k = ddlKey d)"
  by (force simp: data_keys_def ddl_keys_def item_data_keys_def item_ddl_keys_def split: log_item.splits if_splits)+

lemma keys_ordered:
  assumes "log_ordered rs"
  shows "sorted_wrt key_before (data_keys g rs)" "sorted_wrt key_before (ddl_keys g rs)"
proof -
  have "sorted_wrt key_before (data_keys g rs) \<and> sorted_wrt key_before (ddl_keys g rs)"
    using assms
  proof (induction rs)
    case (Cons r rs)
    then have later: "sr_timestamp r \<le> sr_timestamp q" "sr_logGroupId r = sr_logGroupId q \<Longrightarrow> item_before (sr_item r) (sr_item q)"
      if "q \<in> set rs" for q using that by (simp_all add: log_ordered_def record_before_def)
    have "key_before k q" if kq: "k \<in> set (item_data_keys g r)" "q \<in> set (data_keys g rs)" for k q
    proof -
      obtain d where "sr_item r = DataItem d" "sr_logGroupId r = g" "k = dataKey d"
        using kq(1) by (cases "sr_item r") (auto simp: item_data_keys_def split: if_splits)
      moreover obtain p e where "p \<in> set rs" "sr_item p = DataItem e" "sr_logGroupId p = g" "q = dataKey e"
        using kq(2) by (auto simp: item_keys_mem)
      ultimately show ?thesis using later [of p] by (simp add: key_before_def sr_timestamp_def)
    qed
    moreover have "key_before k q" if kq: "k \<in> set (item_ddl_keys g r)" "q \<in> set (ddl_keys g rs)" for k q
    proof -
      obtain d where "sr_item r = DdlItem d" "sr_logGroupId r = g" "k = ddlKey d"
        using kq(1) by (cases "sr_item r") (auto simp: item_ddl_keys_def split: if_splits)
      moreover obtain p e where "p \<in> set rs" "sr_item p = DdlItem e" "sr_logGroupId p = g" "q = ddlKey e"
        using kq(2) by (auto simp: item_keys_mem)
      ultimately show ?thesis using later [of p] by (simp add: key_before_def sr_timestamp_def)
    qed
    ultimately show ?case
      using Cons by (auto simp: log_ordered_def sorted_wrt_append item_data_keys_def item_ddl_keys_def split: log_item.splits)
  qed simp
  then show "sorted_wrt key_before (data_keys g rs)" "sorted_wrt key_before (ddl_keys g rs)" by blast+
qed

lemma last_key_max:
  assumes "sorted_wrt key_before ks" "k \<in> set ks"
  shows "k \<le> last_key ks" "keyTimestamp k \<le> keyTimestamp (last_key ks)" "last_key ks \<in> set ks"
  using assms by (induction ks) (auto simp: last_key_def key_before_def dest: last_in_set less_imp_le)

text \<open>The positions of a group, over the records begun up to timestamp \<open>T\<close>.\<close>

lemma data_position:
  assumes "log_ordered rs" "\<forall>r \<in> set rs. sr_timestamp r \<le> T" "r \<in> set rs" "sr_item r = DataItem d" "sr_timestamp r = T"
  shows "dataKey d \<le> last_key (data_keys (sr_logGroupId r) rs)"
    and "keyTimestamp (last_key (data_keys (sr_logGroupId r) rs)) = T"
proof -
  have k: "dataKey d \<in> set (data_keys (sr_logGroupId r) rs)" using assms(3,4) by (auto simp: item_keys_mem)
  note max = last_key_max [OF keys_ordered(1) [OF assms(1)] k]
  show "dataKey d \<le> last_key (data_keys (sr_logGroupId r) rs)" by (rule max)
  have "T \<le> keyTimestamp (last_key (data_keys (sr_logGroupId r) rs))" using max(2) assms(4,5) by (simp add: sr_timestamp_def)
  moreover have "keyTimestamp (last_key (data_keys (sr_logGroupId r) rs)) \<le> T"
    using max(3) assms(2) by (fastforce simp: item_keys_mem sr_timestamp_def)
  ultimately show "keyTimestamp (last_key (data_keys (sr_logGroupId r) rs)) = T" by simp
qed

lemma ddl_position:
  assumes "log_ordered rs" "\<forall>r \<in> set rs. sr_timestamp r \<le> T" "r \<in> set rs" "sr_item r = DdlItem d" "sr_timestamp r = T"
  shows "ddlKey d \<le> last_key (ddl_keys (sr_logGroupId r) rs)"
    and "keyTimestamp (last_key (ddl_keys (sr_logGroupId r) rs)) = T"
proof -
  have k: "ddlKey d \<in> set (ddl_keys (sr_logGroupId r) rs)" using assms(3,4) by (auto simp: item_keys_mem)
  note max = last_key_max [OF keys_ordered(2) [OF assms(1)] k]
  show "ddlKey d \<le> last_key (ddl_keys (sr_logGroupId r) rs)" by (rule max)
  have "T \<le> keyTimestamp (last_key (ddl_keys (sr_logGroupId r) rs))" using max(2) assms(4,5) by (simp add: sr_timestamp_def)
  moreover have "keyTimestamp (last_key (ddl_keys (sr_logGroupId r) rs)) \<le> T"
    using max(3) assms(2) by (fastforce simp: item_keys_mem sr_timestamp_def)
  ultimately show "keyTimestamp (last_key (ddl_keys (sr_logGroupId r) rs)) = T" by simp
qed

lemma position_until:
  assumes "\<forall>r \<in> set rs. sr_timestamp r \<le> T"
  shows "keyTimestamp (last_key (data_keys g rs)) \<le> T" "keyTimestamp (last_key (ddl_keys g rs)) \<le> T"
proof -
  have "last_key ks \<in> set ks \<or> last_key ks = []" for ks by (simp add: last_key_def)
  then show "keyTimestamp (last_key (data_keys g rs)) \<le> T" "keyTimestamp (last_key (ddl_keys g rs)) \<le> T"
    using assms by (metis item_keys_mem keyTimestamp_Nil keyTimestamp_dataKey keyTimestamp_ddlKey item_ts.simps
        sr_timestamp_def word_zero_le)+
qed

section \<open>The stream opened at the token\<close>

text \<open>The first stream right after an event at \<open>T\<close>, with the records \<open>M\<close> begun.\<close>

definition at_event :: "begun list \<Rightarrow> (u32 \<times> u32 \<times> u32) option \<Rightarrow> u64 \<Rightarrow> event_stream \<Rightarrow> bool" where
  "at_event M p T s \<longleftrightarrow> groups_inv M p s \<and> log_ordered (map fst M) \<and> history_until T M \<and> 0 < T"

definition resume_point :: "u64 \<Rightarrow> stream_group \<Rightarrow> resume_skip" where
  "resume_point T x = \<lparr>sk_ts = T, sk_dataKey = eg_dataKey x, sk_ddlKey = eg_ddlKey x,
     sk_dataAtTs = (keyTimestamp (eg_dataKey x) = T), sk_ddlAtTs = (keyTimestamp (eg_ddlKey x) = T),
     sk_atPosition = eg_partial x, sk_section = (if eg_partial x then eg_section x else 0),
     sk_entry = (if eg_partial x then eg_entry x else 0)\<rparr>"

definition resumed_group :: "u32 \<Rightarrow> stream_group \<Rightarrow> stream_group" where
  "resumed_group g x = resume_group (entry_of_group g x) new_group"

lemma at_event_group:
  assumes "at_event M p T s"
  shows "eg_hasCursor (group_of s g) \<longleftrightarrow> g \<in> sr_logGroupId ` fst ` set M"
    and "eg_dataKey (group_of s g) = last_key (data_keys g (map fst M))"
    and "eg_ddlKey (group_of s g) = last_key (ddl_keys g (map fst M))"
    and "keyTimestamp (eg_dataKey (group_of s g)) \<le> T" "keyTimestamp (eg_ddlKey (group_of s g)) \<le> T"
    and "eg_partial (group_of s g) \<longleftrightarrow> (\<exists>sec n. p = Some (g, sec, n))"
    and "p = Some (g, sec, n) \<Longrightarrow> eg_section (group_of s g) = sec \<and> eg_entry (group_of s g) = n"
    and "T \<le> T' \<Longrightarrow> dedup_view T' (group_of s g) = fold_seen (es_dedupSetBytes s) (history_keys T' g M) ({}, 0)"
    and "eg_skip (group_of s g) = None"
proof -
  have inv: "group_inv (es_dedupSetBytes s) M p g (group_of s g)" and until: "history_until T M"
    using assms by (simp_all add: at_event_def groups_inv_def)
  then have until': "history_until T' M" if "T \<le> T'" for T' using that by (auto simp: history_until_def)
  note pos = position_until [of "map fst M" T g]
  show "eg_hasCursor (group_of s g) \<longleftrightarrow> g \<in> sr_logGroupId ` fst ` set M"
    "eg_dataKey (group_of s g) = last_key (data_keys g (map fst M))"
    "eg_ddlKey (group_of s g) = last_key (ddl_keys g (map fst M))" "eg_skip (group_of s g) = None"
    "T \<le> T' \<Longrightarrow> dedup_view T' (group_of s g) = fold_seen (es_dedupSetBytes s) (history_keys T' g M) ({}, 0)"
    using inv until' by (simp_all add: group_inv_def)
  show "eg_partial (group_of s g) \<longleftrightarrow> (\<exists>sec n. p = Some (g, sec, n))"
    "p = Some (g, sec, n) \<Longrightarrow> eg_section (group_of s g) = sec \<and> eg_entry (group_of s g) = n"
    using inv by (auto simp: group_inv_def split: option.splits if_splits)
  show "keyTimestamp (eg_dataKey (group_of s g)) \<le> T" "keyTimestamp (eg_ddlKey (group_of s g)) \<le> T"
    using pos until inv by (auto simp: group_inv_def history_until_def)
qed

lemma resumed_skip:
  assumes "at_event M p T s" "cursor_beyond (T - 1) (group_of s g)"
  shows "eg_skip (resumed_group g (group_of s g)) = Some (resume_point T (group_of s g))"
proof -
  note pos = at_event_group(4,5) [where g = g, OF assms(1)]
  have "0 < T" using assms(1) by (simp add: at_event_def)
  then have "max (keyTimestamp (eg_dataKey (group_of s g))) (keyTimestamp (eg_ddlKey (group_of s g))) = T"
    using assms(2) pos by (auto simp: cursor_beyond_iff key_view_def max_def split: if_splits)
  then show ?thesis
    by (simp add: resumed_group_def resume_group_def entry_of_group_def resume_point_def Let_def)
qed

text \<open>The resumed stream after it has read the records \<open>m\<close> again: its cursors stay at the token's
  positions, and the changes of \<open>m\<close> are in its dedup sets.\<close>

definition own_key :: "resume_token \<Rightarrow> u64 \<Rightarrow> stream_group \<Rightarrow> bytes list \<Rightarrow> bytes option" where
  "own_key token T x ks = (if rt_kind token = kEvent \<and> \<not> eg_partial x \<and> keyTimestamp (eg_ddlKey x) = T \<and> eg_ddlKey x \<notin> set ks then Some (eg_ddlKey x) else None)"

definition catching :: "resume_token \<Rightarrow> u64 \<Rightarrow> event_stream \<Rightarrow> begun list \<Rightarrow> event_stream \<Rightarrow> bool" where
  "catching token T s m R \<longleftrightarrow> es_scope R = es_scope s \<and> es_dedupSetBytes R = es_dedupSetBytes s \<and> \<not> es_invalidated R \<and>
     es_openingToken R \<noteq> [] \<and> om_inv (es_groups R) \<and> history_until T m \<and>
     (\<forall>g. same_cursor (if cursor_beyond (T - 1) (group_of s g) then resumed_group g (group_of s g) else new_group) (group_of R g) \<and>
       (\<forall>T' \<ge> T. dedup_view T' (group_of R g) = fold_seen (es_dedupSetBytes s) (history_keys T' g m) ({}, 0)) \<and>
       map_of (es_ownDropKeys R) g = own_key token T (group_of s g) (ddl_keys g (map fst m))) \<and>
     (es_ownDropKeys R \<noteq> [] \<longrightarrow> es_resumedFrom R = Some token)"

lemma catching_update [simp]:
  "catching token T s m (R\<lparr>es_current := c\<rparr>) = catching token T s m R"
  "catching token T s m (R\<lparr>es_pendingInvalidate := i\<rparr>) = catching token T s m R"
  by (simp_all add: catching_def)

lemma catching_touch: "catching token T s m R \<Longrightarrow> catching token T s m (put_group g (group_of R g) R)"
  by (simp add: catching_def om_inv_om_put)

lemma catchingD:
  assumes "catching token T s m R"
  shows "es_scope R = es_scope s" "es_dedupSetBytes R = es_dedupSetBytes s" "\<not> es_invalidated R" "es_openingToken R \<noteq> []"
    "om_inv (es_groups R)" "history_until T m"
    "same_cursor (if cursor_beyond (T - 1) (group_of s g) then resumed_group g (group_of s g) else new_group) (group_of R g)"
    "T \<le> T' \<Longrightarrow> dedup_view T' (group_of R g) = fold_seen (es_dedupSetBytes s) (history_keys T' g m) ({}, 0)"
    "map_of (es_ownDropKeys R) g = own_key token T (group_of s g) (ddl_keys g (map fst m))"
    "es_ownDropKeys R \<noteq> [] \<Longrightarrow> es_resumedFrom R = Some token"
  using assms by (simp_all add: catching_def)

lemma catching_skip:
  assumes "catching token T s m R" "at_event M p T s" "cursor_beyond (T - 1) (group_of s g)"
  shows "eg_skip (group_of R g) = Some (resume_point T (group_of s g))"
proof -
  have "same_cursor (resumed_group g (group_of s g)) (group_of R g)"
    using catchingD(7) [OF assms(1), of g] assms(3) by simp
  then show ?thesis using resumed_skip [OF assms(2,3)] by (simp add: same_cursor_def)
qed

text \<open>Starting a record at the resume point's timestamp.\<close>

lemma es_begin_at:
  assumes "eg_skip (group_of R (sr_logGroupId r)) = Some k" "sk_ts k = sr_timestamp r"
  shows "es_begin env r R = (let R1 = put_group (sr_logGroupId r) (group_of R (sr_logGroupId r)) R in case sr_item r of
      DdlItem d \<Rightarrow> begin_ddl env (sr_logGroupId r) d R1
    | DataItem d \<Rightarrow> rbind (begin_data (sr_logGroupId r) d R1) (\<lambda>s1. Inr (None, s1)))"
  using assms by (simp add: es_begin_def Let_def split: log_item.split)

lemma record_beyond:
  assumes "at_event M p T s" "r \<in> fst ` set M" "sr_timestamp r = T"
  shows "cursor_beyond (T - 1) (group_of s (sr_logGroupId r))"
    and "sr_item r = DataItem d \<Longrightarrow> keyTimestamp (eg_dataKey (group_of s (sr_logGroupId r))) = T \<and>
      dataKey d \<le> eg_dataKey (group_of s (sr_logGroupId r))"
    and "sr_item r = DdlItem e \<Longrightarrow> keyTimestamp (eg_ddlKey (group_of s (sr_logGroupId r))) = T \<and>
      ddlKey e \<le> eg_ddlKey (group_of s (sr_logGroupId r))"
proof -
  let ?x = "group_of s (sr_logGroupId r)"
  note x = at_event_group [where g = "sr_logGroupId r", OF assms(1)]
  have ord: "log_ordered (map fst M)" "\<forall>r \<in> set (map fst M). sr_timestamp r \<le> T" "r \<in> set (map fst M)" "0 < T"
    using assms by (auto simp: at_event_def history_until_def)
  show data: "keyTimestamp (eg_dataKey ?x) = T \<and> dataKey d \<le> eg_dataKey ?x" if "sr_item r = DataItem d" for d
    using data_position [OF ord(1-3) that assms(3)] x(2) by simp
  show ddl: "keyTimestamp (eg_ddlKey ?x) = T \<and> ddlKey d \<le> eg_ddlKey ?x" if "sr_item r = DdlItem d" for d
    using ddl_position [OF ord(1-3) that assms(3)] x(3) by simp
  show "cursor_beyond (T - 1) ?x"
    using data ddl x(1) assms(2) ord(4) by (cases "sr_item r") (auto simp: cursor_beyond_iff key_view_def)
qed

section \<open>Reading the records again\<close>

lemma consume_all_run:
  "dec_run d es d' \<Longrightarrow> blob_next d' = Inr None \<Longrightarrow> \<exists>R1. consume_all g ts txn d R = Inr R1 \<and> absorbed g ts (keys_of txn es) R R1"
proof (induction es arbitrary: d R)
  case Nil
  then show ?case using absorbed_refl by (auto simp: consume_all.simps [of g ts txn d] keys_of_def)
next
  case (Cons e es)
  then obtain d1 where d1: "blob_next d = Inr (Some (e, d1))" "dec_run d1 es d'" by auto
  then show ?case
    using Cons.IH [OF d1(2) Cons.prems(2), of "snd (es_seen g ts (dedupKey txn e) R)"] absorbed_step
    by (auto simp: consume_all.simps [of g ts txn d] keys_of_def)
qed

text \<open>The changes of a record at \<open>T\<close> in the dedup set of its group.\<close>

lemma catching_absorbed:
  assumes R: "catching token T s m R" and r: "sr_item r = DataItem d" "sr_timestamp r = T"
    and R1: "absorbed (sr_logGroupId r) T (keys_of (dr_txn_number d) es) R R1"
  shows "catching token T s (m @ [(r, es)]) R1"
proof -
  note c = catchingD [OF R]
  note a = R1 [unfolded absorbed_def]
  have d: "dr_commit_ts d = T" using r by (simp add: sr_timestamp_def)
  have "dedup_view T' (group_of R1 g) = fold_seen (es_dedupSetBytes s) (history_keys T' g (m @ [(r, es)])) ({}, 0)"
    if T': "T \<le> T'" for T' g
  proof (cases "g = sr_logGroupId r")
    case False
    then show ?thesis using a c(8) [OF T', of g] r by (simp add: change_keys_def)
  next
    case g: True
    show ?thesis
    proof (cases "T' = T")
      case True
      then show ?thesis using a c(2) c(8) [OF order_refl, of g] g r d by (simp add: change_keys_def)
    next
      case False
      then have "history_keys T' g m = []" using history_keys_later [OF c(6)] T' by simp
      then show ?thesis
        using a c(8) [OF T', of g] False g r d
        by (cases "es = []") (simp_all add: change_keys_def keys_of_def dedup_view_def)
    qed
  qed
  moreover have "same_cursor (if cursor_beyond (T - 1) (group_of s g) then resumed_group g (group_of s g) else new_group) (group_of R1 g)" for g
    using c(7) [of g] a by (simp add: same_cursor_def)
  ultimately show ?thesis
    using c a r by (simp add: catching_def same_shell_def item_ddl_keys_def)
qed

lemma catch_data:
  assumes R: "catching token T s m R" and s: "at_event M p T s"
    and r: "(r, es) \<in> set M" "sr_timestamp r = T" "sr_item r = DataItem d"
    and complete: "complete env (es_scope s) (r, es)"
    and before: "dataKey d = eg_dataKey (group_of s (sr_logGroupId r)) \<Longrightarrow> \<not> eg_partial (group_of s (sr_logGroupId r))"
  shows "\<exists>R1. es_begin env r R = Inr (None, R1) \<and> catching token T s (m @ [(r, es)]) R1 \<and>
    es_pendingInvalidate R1 = es_pendingInvalidate R \<and> es_current R1 = es_current R"
proof -
  let ?g = "sr_logGroupId r"
  let ?R = "put_group ?g (group_of R ?g) R"
  have mem: "r \<in> fst ` set M" using r(1) by force
  note pos = record_beyond [OF s mem r(2)]
  have skip: "eg_skip (group_of R ?g) = Some (resume_point T (group_of s ?g))" using catching_skip [OF R s pos(1)] .
  have "produced_before (resume_point T (group_of s ?g)) (dataKey d)"
    using pos(2) [OF r(3)] before by (auto simp: produced_before_def resume_point_def)
  moreover obtain d' where "dec_run (make_decoder (dr_blob d) (es_scope s)) es d'" "blob_next d' = Inr None"
    using complete r(3) by (auto simp: complete_def)
  then obtain R1 where R1: "consume_all ?g (dr_commit_ts d) (dr_txn_number d) (make_decoder (dr_blob d) (es_scope s)) ?R = Inr R1"
      "absorbed ?g (dr_commit_ts d) (keys_of (dr_txn_number d) es) ?R R1"
    using consume_all_run by blast
  moreover have "sk_ts (resume_point T (group_of s ?g)) = sr_timestamp r" by (simp add: resume_point_def r(2))
  ultimately have "es_begin env r R = Inr (None, R1)"
    using es_begin_at [OF skip] r(3) skip catchingD(1) [OF R] by (simp add: begin_data_def Let_def)
  moreover have "catching token T s (m @ [(r, es)]) R1"
    using catching_absorbed [OF catching_touch [OF R] r(3,2)] R1(2) r by (simp add: sr_timestamp_def)
  ultimately show ?thesis using R1(2) by (auto simp: absorbed_def same_shell_def)
qed

lemma map_of_filter_key: "map_of (filter (\<lambda>(h, _). h \<noteq> g) m) = (map_of m)(g := None)"
  by (induction m) (auto simp: fun_eq_iff)

text \<open>A DDL record that was read before: its own-drop check, and nothing else.\<close>

lemma catching_own:
  assumes R: "catching token T s m R" and r: "sr_item r = DdlItem d" "sr_timestamp r = T"
  shows "map_of (es_ownDropKeys R) (sr_logGroupId r) \<noteq> Some (ddlKey d) \<Longrightarrow> catching token T s (m @ [(r, [])]) R"
    and "map_of (es_ownDropKeys R) (sr_logGroupId r) = Some (ddlKey d) \<Longrightarrow>
      catching token T s (m @ [(r, [])]) (R\<lparr>es_ownDropKeys := filter (\<lambda>(h, _). h \<noteq> sr_logGroupId r) (es_ownDropKeys R)\<rparr>)"
proof -
  note c = catchingD [OF R]
  have keys: "ddl_keys g (map fst (m @ [(r, [])])) = ddl_keys g (map fst m) @ (if g = sr_logGroupId r then [ddlKey d] else [])" for g
    using r by (simp add: item_ddl_keys_def)
  have data: "history_keys T' g (m @ [(r, [])]) = history_keys T' g m" for T' g
    using r by (simp add: change_keys_def)
  show "catching token T s (m @ [(r, [])]) R" if "map_of (es_ownDropKeys R) (sr_logGroupId r) \<noteq> Some (ddlKey d)"
  proof -
    have "own_key token T (group_of s g) (ddl_keys g (map fst (m @ [(r, [])]))) = own_key token T (group_of s g) (ddl_keys g (map fst m))" for g
      using that c(9) [of g] unfolding keys by (auto simp: own_key_def split: if_splits)
    then show ?thesis using c r unfolding catching_def data by simp
  qed
  show "catching token T s (m @ [(r, [])]) (R\<lparr>es_ownDropKeys := filter (\<lambda>(h, _). h \<noteq> sr_logGroupId r) (es_ownDropKeys R)\<rparr>)"
    if "map_of (es_ownDropKeys R) (sr_logGroupId r) = Some (ddlKey d)"
  proof -
    have "((map_of (es_ownDropKeys R))(sr_logGroupId r := None)) g = own_key token T (group_of s g) (ddl_keys g (map fst (m @ [(r, [])])))" for g
      using that c(9) [of g] unfolding keys by (auto simp: own_key_def split: if_splits)
    moreover have "filter P (es_ownDropKeys R) \<noteq> [] \<Longrightarrow> es_ownDropKeys R \<noteq> []" for P by auto
    ultimately show ?thesis
      using c r unfolding catching_def data by (simp del: fun_upd_apply add: map_of_filter_key)
  qed
qed

lemma begin_ddl_before:
  assumes R: "catching token T s m R" and s: "at_event M p T s"
    and r: "r \<in> fst ` set M" "sr_timestamp r = T" "sr_item r = DdlItem d"
  shows "es_begin env r R =
    rbind (skip_ddl env (sr_logGroupId r) d (put_group (sr_logGroupId r) (group_of R (sr_logGroupId r)) R)) (\<lambda>s1. Inr (None, s1))"
proof -
  note pos = record_beyond [OF s r(1,2)]
  have skip: "eg_skip (group_of R (sr_logGroupId r)) = Some (resume_point T (group_of s (sr_logGroupId r)))"
    using catching_skip [OF R s pos(1)] .
  have "sk_ts (resume_point T (group_of s (sr_logGroupId r))) = sr_timestamp r" by (simp add: resume_point_def r(2))
  from es_begin_at [OF skip this] show ?thesis
    using pos(3) [OF r(3)] skip r(3) by (simp add: begin_ddl_def Let_def resume_point_def)
qed

lemma catch_ddl:
  assumes R: "catching token T s m R" and s: "at_event M p T s"
    and r: "(r, []) \<in> set M" "sr_timestamp r = T" "sr_item r = DdlItem d"
    and complete: "complete env (es_scope s) (r, [])" and live: "\<not> ends_stream env (es_scope s) r"
  shows "\<exists>R1. es_begin env r R = Inr (None, R1) \<and> catching token T s (m @ [(r, [])]) R1 \<and>
    es_pendingInvalidate R1 = es_pendingInvalidate R \<and> es_current R1 = es_current R"
proof -
  let ?g = "sr_logGroupId r"
  let ?R = "put_group ?g (group_of R ?g) R"
  let ?own = "?R\<lparr>es_ownDropKeys := filter (\<lambda>(h, _). h \<noteq> ?g) (es_ownDropKeys R)\<rparr>"
  have mem: "r \<in> fst ` set M" using r(1) by force
  note begun = begin_ddl_before [OF R s mem r(2,3), of env]
  note own = catching_own [OF catching_touch [OF R, of ?g] r(3,2)]
  obtain ch where ch: "ddl_change_of env r = Inr ch" using complete r(3) by (auto simp: complete_def)
  have "\<not> dropsWatchedCollection ?own ch" using drops_ends [OF ch, of ?own] live catchingD(1) [OF R] by simp
  then have "skip_ddl env ?g d ?R = Inr (if map_of (es_ownDropKeys R) ?g = Some (ddlKey d) then ?own else ?R)"
    using ch r(3) by (simp add: skip_ddl_def ddl_change_of_def Let_def)
  then show ?thesis using begun own by simp
qed

text \<open>The drop the token is for leaves its invalidate.\<close>

lemma catch_own_drop:
  assumes R: "catching token T s m R" and s: "at_event (h @ [(r, [])]) None T s" and m: "set m \<subseteq> set h"
    and r: "sr_timestamp r = T" "sr_item r = DdlItem d"
    and ch: "ddl_change_of env r = Inr (Some ch)" and ends: "ends_stream env (es_scope s) r"
    and kind: "rt_kind token = kEvent"
    and ivd: "invalidateEvent (mkToken (rt_timestamp token) kInvalidate (rt_entries token)) (dc_ns ch) = Inr ivd"
  shows "\<exists>R1. es_begin env r R = Inr (None, R1\<lparr>es_pendingInvalidate := Some ivd\<rparr>) \<and> catching token T s (m @ [(r, [])]) R1 \<and>
    es_current R1 = es_current R"
proof -
  let ?g = "sr_logGroupId r"
  let ?R = "put_group ?g (group_of R ?g) R"
  let ?own = "?R\<lparr>es_ownDropKeys := filter (\<lambda>(h, _). h \<noteq> ?g) (es_ownDropKeys R)\<rparr>"
  let ?M = "h @ [(r, [])]"
  have mem: "r \<in> fst ` set ?M" by simp
  note c = catchingD [OF R]
  note x = at_event_group [where g = ?g, OF s]
  have key: "eg_ddlKey (group_of s ?g) = ddlKey d" using x(3) r(2) by (simp add: item_ddl_keys_def)
  have "sorted_wrt key_before (ddl_keys ?g (map fst ?M))"
    using s by (intro keys_ordered) (simp add: at_event_def)
  then have "ddlKey d \<notin> set (ddl_keys ?g (map fst h))"
    using r(2) by (auto simp: sorted_wrt_append key_before_def item_ddl_keys_def)
  then have "ddlKey d \<notin> set (ddl_keys ?g (map fst m))" using m by (force simp: item_keys_mem)
  then have own: "map_of (es_ownDropKeys R) ?g = Some (ddlKey d)"
    using c(9) [of ?g] key x(6) r kind by (simp add: own_key_def sr_timestamp_def)
  then have from_token: "es_resumedFrom R = Some token" using c(10) by force
  have "dropsWatchedCollection ?own (Some ch)" using drops_ends [OF ch, of ?own] ends c(1) by simp
  then have "skip_ddl env ?g d ?R = Inr (?own\<lparr>es_pendingInvalidate := Some ivd\<rparr>)"
    using ch r(2) own from_token ivd by (simp add: skip_ddl_def ddl_change_of_def Let_def)
  moreover have "catching token T s (m @ [(r, [])]) ?own"
    using catching_own(2) [OF catching_touch [OF R, of ?g] r(2,1)] own by simp
  ultimately show ?thesis
    using begin_ddl_before [OF R s mem r, of env] by (intro exI [of _ ?own]) simp
qed

definition read_before :: "event_env \<Rightarrow> u64 \<Rightarrow> event_stream \<Rightarrow> begun \<Rightarrow> bool" where
  "read_before env T s b \<longleftrightarrow> sr_timestamp (fst b) = T \<and> complete env (es_scope s) b \<and> \<not> ends_stream env (es_scope s) (fst b) \<and>
     (\<forall>d. sr_item (fst b) = DataItem d \<and> dataKey d = eg_dataKey (group_of s (sr_logGroupId (fst b))) \<longrightarrow>
       \<not> eg_partial (group_of s (sr_logGroupId (fst b))))"

lemma catch_all:
  assumes s: "at_event M p T s" and "set ms \<subseteq> set M" "\<forall>b \<in> set ms. read_before env T s b"
    and "catching token T s m R" "es_pendingInvalidate R = None" "es_current R = None"
  shows "\<exists>R1. (\<forall>rest. es_next_loop env R (map fst ms @ rest) = es_next_loop env R1 rest) \<and> catching token T s (m @ ms) R1 \<and>
    es_pendingInvalidate R1 = None \<and> es_current R1 = None"
  using assms(2-)
proof (induction ms arbitrary: m R)
  case (Cons b ms)
  obtain r es where b: "b = (r, es)" by (cases b)
  have read: "read_before env T s b" "(r, es) \<in> set M" using Cons.prems b by auto
  have "\<exists>R1. es_begin env r R = Inr (None, R1) \<and> catching token T s (m @ [b]) R1 \<and>
      es_pendingInvalidate R1 = es_pendingInvalidate R \<and> es_current R1 = es_current R"
  proof (cases "sr_item r")
    case (DataItem d)
    then show ?thesis
      using catch_data [OF Cons.prems(3) s read(2) _ DataItem] read(1) b by (simp add: read_before_def)
  next
    case (DdlItem d)
    then have "es = []" using read(1) b by (simp add: read_before_def complete_def)
    then show ?thesis
      using catch_ddl [OF Cons.prems(3) s _ _ DdlItem] read b by (simp add: read_before_def)
  qed
  then obtain R1 where R1: "es_begin env r R = Inr (None, R1)" "catching token T s (m @ [b]) R1"
      "es_pendingInvalidate R1 = None" "es_current R1 = None" using Cons.prems by auto
  have "es_next_loop env R (r # rest) = es_next_loop env R1 rest" for rest
    using es_next_loop_record [of R env r rest] R1(1) Cons.prems(4,5) catchingD(3) [OF Cons.prems(3)] by simp
  then show ?case using Cons.IH [OF _ _ R1(2-4)] Cons.prems(1,2) b by auto
qed auto

section \<open>The record in progress\<close>

lemma produce_next_skip:
  assumes "dec_run (ec_decoder c) es d" "\<forall>e \<in> set es. consumed_through c e"
  shows "\<exists>R1. produce_next c R = produce_next (c\<lparr>ec_decoder := d\<rparr>) R1 \<and>
    absorbed (ec_group c) (ec_ts c) (keys_of (ec_txn c) es) R R1"
  using assms
proof (induction es arbitrary: c R)
  case Nil
  then show ?case using absorbed_refl by (intro exI [of _ R]) (simp add: keys_of_def)
next
  case (Cons e es)
  then obtain d1 where d1: "blob_next (ec_decoder c) = Inr (Some (e, d1))" "dec_run d1 es d" by auto
  let ?c = "c\<lparr>ec_decoder := d1\<rparr>"
  let ?R = "snd (es_seen (ec_group c) (ec_ts c) (dedupKey (ec_txn c) e) R)"
  have "produce_next c R = produce_next ?c ?R"
    using d1(1) Cons.prems(2) by (simp add: produce_next.simps [of c R] Let_def)
  moreover have "\<forall>x \<in> set es. consumed_through ?c x" using Cons.prems(2) by (simp add: consumed_through_def)
  ultimately show ?case
    using Cons.IH [of ?c ?R] d1(2) absorbed_step by (fastforce simp: keys_of_def)
qed

lemma es_seen_current: "es_seen g ts key (s\<lparr>es_current := x\<rparr>) = (fst (es_seen g ts key s), (snd (es_seen g ts key s))\<lparr>es_current := x\<rparr>)"
  by (simp add: es_seen_def put_group_def Let_def split: prod.splits)

lemma produce_next_current:
  "produce_next c (s\<lparr>es_current := x\<rparr>) = rbind (produce_next c s) (\<lambda>(found, c1, s1). Inr (found, c1, s1\<lparr>es_current := x\<rparr>))"
proof (induction c s rule: produce_next.induct)
  case (1 c s)
  have swap: "z\<lparr>es_current := x, es_duplicatesSuppressed := n\<rparr> = z\<lparr>es_duplicatesSuppressed := n, es_current := x\<rparr>" for z :: event_stream and n
    by simp
  show ?case
  proof (cases "blob_next (ec_decoder c)")
    case (Inr found)
    show ?thesis
    proof (cases found)
      case (Some ed)
      obtain e d where "ed = (e, d)" by (cases ed)
      note nxt = Inr [unfolded Some this]
      let ?seen = "es_seen (ec_group c) (ec_ts c) (dedupKey (ec_txn c) e) s"
      show ?thesis
        using 1(1) [OF nxt _ refl refl refl] 1(2) [OF nxt _ refl refl refl] nxt
        by (cases "consumed_through c e"; cases "fst ?seen")
          (simp_all add: produce_next.simps [of c s] produce_next.simps [of c "s\<lparr>es_current := x\<rparr>"] Let_def es_seen_current swap)
    qed (use Inr in \<open>simp add: produce_next.simps [of c s] produce_next.simps [of c "s\<lparr>es_current := x\<rparr>"]\<close>)
  qed (simp add: produce_next.simps [of c s] produce_next.simps [of c "s\<lparr>es_current := x\<rparr>"])
qed

lemma after_produce_current: "after_produce env (found, c, s\<lparr>es_current := x\<rparr>) rs = after_produce env (found, c, s) rs"
proof -
  have "move_cursor c e (s\<lparr>es_current := x\<rparr>) = (move_cursor c e s)\<lparr>es_current := x\<rparr>" for e
    by (simp add: move_cursor_def put_group_def Let_def)
  moreover have "es_event env (z\<lparr>es_current := x\<rparr>) c e = es_event env z c e" for z e
    by (simp add: es_event_def)
  ultimately show ?thesis by (simp add: after_produce_def Let_def split: option.splits)
qed

lemma es_next_loop_produce:
  "\<not> es_invalidated s \<Longrightarrow> es_pendingInvalidate s = None \<Longrightarrow> es_current s = Some c \<Longrightarrow>
     es_next_loop env s rs = rbind (produce_next c s) (\<lambda>p. after_produce env p rs)"
  unfolding after_produce_def by (simp add: es_next_loop_current)

text \<open>A stream that still has to consume through some changes is one that has.\<close>

lemma es_next_loop_skip:
  assumes "\<not> es_invalidated R" "es_pendingInvalidate R = None" "es_current R = Some c"
    and "dec_run (ec_decoder c) es d" "\<forall>e \<in> set es. consumed_through c e"
  shows "\<exists>R1. absorbed (ec_group c) (ec_ts c) (keys_of (ec_txn c) es) R R1 \<and>
    es_next_loop env R rs = es_next_loop env (R1\<lparr>es_current := Some (c\<lparr>ec_decoder := d\<rparr>)\<rparr>) rs"
proof -
  let ?c = "c\<lparr>ec_decoder := d\<rparr>"
  obtain R1 where R1: "produce_next c R = produce_next ?c R1" "absorbed (ec_group c) (ec_ts c) (keys_of (ec_txn c) es) R R1"
    using produce_next_skip [OF assms(4,5)] by blast
  have "es_next_loop env R rs = rbind (produce_next ?c R1) (\<lambda>p. after_produce env p rs)"
    using es_next_loop_produce [OF assms(1-3)] R1(1) by simp
  also have "\<dots> = rbind (produce_next ?c (R1\<lparr>es_current := Some ?c\<rparr>)) (\<lambda>p. after_produce env p rs)"
    unfolding produce_next_current by (cases "produce_next ?c R1") (auto simp: after_produce_current)
  also have "\<dots> = es_next_loop env (R1\<lparr>es_current := Some ?c\<rparr>) rs"
    using R1(2) assms(1,2) by (intro es_next_loop_produce [symmetric]) (simp_all add: absorbed_def same_shell_def)
  finally show ?thesis using R1(2) by blast
qed

text \<open>While a data record is in progress no DDL record of its group and timestamp has come.\<close>

lemma no_ddl_yet:
  assumes s: "at_event (h @ [(r, es)]) p T s" and r: "sr_item r = DataItem d" "sr_timestamp r = T"
  shows "keyTimestamp (eg_ddlKey (group_of s (sr_logGroupId r))) \<noteq> T"
proof
  let ?k = "eg_ddlKey (group_of s (sr_logGroupId r))"
  assume at: "keyTimestamp ?k = T"
  have "last_key ks \<in> set ks" if "keyTimestamp (last_key ks) \<noteq> 0" for ks
    using that by (cases "ks = []") (auto simp: last_key_def)
  moreover have "?k = last_key (ddl_keys (sr_logGroupId r) (map fst h))"
    using at_event_group(3) [where g = "sr_logGroupId r", OF s] r(1) by (simp add: item_ddl_keys_def)
  moreover have "T \<noteq> 0" using s by (auto simp: at_event_def)
  ultimately have "?k \<in> set (ddl_keys (sr_logGroupId r) (map fst h))" using at by metis
  then obtain q e where q: "q \<in> fst ` set h" "sr_item q = DdlItem e" "sr_logGroupId q = sr_logGroupId r" "?k = ddlKey e"
    using r(1) by (auto simp: item_keys_mem image_iff)
  then have "record_before q r" using s by (auto simp: at_event_def log_ordered_def sorted_wrt_append)
  then show False using q at r by (simp add: record_before_def sr_timestamp_def)
qed

lemma catch_current:
  assumes R: "catching token T s m R" "es_pendingInvalidate R = None" "es_current R = None"
    and s: "at_event (h @ [(r, es)]) (progress_at r es) T s" and es: "es \<noteq> []"
    and r: "sr_timestamp r = T" and c: "current_of (es_scope s) (r, es) c"
    and ok: "dec_ok (make_decoder (dr_blob d) (es_scope s))" "sr_item r = DataItem d"
  shows "\<exists>R1 c1. es_next_loop env R (r # rest) = es_next_loop env (R1\<lparr>es_current := Some c1\<rparr>) rest \<and>
    catching token T s (m @ [(r, es)]) R1 \<and> es_pendingInvalidate R1 = None \<and> current_sim T c c1"
proof -
  let ?g = "sr_logGroupId r"
  let ?x = "group_of s ?g"
  let ?R = "put_group ?g (group_of R ?g) R"
  let ?p = "(be_section (last es), be_entry (last es))"
  have d: "ec_key c = dataKey d" "ec_ts c = T" "ec_txn c = dr_txn_number d" "dr_commit_ts d = T" "ec_group c = ?g" "ec_consumeThrough c = None"
      "dec_run (make_decoder (dr_blob d) (es_scope s)) es (ec_decoder c)"
    using c ok(2) r by (auto simp: current_of_def sr_timestamp_def)
  have mem: "r \<in> fst ` set (h @ [(r, es)])" by simp
  note x = at_event_group [where g = ?g, OF s]
  note pos = record_beyond [OF s mem r]
  have key: "eg_dataKey ?x = dataKey d" using x(2) ok(2) by (simp add: item_data_keys_def)
  have "keyTimestamp (eg_ddlKey ?x) \<noteq> T" by (rule no_ddl_yet [OF s ok(2) r])
  moreover have partial: "eg_partial ?x" "eg_section ?x = fst ?p" "eg_entry ?x = snd ?p"
    using x(6) x(7) [of "fst ?p" "snd ?p"] es by (auto simp: progress_at_def)
  moreover have skip: "eg_skip (group_of R ?g) = Some (resume_point T ?x)" using catching_skip [OF R(1) s pos(1)] .
  moreover define c0 where "c0 = \<lparr>ec_group = ?g, ec_key = dataKey d, ec_ts = T, ec_txn = dr_txn_number d,
      ec_decoder = make_decoder (dr_blob d) (es_scope s), ec_consumeThrough = Some ?p\<rparr>"
  ultimately have "es_begin env r R = Inr (None, ?R\<lparr>es_current := Some c0\<rparr>)"
    using es_begin_at [OF skip] r ok(2) key d(4) catchingD(1) [OF R(1)] pos(2) [OF ok(2)]
    by (simp add: begin_data_def produced_before_def resume_point_def Let_def)
  then have loop: "es_next_loop env R (r # rest) = es_next_loop env (?R\<lparr>es_current := Some c0\<rparr>) rest"
    using es_next_loop_record [of R env r rest] R catchingD(3) [OF R(1)] by simp
  have "\<forall>e \<in> set es. consumed_through c0 e"
    using dec_run_last(2) [OF d(7) ok(1) es] by (simp add: c0_def consumed_through_def)
  then obtain R1 where R1: "absorbed ?g T (keys_of (dr_txn_number d) es) (?R\<lparr>es_current := Some c0\<rparr>) R1"
      "es_next_loop env (?R\<lparr>es_current := Some c0\<rparr>) rest = es_next_loop env (R1\<lparr>es_current := Some (c0\<lparr>ec_decoder := ec_decoder c\<rparr>)\<rparr>) rest"
    using es_next_loop_skip [of "?R\<lparr>es_current := Some c0\<rparr>" c0 es "ec_decoder c" env rest] R catchingD(3) [OF R(1)] d(7)
    by (auto simp: c0_def)
  have "catching token T s (m @ [(r, es)]) R1"
    using catching_absorbed [OF _ ok(2) r R1(1)] catching_touch [OF R(1), of ?g] by simp
  moreover have "es_pendingInvalidate R1 = None" using R1(1) R(2) by (simp add: absorbed_def same_shell_def)
  moreover have "current_sim T c (c0\<lparr>ec_decoder := ec_decoder c\<rparr>)"
    using d dec_run_ok [OF d(7) ok(1)] dec_run_last(1) [OF d(7) ok(1) es]
    by (simp add: current_sim_def c0_def through_past_def length_dataKey)
  ultimately show ?thesis using loop R1(2) by auto
qed

section \<open>Caught up\<close>

lemma caught_up_group:
  assumes s: "at_event M p T s" and R: "catching token T s m R"
    and m: "\<And>T' g. T \<le> T' \<Longrightarrow> history_keys T' g m = history_keys T' g M"
    and p: "\<And>g sec n. p = Some (g, sec, n) \<Longrightarrow> cursor_beyond (T - 1) (group_of s g)"
  shows "group_sim T (group_of s g) (group_of R g)"
proof -
  let ?x = "group_of s g"
  have T: "0 < T" using s by (simp add: at_event_def)
  note x = at_event_group [where g = g, OF s]
  note c = catchingD(7,8) [where g = g, OF R]
  have views: "dedup_view T' ?x = dedup_view T' (group_of R g)" if "T \<le> T'" for T'
    using x(8) [OF that] c(2) [OF that] m [OF that] by simp
  show ?thesis
  proof (cases "cursor_beyond (T - 1) ?x")
    case True
    then have "same_cursor (resumed_group g ?x) (group_of R g)" using c(1) by simp
    then show ?thesis
      using True views T
      by (auto simp: group_sim_def same_cursor_def resumed_group_def resume_group_def entry_of_group_def Let_def cursor_beyond_iff
          split: if_splits)
  next
    case False
    have none: "key_view T (eg_dataKey ?x) = None" "key_view T (eg_ddlKey ?x) = None"
    proof -
      have "eg_dataKey ?x = [] \<and> eg_ddlKey ?x = []" if "\<not> eg_hasCursor ?x"
      proof -
        have "k \<notin> set (data_keys g (map fst M))" "k \<notin> set (ddl_keys g (map fst M))" for k
          using that x(1) by (auto simp: item_keys_mem)
        then have "data_keys g (map fst M) = []" "ddl_keys g (map fst M) = []" by (meson last_in_set)+
        then show ?thesis using x(2,3) by simp
      qed
      then show "key_view T (eg_dataKey ?x) = None" "key_view T (eg_ddlKey ?x) = None"
        using False T by (auto simp: cursor_beyond_iff key_view_def split: if_splits)
    qed
    have "\<not> eg_partial ?x" using False p x(6) by blast
    then show ?thesis
      using False views none c(1) T by (simp add: group_sim_def same_cursor_def new_group_def key_view_def)
  qed
qed

lemma groups_inv_ok:
  assumes "groups_inv M p s"
  shows "groups_ok s"
proof -
  have len: "length (last_key ks) \<le> 65535" if "\<forall>k \<in> set ks. length k \<le> 65535" for ks
    using that by (simp add: last_key_def)
  have "length (last_key (data_keys g rs)) \<le> 65535" "length (last_key (ddl_keys g rs)) \<le> 65535" for g rs
    by (intro len; auto simp: item_keys_mem length_dataKey length_ddlKey)+
  then show ?thesis using assms by (simp add: groups_ok_def groups_inv_def group_inv_def)
qed

lemma at_event_groups_ok: "at_event M p T s \<Longrightarrow> groups_ok s"
  unfolding at_event_def using groups_inv_ok by blast

lemma catching_groups_ok:
  assumes "groups_ok s" "catching token T s m R"
  shows "groups_ok R"
proof -
  have "length (eg_dataKey (group_of R g)) \<le> 65535 \<and> length (eg_ddlKey (group_of R g)) \<le> 65535" for g
    using catchingD(7) [where g = g, OF assms(2)] groups_ok_keys [OF assms(1), of g]
    by (auto simp: same_cursor_def resumed_group_def resume_group_def entry_of_group_def new_group_def Let_def split: if_splits)
  then show ?thesis using catchingD(5) [OF assms(2)] by (simp add: groups_ok_def)
qed

lemma caught_up_sim:
  assumes s: "at_event M p T s" and R: "catching token T s m R"
    and "\<And>T' g. T \<le> T' \<Longrightarrow> history_keys T' g m = history_keys T' g M"
    and "\<And>g sec n. p = Some (g, sec, n) \<Longrightarrow> cursor_beyond (T - 1) (group_of s g)"
    and "\<not> es_invalidated s" "rel_option event_sim (es_pendingInvalidate s) (es_pendingInvalidate R)"
    and "rel_option (current_sim T) (es_current s) (es_current R)"
  shows "stream_sim T s R"
  using caught_up_group [OF assms(1-4)] at_event_groups_ok [OF s] catching_groups_ok [OF at_event_groups_ok [OF s] R] assms
    catchingD(1-3) [OF R]
  by (simp add: stream_sim_def at_event_def)

text \<open>What the first stream has not begun lies past every resume point.\<close>

lemma last_key_mem: "keyTimestamp (last_key ks) \<noteq> 0 \<Longrightarrow> last_key ks \<in> set ks"
  by (cases "ks = []") (auto simp: last_key_def)

lemma unread_past:
  assumes s: "at_event M p T s" and order: "log_ordered (map fst M @ rs)" and r: "r \<in> set rs" "T \<le> sr_timestamp r"
    and beyond: "cursor_beyond (T - 1) (group_of s (sr_logGroupId r))"
  shows "past_skip (Some (resume_point T (group_of s (sr_logGroupId r)))) (sr_item r)"
proof (cases "T < sr_timestamp r")
  case True
  then show ?thesis by (simp add: past_skip_def resume_point_def sr_timestamp_def)
next
  case False
  let ?g = "sr_logGroupId r"
  note x = at_event_group(2,3) [where g = ?g, OF s]
  have T: "T \<noteq> 0" using s by (auto simp: at_event_def)
  have at: "item_ts (sr_item r) = T" using False r(2) by (simp add: sr_timestamp_def)
  have before: "item_before (sr_item q) (sr_item r)" if "q \<in> set (map fst M)" "sr_logGroupId q = ?g" for q
    using order that r(1) by (auto simp: log_ordered_def sorted_wrt_append record_before_def)
  have data: "dataKey d \<noteq> k \<and> k < dataKey d" if "k = eg_dataKey (group_of s ?g)" "keyTimestamp k = T" "sr_item r = DataItem d" for k d
    using last_key_mem [of "data_keys ?g (map fst M)"] before x(1) T that unfolding item_keys_mem by fastforce
  have ddl: "k < ddlKey d" if "k = eg_ddlKey (group_of s ?g)" "keyTimestamp k = T" "sr_item r = DdlItem d" for k d
    using last_key_mem [of "ddl_keys ?g (map fst M)"] before x(2) T that unfolding item_keys_mem by fastforce
  have none: "keyTimestamp (eg_ddlKey (group_of s ?g)) \<noteq> T" if "sr_item r = DataItem d" for d
    using last_key_mem [of "ddl_keys ?g (map fst M)"] before x(2) T that at unfolding item_keys_mem by fastforce
  have "keyTimestamp (eg_dataKey (group_of s ?g)) = T \<or> keyTimestamp (eg_ddlKey (group_of s ?g)) = T"
    using beyond at_event_group(4,5) [where g = ?g, OF s] T
    by (auto simp: cursor_beyond_iff key_view_def word_gt_0 split: if_splits)
  then show ?thesis
    using at data ddl none by (cases "sr_item r") (auto simp: past_skip_def resume_point_def)
qed

lemma caught_up_skips:
  assumes "at_event M p T s" "catching token T s m R" "log_ordered (map fst M @ rs)" "\<forall>r \<in> set rs. T \<le> sr_timestamp r"
  shows "skips_past R rs"
  unfolding skips_past_def
proof
  fix r assume r: "r \<in> set rs"
  show "past_skip (eg_skip (group_of R (sr_logGroupId r))) (sr_item r)"
  proof (cases "cursor_beyond (T - 1) (group_of s (sr_logGroupId r))")
    case True
    then show ?thesis using catching_skip [OF assms(2,1) True] unread_past [OF assms(1,3) r _ True] assms(4) r by simp
  next
    case False
    then show ?thesis using catchingD(7) [where g = "sr_logGroupId r", OF assms(2)] by (simp add: same_cursor_def new_group_def)
  qed
qed

section \<open>From the token to the first stream's position\<close>

definition moved :: "begun list \<Rightarrow> begun option \<Rightarrow> begun list" where
  "moved h cur = h @ (case cur of None \<Rightarrow> [] | Some b \<Rightarrow> [b])"

definition progress :: "begun option \<Rightarrow> (u32 \<times> u32 \<times> u32) option" where
  "progress cur = (case cur of None \<Rightarrow> None | Some b \<Rightarrow> progress_at (fst b) (snd b))"

lemma begun_moved: "begun_records h cur = map fst (moved h cur)"
  by (simp add: begun_records_def moved_def split: option.splits)

definition from_ts :: "u64 \<Rightarrow> begun list \<Rightarrow> begun list" where
  "from_ts T h = filter (\<lambda>b. T \<le> sr_timestamp (fst b)) h"

lemma from_ts_keys: "T \<le> T' \<Longrightarrow> history_keys T' g (from_ts T h) = history_keys T' g h"
  by (induction h) (auto simp: from_ts_def change_keys_def sr_timestamp_def split: log_item.splits)

lemma from_ts_simps [simp]:
  "from_ts T [] = []" "from_ts T (h @ k) = from_ts T h @ from_ts T k"
  "from_ts T (b # h) = (if T \<le> sr_timestamp (fst b) then [b] else []) @ from_ts T h"
  by (simp_all add: from_ts_def)

lemma from_ts_records: "map fst (from_ts T h) = filter (\<lambda>r. T \<le> sr_timestamp r) (map fst h)"
  by (simp add: from_ts_def filter_map comp_def)

lemma traced_at_event:
  assumes "traced env h cur s" "\<forall>b. cur = Some b \<longrightarrow> snd b \<noteq> []"
    and "log_ordered (map fst (moved h cur))" "history_until T (moved h cur)" "0 < T"
  shows "at_event (moved h cur) (progress cur) T s"
  using assms by (auto simp: at_event_def traced_def current_inv_def moved_def progress_def in_progress_def split: option.splits)

lemma progress_beyond:
  assumes "at_event (moved h cur) (progress cur) T s" "cur \<noteq> None \<longrightarrow> sr_timestamp (fst (last (moved h cur))) = T" "progress cur = Some (g, sec, n)"
  shows "cursor_beyond (T - 1) (group_of s g)"
proof -
  obtain r es where "cur = Some (r, es)" "sr_logGroupId r = g"
    using assms(3) by (auto simp: progress_def progress_at_def split: option.splits if_splits)
  then show ?thesis
    using record_beyond(1) [OF assms(1), of r] assms(2) by (auto simp: moved_def)
qed

lemma records_read_before:
  assumes tr: "traced env h cur s" and s: "at_event (moved h cur) (progress cur) T s"
    and live: "\<forall>b \<in> set k. \<not> ends_stream env (es_scope s) (fst b)" "set k \<subseteq> set h"
    and cur: "\<forall>b. cur = Some b \<longrightarrow> (\<exists>d. sr_item (fst b) = DataItem d)"
  shows "\<forall>b \<in> set (from_ts T k). read_before env T s b"
proof
  fix b assume "b \<in> set (from_ts T k)"
  then have b: "b \<in> set k" "b \<in> set h" "T \<le> sr_timestamp (fst b)" using live(2) by (auto simp: from_ts_def)
  let ?g = "sr_logGroupId (fst b)"
  have "sr_timestamp (fst b) \<le> T" using s b(2) by (auto simp: at_event_def history_until_def moved_def)
  moreover have "\<not> eg_partial (group_of s ?g)"
    if d: "sr_item (fst b) = DataItem d" "dataKey d = eg_dataKey (group_of s ?g)" for d
  proof
    assume "eg_partial (group_of s ?g)"
    then obtain r es where r: "cur = Some (r, es)" "sr_logGroupId r = ?g"
      using at_event_group(6) [where g = ?g, OF s] by (auto simp: progress_def progress_at_def split: option.splits if_splits)
    then obtain d' where d': "sr_item r = DataItem d'" using cur by auto
    have "record_before (fst b) r" using s r(1) b(2) by (auto simp: at_event_def log_ordered_def moved_def sorted_wrt_append)
    then have "dataKey d < dataKey d'" using d(1) d' r(2) by (simp add: record_before_def)
    moreover have "eg_dataKey (group_of s ?g) = dataKey d'"
      using at_event_group(2) [where g = ?g, OF s] r d' by (simp add: moved_def item_data_keys_def)
    ultimately show False using d(2) by simp
  qed
  moreover have "complete env (es_scope s) b" using tr b(2) by (auto simp: traced_def list_all_iff)
  ultimately show "read_before env T s b" using b live(1) by (auto simp: read_before_def)
qed

lemma invalidate_change:
  "invalidateEvent t ns = Inr a \<Longrightarrow> invalidateEvent t' ns = Inr b \<Longrightarrow> rt_timestamp t = rt_timestamp t' \<Longrightarrow> event_sim a b"
  by (auto simp: invalidateEvent_def event_sim_def change_of_def has_token_def)

definition caught_up :: "event_env \<Rightarrow> u64 \<Rightarrow> event_stream \<Rightarrow> event_stream \<Rightarrow> source_record list \<Rightarrow> source_record list \<Rightarrow> bool" where
  "caught_up env T s R all rs \<longleftrightarrow> (\<exists>R1. es_next_loop env R all = es_next_loop env R1 rs \<and> stream_sim T s R1 \<and> skips_past R1 rs \<and>
     es_openingToken R1 \<noteq> [])"

lemma caught_upI:
  assumes "traced env h cur s" "at_event (moved h cur) (progress cur) T s" "cur \<noteq> None \<longrightarrow> sr_timestamp (fst (last (moved h cur))) = T"
    and "log_ordered (map fst (moved h cur) @ rs)" "\<forall>r \<in> set rs. T \<le> sr_timestamp r"
    and "catching token T s (from_ts T (moved h cur)) R1"
    and "rel_option event_sim (es_pendingInvalidate s) (es_pendingInvalidate R1)" "rel_option (current_sim T) (es_current s) (es_current R1)"
    and "es_next_loop env R all = es_next_loop env R1 rs"
  shows "caught_up env T s R all rs"
proof -
  have "stream_sim T s R1"
    by (rule caught_up_sim [OF assms(2,6) from_ts_keys progress_beyond [OF assms(2,3)]])
      (use assms(1,7,8) in \<open>simp_all add: traced_def\<close>)
  then show ?thesis
    using caught_up_skips [OF assms(2,6,4,5)] assms(9) catchingD(4) [OF assms(6)] by (auto simp: caught_up_def)
qed

text \<open>After an event of which nothing is left: the record was finished, or a DDL record.\<close>

lemma catch_up_idle:
  assumes tr: "traced env h None s" "es_pendingInvalidate s = None" and s: "at_event h None T s"
    and rs: "log_ordered (map fst h @ rs)" "\<forall>r \<in> set rs. T \<le> sr_timestamp r"
    and R: "catching token T s [] R" "es_pendingInvalidate R = None" "es_current R = None"
  shows "caught_up env T s R (map fst (from_ts T h) @ rs) rs"
proof -
  have s': "at_event (moved h None) (progress None) T s" using s by (simp add: moved_def progress_def)
  have live: "\<forall>b \<in> set h. \<not> ends_stream env (es_scope s) (fst b)" using tr by (simp add: traced_def pending_inv_def)
  obtain R1 where R1: "\<And>rest. es_next_loop env R (map fst (from_ts T h) @ rest) = es_next_loop env R1 rest"
      "catching token T s (from_ts T h) R1" "es_pendingInvalidate R1 = None" "es_current R1 = None"
    using catch_all [OF s _ records_read_before [OF tr(1) s' live] R] by (auto simp: from_ts_def)
  moreover have "es_current s = None" using tr(1) by (simp add: traced_def current_inv_def)
  ultimately show ?thesis
    using caught_upI [OF tr(1) s', of rs token R1 R "map fst (from_ts T h) @ rs"] rs tr(2) by (simp add: moved_def)
qed

text \<open>After the drop of the watched collection: its invalidate is left.\<close>

lemma catch_up_pending:
  assumes tr: "traced env h None s" "es_pendingInvalidate s = Some ivd" and s: "at_event h None T s" and T: "sr_timestamp (fst (last h)) = T"
    and rs: "log_ordered (map fst h @ rs)" "\<forall>r \<in> set rs. T \<le> sr_timestamp r"
    and token: "token = mkToken T kEvent (es_entries s (T - 1))" "toBSON token = Inr tok"
    and R: "catching token T s [] R" "es_pendingInvalidate R = None" "es_current R = None"
  shows "caught_up env T s R (map fst (from_ts T h) @ rs) rs"
proof -
  have s': "at_event (moved h None) (progress None) T s" using s by (simp add: moved_def progress_def)
  obtain h0 r ch es where h: "h = h0 @ [(r, [])]" and live: "\<forall>b \<in> set h0. \<not> ends_stream env (es_scope s) (fst b)"
      and r: "ends_stream env (es_scope s) r" "ddl_change_of env r = Inr (Some ch)"
      and ivd: "invalidateEvent (mkToken (sr_timestamp r) kInvalidate es) (dc_ns ch) = Inr ivd"
    using tr by (auto simp: traced_def pending_inv_def)
  have ts: "sr_timestamp r = T" using T h by simp
  obtain d where d: "sr_item r = DdlItem d" using r by (cases "sr_item r") (simp_all add: ddl_change_of_def)
  obtain R1 where R1: "\<And>rest. es_next_loop env R (map fst (from_ts T h0) @ rest) = es_next_loop env R1 rest"
      "catching token T s (from_ts T h0) R1" "es_pendingInvalidate R1 = None" "es_current R1 = None"
    using catch_all [OF s _ records_read_before [OF tr(1) s' live] R] h by (fastforce simp: from_ts_def)
  have "\<exists>t. toBSON (mkToken T kInvalidate (es_entries s (T - 1))) = Inr t"
    using toBSON_entries [OF entries_ok [OF at_event_groups_ok [OF s]], of "T - 1" T] token by (metis Inl_Inr_False)
  then obtain ivd' where ivd': "invalidateEvent (mkToken (rt_timestamp token) kInvalidate (rt_entries token)) (dc_ns ch) = Inr ivd'"
    using ivd token(1) by (auto simp: invalidateEvent_def mkToken_def)
  obtain R2 where R2: "es_begin env r R1 = Inr (None, R2\<lparr>es_pendingInvalidate := Some ivd'\<rparr>)"
      "catching token T s (from_ts T h0 @ [(r, [])]) R2" "es_current R2 = None"
    using catch_own_drop [OF R1(2) s [unfolded h] _ ts d r(2,1) _ ivd'] R1(4) token(1) by (auto simp: from_ts_def mkToken_def)
  have "es_next_loop env R (map fst (from_ts T h) @ rs) = es_next_loop env (R2\<lparr>es_pendingInvalidate := Some ivd'\<rparr>) rs"
    using R1(1) [of "r # rs"] es_next_loop_record [of R1 env r rs] R1(3,4) catchingD(3) [OF R1(2)] R2(1) h ts by simp
  moreover have "event_sim ivd ivd'" using invalidate_change [OF ivd ivd'] ts token(1) by (simp add: mkToken_def)
  moreover have "es_current s = None" using tr(1) by (simp add: traced_def current_inv_def)
  ultimately show ?thesis
    using caught_upI [OF tr(1) s', of rs token "R2\<lparr>es_pendingInvalidate := Some ivd'\<rparr>" R "map fst (from_ts T h) @ rs"] T rs tr(2) R2 h ts
    by (simp add: moved_def)
qed

text \<open>In the middle of a record.\<close>

lemma catch_up_current:
  assumes tr: "traced env h (Some (r, es)) s" and es: "es \<noteq> []"
    and s: "at_event (h @ [(r, es)]) (progress_at r es) T s" and T: "sr_timestamp r = T"
    and rs: "log_ordered (map fst h @ r # rs)" "\<forall>r \<in> set rs. T \<le> sr_timestamp r"
    and blob: "\<forall>d. sr_item r = DataItem d \<longrightarrow> length (dr_blob d) < 2 ^ 32"
    and R: "catching token T s [] R" "es_pendingInvalidate R = None" "es_current R = None"
  shows "caught_up env T s R (map fst (from_ts T h) @ r # rs) rs"
proof -
  have s': "at_event (moved h (Some (r, es))) (progress (Some (r, es))) T s" using s by (simp add: moved_def progress_def)
  obtain c where c: "es_current s = Some c" "current_of (es_scope s) (r, es) c" using tr by (auto simp: traced_def current_inv_def)
  then obtain d where d: "sr_item r = DataItem d" by (auto simp: current_of_def)
  have idle: "es_pendingInvalidate s = None" using tr by (auto simp: traced_def pending_inv_def split: option.splits)
  have live: "\<forall>b \<in> set h. \<not> ends_stream env (es_scope s) (fst b)" using tr idle by (simp add: traced_def pending_inv_def)
  obtain R1 where R1: "\<And>rest. es_next_loop env R (map fst (from_ts T h) @ rest) = es_next_loop env R1 rest"
      "catching token T s (from_ts T h) R1" "es_pendingInvalidate R1 = None" "es_current R1 = None"
    using catch_all [OF s _ records_read_before [OF tr s' live] R] d by (fastforce simp: from_ts_def)
  have "dec_ok (make_decoder (dr_blob d) (es_scope s))" using blob d by (simp add: dec_ok_def make_decoder_def)
  from catch_current [OF R1(2-4) s es T c(2) this d, of env rs]
  obtain R2 c2 where R2: "es_next_loop env R1 (r # rs) = es_next_loop env (R2\<lparr>es_current := Some c2\<rparr>) rs"
      "catching token T s (from_ts T h @ [(r, es)]) R2" "es_pendingInvalidate R2 = None" "current_sim T c c2" by auto
  then show ?thesis
    using caught_upI [OF tr s', of rs token "R2\<lparr>es_current := Some c2\<rparr>" R "map fst (from_ts T h) @ r # rs"] T rs R1(1) [of "r # rs"] idle c(1)
    by (simp add: moved_def)
qed

end
