(* ===== verification/Event_Resume.thy ===== *)
theory Event_Resume
  imports Event_Catchup
begin

text \<open>
  Opening a stream at a token, and what resuming means: after any event but the invalidate, a second
  stream opened at the event's token and given the records from the token's timestamp on reports the
  changes the first stream goes on to report, in the same order, and fails where it fails.
\<close>

section \<open>Opening at a token\<close>

lemma entries_distinct: "om_inv (es_groups s) \<Longrightarrow> distinct (map te_logGroupId (es_entries s cov))"
  by (simp add: entries_ids)

lemma find_entry_none: "find_entry es g = None \<longleftrightarrow> g \<notin> te_logGroupId ` set es"
  by (induction es) auto

lemma entries_mem:
  assumes "om_inv (es_groups s)" "e \<in> set (es_entries s cov)"
  shows "e = entry_of_group (te_logGroupId e) (group_of s (te_logGroupId e))" "cursor_beyond cov (group_of s (te_logGroupId e))"
proof -
  obtain g x where "(g, x) \<in> set (es_groups s)" "cursor_beyond cov x" "e = entry_of_group g x"
    using assms(2) by (auto simp: es_entries_def)
  moreover from this have "group_of s g = x" "te_logGroupId e = g" using group_of_mem [OF assms(1)] by (simp_all add: entry_of_group_def)
  ultimately show "e = entry_of_group (te_logGroupId e) (group_of s (te_logGroupId e))"
    "cursor_beyond cov (group_of s (te_logGroupId e))" by simp_all
qed

lemma find_entry_some: "find_entry es g = Some e \<Longrightarrow> e \<in> set es \<and> te_logGroupId e = g"
  by (induction es g rule: find_entry.induct) (auto split: if_splits)

lemma beyond_entry:
  assumes "cursor_beyond cov (group_of s g)"
  shows "entry_of_group g (group_of s g) \<in> set (es_entries s cov)"
proof (cases "map_of (es_groups s) g")
  case None
  then show ?thesis using assms by (simp add: group_of_def new_group_def cursor_beyond_def)
next
  case (Some x)
  then show ?thesis using assms map_of_SomeD [OF Some] by (force simp: group_of_def es_entries_def)
qed

lemma entryFor_entries:
  assumes "om_inv (es_groups s)"
  shows "entryFor (mkToken T k (es_entries s cov)) g =
    (if cursor_beyond cov (group_of s g) then Some (entry_of_group g (group_of s g)) else None)"
proof (cases "find_entry (es_entries s cov) g")
  case None
  then have "\<not> cursor_beyond cov (group_of s g)"
    using imageI [OF beyond_entry [of cov s g], of te_logGroupId] by (auto simp: find_entry_none entry_of_group_def)
  then show ?thesis using None by (simp add: entryFor_def mkToken_def)
next
  case (Some e)
  then show ?thesis
    using find_entry_some [OF Some] entries_mem [OF assms, of e cov] by (auto simp: entryFor_def mkToken_def)
qed

lemma own_drop_keys_map:
  assumes "distinct (map te_logGroupId es)"
  shows "map_of (own_drop_keys T es) g = (case find_entry es g of
      Some e \<Rightarrow> if te_form e = kAfterKey \<and> keyTimestamp (te_ddlKey e) = T then Some (te_ddlKey e) else None | None \<Rightarrow> None)"
  using assms
proof (induction es)
  case (Cons e es)
  then have "find_entry es (te_logGroupId e) = None" by (simp add: find_entry_none)
  then show ?case using Cons by (auto simp: Let_def split: option.splits)
qed simp

text \<open>What a group's start timestamp is.\<close>

definition resume_start :: "resume_token \<Rightarrow> u64 \<Rightarrow> u32 \<Rightarrow> u64" where
  "resume_start token absentStart g = (case entryFor token g of None \<Rightarrow> absentStart
     | Some e \<Rightarrow> max absentStart (max (keyTimestamp (te_dataKey e)) (keyTimestamp (te_ddlKey e))))"

definition resumes :: "resume_token \<Rightarrow> u64 \<Rightarrow> u32 \<Rightarrow> bool" where
  "resumes token absentStart g = (case entryFor token g of None \<Rightarrow> False
     | Some e \<Rightarrow> absentStart \<le> max (keyTimestamp (te_dataKey e)) (keyTimestamp (te_ddlKey e)))"

lemma open_group_state:
  assumes "open_group token a g (s, src) = Inr (s1, src1)" "0 < a"
  shows "startAt g (resume_start token a g) src = Inr src1"
    and "s1 = (if resumes token a g then put_group g (resume_group (the (entryFor token g)) (group_of s g)) s else s)"
proof -
  define m where "m = (case entryFor token g of Some e \<Rightarrow> max (keyTimestamp (te_dataKey e)) (keyTimestamp (te_ddlKey e)) | None \<Rightarrow> 0)"
  have m: "resume_start token a g = max a m" "resumes token a g \<longleftrightarrow> a \<le> m"
    using assms(2) by (auto simp: resume_start_def resumes_def m_def max_def split: option.splits)
  have "open_group token a g (s, src) = (if m < a then rbind (startAt g a src) (\<lambda>src. Inr (s, src))
      else rbind (startAt g m src) (\<lambda>src. Inr (put_group g (resume_group (the (entryFor token g)) (group_of s g)) s, src)))"
    using assms(2) by (auto simp: open_group_def m_def Let_def split: option.splits)
  from this [symmetric, unfolded assms(1)] show "startAt g (resume_start token a g) src = Inr src1"
    "s1 = (if resumes token a g then put_group g (resume_group (the (entryFor token g)) (group_of s g)) s else s)"
    by (auto simp: m max_def not_less split: if_splits)
qed

lemma open_groups_state:
  assumes "open_groups token a gs (s, src) = Inr (s1, src1)" "0 < a" "om_inv (es_groups s)"
  shows "om_inv (es_groups s1)" and "s1\<lparr>es_groups := []\<rparr> = s\<lparr>es_groups := []\<rparr>"
    and "group_of s1 g = (if g \<in> set gs \<and> resumes token a g then resume_group (the (entryFor token g)) (group_of s g) else group_of s g)"
proof -
  have idem: "resume_group e (resume_group e x) = resume_group e x" for e x by (simp add: resume_group_def Let_def)
  have "om_inv (es_groups s1) \<and> s1\<lparr>es_groups := []\<rparr> = s\<lparr>es_groups := []\<rparr> \<and>
      group_of s1 g = (if g \<in> set gs \<and> resumes token a g then resume_group (the (entryFor token g)) (group_of s g) else group_of s g)"
    using assms
  proof (induction gs arbitrary: s src)
    case (Cons f gs)
    obtain s2 src2 where step: "open_group token a f (s, src) = Inr (s2, src2)" and rest: "open_groups token a gs (s2, src2) = Inr (s1, src1)"
      using Cons.prems(1) by auto
    have s2: "s2 = (if resumes token a f then put_group f (resume_group (the (entryFor token f)) (group_of s f)) s else s)"
      using open_group_state(2) [OF step Cons.prems(2)] .
    then have "om_inv (es_groups s2)" "s2\<lparr>es_groups := []\<rparr> = s\<lparr>es_groups := []\<rparr>" using Cons.prems(3) by (simp_all add: om_inv_om_put put_group_def)
    then show ?case using Cons.IH [OF rest Cons.prems(2)] s2 by (auto simp: idem)
  qed simp
  then show "om_inv (es_groups s1)" "s1\<lparr>es_groups := []\<rparr> = s\<lparr>es_groups := []\<rparr>"
    "group_of s1 g = (if g \<in> set gs \<and> resumes token a g then resume_group (the (entryFor token g)) (group_of s g) else group_of s g)"
    by blast+
qed

lemma start_in_map:
  "start_in g f gs = Inr gs' \<Longrightarrow> distinct (map sg_id gs) \<Longrightarrow> gs' = map (\<lambda>x. if sg_id x = g then start_group f x else x) gs"
proof (induction gs arbitrary: gs')
  case (Cons a gs)
  have "sg_id x \<noteq> sg_id a" if "x \<in> set gs" for x using Cons.prems(2) that by (metis distinct.simps(2) image_eqI list.map(2) list.set_map)
  then have "map (\<lambda>x. if sg_id x = sg_id a then start_group f x else x) gs = gs" by (intro map_idI) simp
  then show ?case using Cons by (auto split: if_splits)
qed simp

definition started_from :: "u64 \<Rightarrow> source_group \<Rightarrow> bool" where
  "started_from T x \<longleftrightarrow> sg_started x \<and> \<not> sg_haveContinuation x \<and> sg_fromTs x = T"

lemma open_groups_start:
  assumes "open_groups token a gs (s, src) = Inr (s1, src1)" "0 < a" "\<And>g. resume_start token a g = T"
    and "distinct (map sg_id (ss_groups src))" "\<forall>x \<in> set (ss_groups src). sg_id x \<in> set gs \<or> started_from T x"
  shows "map sg_id (ss_groups src1) = map sg_id (ss_groups src) \<and> (\<forall>x \<in> set (ss_groups src1). started_from T x)"
  using assms
proof (induction gs arbitrary: s src)
  case (Cons f gs)
  obtain s2 src2 where step: "open_group token a f (s, src) = Inr (s2, src2)" and rest: "open_groups token a gs (s2, src2) = Inr (s1, src1)"
    using Cons.prems(1) by auto
  have "startAt f T src = Inr src2" using open_group_state(1) [OF step Cons.prems(2)] Cons.prems(3) by simp
  then have groups: "ss_groups src2 = map (\<lambda>x. if sg_id x = f then start_group T x else x) (ss_groups src)"
    using start_in_map Cons.prems(4) by (auto simp: startAt_def)
  then have ids: "map sg_id (ss_groups src2) = map sg_id (ss_groups src)" by (simp add: start_group_def)
  have "\<forall>x \<in> set (ss_groups src2). sg_id x \<in> set gs \<or> started_from T x"
    using Cons.prems(5) by (auto simp: groups started_from_def start_group_def)
  then show ?case using Cons.IH [OF rest Cons.prems(2,3)] Cons.prems(4) ids by simp
qed simp

text \<open>The stream opened at the token of an event, before it has read anything.\<close>

lemma toBSON_not_empty: "toBSON token = Inr tok \<Longrightarrow> tok \<noteq> []"
  by (auto simp: toBSON_def)

text \<open>The token of an event at \<open>T\<close>, or the watermark just below \<open>T\<close>, with the positions of the stream.\<close>

definition position_token :: "u64 \<Rightarrow> event_stream \<Rightarrow> resume_token \<Rightarrow> bool" where
  "position_token T s token \<longleftrightarrow> rt_entries token = es_entries s (T - 1) \<and>
     (rt_kind token = kEvent \<and> rt_timestamp token = T \<or> rt_kind token = kWatermark \<and> rt_timestamp token = T - 1)"

lemma position_token_start: "position_token T s token \<Longrightarrow> 0 < T \<Longrightarrow> startTimestampForAbsentGroup token = Inr T"
  by (auto simp: position_token_def startTimestampForAbsentGroup_def)

lemma position_entryFor:
  assumes "om_inv (es_groups s)" "position_token T s token"
  shows "entryFor token g = (if cursor_beyond (T - 1) (group_of s g) then Some (entry_of_group g (group_of s g)) else None)"
  using entryFor_entries [OF assms(1), of T kEvent "T - 1" g] assms(2) by (simp add: entryFor_def mkToken_def position_token_def)

lemma position_start:
  assumes s: "at_event M p T s" and token: "position_token T s token"
  shows "resume_start token T g = T" and "resumes token T g \<longleftrightarrow> cursor_beyond (T - 1) (group_of s g)"
proof -
  have inv: "om_inv (es_groups s)" "0 < T" using s by (simp_all add: at_event_def groups_inv_def)
  then show "resume_start token T g = T" "resumes token T g \<longleftrightarrow> cursor_beyond (T - 1) (group_of s g)"
    using at_event_group(4,5) [where g = g, OF s]
    by (auto simp: resume_start_def resumes_def position_entryFor [OF inv(1) token] entry_of_group_def cursor_beyond_iff key_view_def max_def)
qed

lemma openAt_catching:
  assumes s: "at_event M p T s" and token: "position_token T s token"
    and "openAt token (make_stream (es_scope s) (es_dedupSetBytes s), src) = Inr (R, src1)"
    and ids: "distinct (map sg_id (ss_groups src))" "sr_logGroupId ` fst ` set M \<subseteq> sg_id ` set (ss_groups src)"
  shows "catching token T s [] R" "es_pendingInvalidate R = None" "es_current R = None"
    and "\<forall>x \<in> set (ss_groups src1). started_from T x"
proof -
  let ?own = "if rt_kind token = kEvent then own_drop_keys T (es_entries s (T - 1)) else []"
  let ?s = "(make_stream (es_scope s) (es_dedupSetBytes s))\<lparr>es_ownDropKeys := ?own, es_resumedFrom := (if ?own \<noteq> [] then Some token else None)\<rparr>"
  have T: "0 < T" and inv: "om_inv (es_groups s)" using s by (simp_all add: at_event_def groups_inv_def)
  have tk: "(if rt_kind token = kEvent then own_drop_keys (rt_timestamp token) (rt_entries token) else []) = ?own"
      "startTimestampForAbsentGroup token = Inr T" "es_openingToken (make_stream scope limit) = []" for scope limit
    using position_token_start [OF token T] token by (auto simp: position_token_def make_stream_def)
  obtain R1 tok where opened: "open_groups token T (map sg_id (ss_groups src)) (?s, src) = Inr (R1, src1)"
      and R: "toBSON token = Inr tok" "R = R1\<lparr>es_openingToken := tok\<rparr>"
    using assms(3) unfolding openAt_def Let_def fst_conv snd_conv tk by auto
  have new: "group_of ?s g = new_group" "om_inv (es_groups ?s)" for g
    by (simp_all add: make_stream_def group_of_def om_inv_def)
  note state = open_groups_state [OF opened T new(2)]
  show "\<forall>x \<in> set (ss_groups src1). started_from T x"
    using open_groups_start [OF opened T _ ids(1)] position_start(1) [OF s token] by simp
  have fields: "es_scope R1 = es_scope s" "es_dedupSetBytes R1 = es_dedupSetBytes s" "\<not> es_invalidated R1" "es_pendingInvalidate R1 = None"
      "es_current R1 = None" "es_ownDropKeys R1 = ?own" "es_resumedFrom R1 = (if ?own \<noteq> [] then Some token else None)"
    using arg_cong [OF state(2), of es_scope] arg_cong [OF state(2), of es_dedupSetBytes] arg_cong [OF state(2), of es_invalidated]
      arg_cong [OF state(2), of es_pendingInvalidate] arg_cong [OF state(2), of es_current] arg_cong [OF state(2), of es_ownDropKeys]
      arg_cong [OF state(2), of es_resumedFrom]
    by (simp_all add: make_stream_def)
  then show "es_pendingInvalidate R = None" "es_current R = None" by (simp_all add: R)
  have group: "group_of R1 g = (if cursor_beyond (T - 1) (group_of s g) then resumed_group g (group_of s g) else new_group)" for g
  proof -
    have "g \<in> set (map sg_id (ss_groups src))" if "cursor_beyond (T - 1) (group_of s g)"
      using that ids(2) at_event_group(1) [where g = g, OF s] by (auto simp: cursor_beyond_def)
    then show ?thesis
      using state(3) [of g] new position_start(2) [OF s token, of g] position_entryFor [OF inv token, of g]
      by (simp add: resumed_group_def)
  qed
  have own: "map_of ?own g = own_key token T (group_of s g) []" for g
  proof -
    have "cursor_beyond (T - 1) (group_of s g)" if "keyTimestamp (eg_ddlKey (group_of s g)) = T"
    proof -
      have "eg_ddlKey (group_of s g) \<in> set (ddl_keys g (map fst M))"
        using that T last_key_mem [of "ddl_keys g (map fst M)"] at_event_group(3) [where g = g, OF s] by force
      then have "eg_hasCursor (group_of s g)" using at_event_group(1) [where g = g, OF s] by (auto simp: item_keys_mem)
      then show ?thesis using that T by (simp add: cursor_beyond_iff key_view_def)
    qed
    then show ?thesis
      using own_drop_keys_map [OF entries_distinct [OF inv, of "T - 1"], of T g] entryFor_entries [OF inv, of T kEvent "T - 1" g]
      by (auto simp: own_key_def entryFor_def mkToken_def entry_of_group_def split: if_splits)
  qed
  show "catching token T s [] R"
    using fields group own state(1) toBSON_not_empty [OF R(1)]
    by (simp add: catching_def R same_cursor_def dedup_view_def resumed_group_def resume_group_def new_group_def Let_def
        group_of_def [of "R1\<lparr>es_openingToken := tok\<rparr>"] flip: group_of_def)
qed

section \<open>Pulling again and again\<close>

text \<open>A sequence of pulls; each has the state of the source and the clock of its time.\<close>

fun es_pulls :: "event_env \<Rightarrow> (scan_source \<times> int) list \<Rightarrow> event_stream \<Rightarrow> source_record list \<Rightarrow>
    (bson_obj option list \<times> event_stream \<times> source_record list) result" where
  "es_pulls env [] s rs = Inr ([], s, rs)"
| "es_pulls env (t # ts) s rs = rbind (es_next env (fst t) (snd t) s rs) (\<lambda>(ev, s1, rs1).
     rbind (es_pulls env ts s1 rs1) (\<lambda>(evs, s2, rs2). Inr (ev # evs, s2, rs2)))"

definition pulled_changes :: "event_env \<Rightarrow> (scan_source \<times> int) list \<Rightarrow> event_stream \<Rightarrow> source_record list \<Rightarrow>
    bson_obj option list result" where
  "pulled_changes env ts s rs = rbind (es_pulls env ts s rs) (\<lambda>(evs, _). Inr (map (map_option change_of) evs))"

context stream_invariant
begin

lemma pulls: "es_pulls env ts s rs = Inr (evs, s1, rs1) \<Longrightarrow> P s \<Longrightarrow> P s1"
  by (induction ts arbitrary: s rs evs) (auto dest: pulled)

end

lemma publishStats_same [simp]:
  "settings (publishStats src now ev s) = settings s" "traced env h cur (publishStats src now ev s) = traced env h cur s"
  "es_invalidated (publishStats src now ev s) = es_invalidated s" "es_scope (publishStats src now ev s) = es_scope s"
  "es_entries (publishStats src now ev s) t = es_entries s t" "group_of (publishStats src now ev s) = group_of s"
  "es_openingToken (publishStats src now ev s) = es_openingToken s"
  "es_dedupSetBytes (publishStats src now ev s) = es_dedupSetBytes s"
  by (simp_all add: publishStats_def settings_def Let_def)

lemma publishStats_sim: "stream_sim T s s' \<Longrightarrow> stream_sim T (publishStats src now ev s) (publishStats src' now' ev' s')"
  by (simp add: publishStats_def Let_def stream_sim_def groups_ok_def)

lemma loop_opening: "es_next_loop env s rs = Inr (ev, s1, rs1) \<Longrightarrow> es_openingToken s1 = es_openingToken s"
  using stream_settings.looped [of env s rs ev s1 rs1 "settings s"] by (simp add: settings_def)

lemma pulls_sim:
  assumes "stream_sim T s s'" "skips_past s rs" "skips_past s' rs" "records_from T rs"
    and "es_openingToken s \<noteq> []" "es_openingToken s' \<noteq> []" "length ts = length ts'"
  shows "pulled_changes env ts s rs = pulled_changes env ts' s' rs"
  using assms
proof (induction ts arbitrary: ts' s s' rs)
  case (Cons t ts)
  obtain t' ts1 where ts': "ts' = t' # ts1" "length ts = length ts1" using Cons.prems(7) by (cases ts') auto
  note loop = es_next_loop_sim [OF Cons.prems(1-4), of env]
  show ?case
  proof (cases "es_next_loop env s rs")
    case (Inl e)
    then show ?thesis using loop Cons.prems(5,6) by (auto simp: pulled_changes_def ts' es_next_def elim!: rel_sum.cases)
  next
    case (Inr a)
    obtain ev s1 rs1 where a: "a = (ev, s1, rs1)" by (cases a)
    obtain ev' s1' where b: "es_next_loop env s' rs = Inr (ev', s1', rs1)" "rel_option event_sim ev ev'" "stream_sim T s1 s1'"
        "skips_past s1 rs1" "skips_past s1' rs1" "records_from T rs1"
      using loop Inr a by (auto simp: pulled_sim_def elim!: rel_sum.cases)
    let ?s = "publishStats (fst t) (snd t) ev s1" and ?s' = "publishStats (fst t') (snd t') ev' s1'"
    have "pulled_changes env ts ?s rs1 = pulled_changes env ts1 ?s' rs1"
      using Cons.IH [of ?s ?s' rs1 ts1] publishStats_sim [OF b(3)] b(4-6) ts'(2) Cons.prems(5,6) loop_opening [OF b(1)]
        loop_opening [OF Inr [unfolded a]] by (simp add: skips_past_def)
    moreover have "map_option change_of ev = map_option change_of ev'"
      using b(2) by (auto simp: event_sim_def elim: option.rel_cases)
    moreover have "pulled_changes env (t # ts) s rs = rbind (pulled_changes env ts ?s rs1) (\<lambda>cs. Inr (map_option change_of ev # cs))"
      using Inr a Cons.prems(5) by (cases "es_pulls env ts ?s rs1") (auto simp: pulled_changes_def es_next_def)
    moreover have "pulled_changes env (t' # ts1) s' rs = rbind (pulled_changes env ts1 ?s' rs1) (\<lambda>cs. Inr (map_option change_of ev' # cs))"
      using b(1) Cons.prems(6) by (cases "es_pulls env ts1 ?s' rs1") (auto simp: pulled_changes_def es_next_def)
    ultimately show ?thesis by (simp add: ts')
  qed
qed (simp add: pulled_changes_def)

lemma pulls_invalidated: "es_pulls env ts s rs = Inr (evs, s1, rs1) \<Longrightarrow> es_invalidated s \<Longrightarrow> es_invalidated s1"
  by (induction ts arbitrary: s rs evs) (auto simp: es_next_def es_next_loop_invalidated)

lemma reported_stats [simp]: "reported h cur (publishStats src now e s) ev = reported h cur s ev"
  by (simp add: reported_def token_of_def split: option.splits)

lemma pulls_traced:
  assumes "es_pulls env ts s rs = Inr (evs, s1, rs1)" "traced env h cur s" "watchable (es_scope s)"
    and "sorted (map sr_timestamp (begun_records h cur @ rs))" "\<not> es_invalidated s1"
  shows "\<exists>h1 cur1. traced env h1 cur1 s1 \<and> begun_records h1 cur1 @ rs1 = begun_records h cur @ rs \<and> settings s1 = settings s \<and>
    (evs \<noteq> [] \<longrightarrow> reported h1 cur1 s1 (last evs))"
  using assms
proof (induction ts arbitrary: s rs evs h cur)
  case (Cons t ts)
  obtain ev s2 rs2 evs2 where loop: "es_next_loop env s rs = Inr (ev, s2, rs2)"
      and more: "es_pulls env ts (publishStats (fst t) (snd t) ev s2) rs2 = Inr (evs2, s1, rs1)" and evs: "evs = ev # evs2"
    using Cons.prems(1) by (auto simp: es_next_def)
  have "\<not> es_invalidated s2" using pulls_invalidated [OF more] Cons.prems(5) by auto
  then obtain h2 cur2 where h2: "traced env h2 cur2 s2" "begun_records h2 cur2 @ rs2 = begun_records h cur @ rs"
      "reported h2 cur2 s2 ev"
    using loop_traced [OF loop Cons.prems(2-4)] by blast
  have same: "settings s2 = settings s" using stream_settings.looped [OF loop refl] .
  then have scope: "es_scope s2 = es_scope s" by (simp add: settings_def)
  obtain h1 cur1 where h1: "traced env h1 cur1 s1" "begun_records h1 cur1 @ rs1 = begun_records h2 cur2 @ rs2" "settings s1 = settings s"
      "evs2 \<noteq> [] \<longrightarrow> reported h1 cur1 s1 (last evs2)"
    using Cons.IH [OF more, of h2 cur2] h2 scope same Cons.prems(3-5) by auto
  show ?case
  proof (cases ts)
    case Nil
    then have "s1 = publishStats (fst t) (snd t) ev s2" "rs1 = rs2" "evs = [ev]" using more evs by auto
    then show ?thesis using h2 same by (intro exI [of _ h2] exI [of _ cur2]) simp
  next
    case (Cons t1 ts1)
    then have "evs2 \<noteq> []" using more by auto
    then show ?thesis using h1 h2(2) evs by (intro exI [of _ h1] exI [of _ cur1]) simp
  qed
qed auto

lemma ordered_until: "log_ordered (map fst M) \<Longrightarrow> M \<noteq> [] \<Longrightarrow> history_until (sr_timestamp (fst (last M))) M"
  by (cases M rule: rev_cases) (auto simp: history_until_def log_ordered_def sorted_wrt_append record_before_def)

lemma resume_catches_up:
  assumes tr: "traced env h cur s" and ev: "reported h cur s (Some ev)" and T: "T = sr_timestamp (last (begun_records h cur))"
    and rs: "log_ordered (begun_records h cur @ rs)" "records_from 1 (begun_records h cur @ rs)"
    and token: "token = mkToken T kEvent (es_entries s (T - 1))"
    and opened: "openAt token (make_stream (es_scope s) (es_dedupSetBytes s), src) = Inr (R, src1)"
    and ids: "distinct (map sg_id (ss_groups src))" "sr_logGroupId ` set (begun_records h cur) \<subseteq> sg_id ` set (ss_groups src)"
  shows "caught_up env T s R (filter (\<lambda>r. T \<le> sr_timestamp r) (begun_records h cur @ rs)) rs \<and>
    es_openingToken R \<noteq> [] \<and> (\<forall>x \<in> set (ss_groups src1). started_from T x)"
proof -
  let ?M = "moved h cur"
  have M: "?M \<noteq> []" "begun_records h cur = map fst ?M" using ev by (auto simp: reported_def begun_moved)
  have last: "sr_timestamp (fst (last ?M)) = T" using T M by (simp add: last_map)
  have later: "\<forall>r \<in> set rs. T \<le> sr_timestamp r"
    using rs(1) M last_in_set [OF M(1)] last by (auto simp: log_ordered_def sorted_wrt_append record_before_def)
  have until: "history_until T ?M"
    using ordered_until [OF _ M(1)] rs(1) M(2) last by (simp add: log_ordered_def sorted_wrt_append)
  have "fst (last ?M) \<in> set (begun_records h cur @ rs)" using M last_in_set [OF M(1)] by simp
  then have "1 \<le> T" using rs(2) last unfolding records_from_def by blast
  then have pos: "0 < T" by (auto simp: word_gt_0)
  have s: "at_event ?M (progress cur) T s"
    using traced_at_event [OF tr _ _ until pos] ev rs(1) M(2) by (auto simp: reported_def log_ordered_def sorted_wrt_append)
  have "position_token T s token" by (simp add: token position_token_def mkToken_def)
  note R = openAt_catching [OF s this opened ids(1)]
  have ids': "sr_logGroupId ` fst ` set ?M \<subseteq> sg_id ` set (ss_groups src)" using ids(2) M(2) by (simp add: image_image)
  have all: "filter (\<lambda>r. T \<le> sr_timestamp r) (begun_records h cur @ rs) = map fst (from_ts T ?M) @ rs"
    using later M(2) by (simp add: from_ts_records)
  have tok: "\<exists>tok. toBSON token = Inr tok" using ev T token by (auto simp: reported_def token_of_def)
  have "caught_up env T s R (map fst (from_ts T ?M) @ rs) rs"
  proof (cases cur)
    case None
    then have s': "at_event h None T s" "log_ordered (map fst h @ rs)" "sr_timestamp (fst (last h)) = T"
      using s rs(1) M last by (simp_all add: moved_def progress_def)
    show ?thesis
    proof (cases "es_pendingInvalidate s")
      case None
      then show ?thesis
        using catch_up_idle [OF tr [unfolded \<open>cur = None\<close>] None s'(1,2) later R(1-3) [OF ids']] \<open>cur = None\<close> by (simp add: moved_def)
    next
      case (Some i)
      then show ?thesis
        using catch_up_pending [OF tr [unfolded \<open>cur = None\<close>] Some s'(1,3,2) later token _ R(1-3) [OF ids']] tok \<open>cur = None\<close>
        by (auto simp: moved_def)
    qed
  next
    case (Some b)
    obtain r es where b: "b = (r, es)" by (cases b)
    have "es \<noteq> []" using ev Some b by (auto simp: reported_def)
    moreover have "at_event (h @ [(r, es)]) (progress_at r es) T s" "log_ordered (map fst h @ r # rs)" "sr_timestamp r = T"
      using s rs(1) M last Some b by (simp_all add: moved_def progress_def)
    moreover have "\<forall>d. sr_item r = DataItem d \<longrightarrow> length (dr_blob d) < 2 ^ 32"
      using rs(2) M Some b by (auto simp: records_from_def moved_def split: log_item.splits)
    ultimately show ?thesis
      using catch_up_current [OF tr [unfolded Some b] _ _ _ _ later _ R(1-3) [OF ids']] Some b by (simp add: moved_def)
  qed
  then show ?thesis using all catchingD(4) [OF R(1) [OF ids']] R(4) [OF ids'] by simp
qed

section \<open>Properties\<close>

lemma reported_token:
  assumes "reported h cur s (Some event)" "groups_ok s" "getField event (bstr ''_id'') = Some (BObject tok)" "parse tok = Inr token"
    and "T = sr_timestamp (last (begun_records h cur))" "0 < T"
  shows "token = mkToken T kEvent (es_entries s (T - 1))"
proof -
  let ?t = "mkToken T kEvent (es_entries s (T - 1))"
  have tok: "toBSON ?t = Inr tok" using assms(1,3,5) by (auto simp: reported_def token_of_def)
  have "list_all entry_ok (es_entries s (T - 1))" using entries_ok [OF assms(2)] .
  then have "token_ok ?t"
    using toBSON_entries [of "es_entries s (T - 1)" T kEvent] tok entries_distinct [of s "T - 1"] assms(2,6)
    by (auto simp: token_ok_def mkToken_def groups_ok_def split: if_splits)
  then show ?thesis using parse_of_toBSON [of ?t] tok assms(4) by auto
qed

lemma traced_groups_ok: "traced env h cur s \<Longrightarrow> groups_ok s"
  using groups_inv_ok by (auto simp: traced_def current_inv_def split: option.splits)

lemma catches_up_pulls:
  assumes "caught_up env T s R all rs" "traced env h cur s" "es_openingToken s \<noteq> []" "es_openingToken R \<noteq> []"
    and "records_from T rs" "length ts = length ts'"
  shows "pulled_changes env ts s rs = pulled_changes env ts' R all"
proof -
  obtain R1 where R1: "es_next_loop env R all = es_next_loop env R1 rs" "stream_sim T s R1" "skips_past R1 rs" "es_openingToken R1 \<noteq> []"
    using assms(1) by (auto simp: caught_up_def)
  have "skips_past s rs"
    using assms(2) by (auto simp: skips_past_def traced_def current_inv_def groups_inv_def group_inv_def split: option.splits)
  then have "pulled_changes env ts s rs = pulled_changes env ts' R1 rs"
    using pulls_sim [OF R1(2) _ R1(3) assms(5,3) R1(4) assms(6)] by simp
  also have "\<dots> = pulled_changes env ts' R all"
    using R1(1,4) assms(4) by (cases ts') (simp_all add: pulled_changes_def es_next_def)
  finally show ?thesis .
qed


definition sample_drop :: "u64 \<Rightarrow> ddl_record" where
  "sample_drop ts = \<lparr>dd_ddl_ts = ts, dd_catalog_ts = ts, dd_txn_number = ts, dd_schema_op = sample_op 6 [] []\<rparr>"

lemma sample_drop_ts [simp]: "dd_ddl_ts (sample_drop ts) = ts"
  by (simp add: sample_drop_def)

definition sample_drop_record :: "u64 \<Rightarrow> source_record" where
  "sample_drop_record ts = \<lparr>sr_logGroupId = 1, sr_item = DdlItem (sample_drop ts)\<rparr>"

definition sample_env :: "decimal_lib \<Rightarrow> event_env" where
  "sample_env D = \<lparr>env_decimal = D, env_maxDepth = 3\<rparr>"

definition resume_source :: scan_source where
  "resume_source = \<lparr>ss_options = default_source_options,
     ss_groups = [\<lparr>sg_id = 1, sg_started = False, sg_haveContinuation = False, sg_continuation = [],
        sg_fromTs = 0, sg_arrivalCompleteTs = 0, sg_scannedTs = 0, sg_pages = [], sg_idleBackoff = 100\<rparr>],
     ss_client = make_client [1] default_client_options, ss_bufferedBytes = 0, ss_drained = False\<rparr>"

definition sample_started :: "stream_scope \<Rightarrow> bson_obj \<Rightarrow> event_stream" where
  "sample_started scope tok = start_ddl 1 (sample_drop 5) (untouched 1 (DdlItem (sample_drop 5)) ((make_stream scope 1000)\<lparr>es_openingToken := tok\<rparr>))"

definition sample_event_token :: resume_token where
  "sample_event_token = mkToken 5 kEvent [\<lparr>te_logGroupId = 1, te_form = kAfterKey, te_dataKey = [], te_ddlKey = ddlKey (sample_drop 5),
     te_section = 0, te_entry = 0\<rparr>]"

lemma sample_started_entries: "es_entries (sample_started scope tok) 4 = rt_entries sample_event_token"
  by (simp add: es_entries_def sample_started_def start_ddl_def untouched_def make_stream_def group_of_def new_group_def put_group_def
      sample_event_token_def mkToken_def entry_of_group_def cursor_beyond_def Let_def)

lemma sample_token_bson: "\<exists>tok. toBSON sample_event_token = Inr tok \<and> parse tok = Inr sample_event_token"
  by (rule parse_of_toBSON) (simp add: token_ok_def sample_event_token_def mkToken_def entry_ok_def length_ddlKey)

lemma sample_invalidate_bson: "\<exists>tok. toBSON (mkToken 5 kInvalidate (rt_entries sample_event_token)) = Inr tok"
  using parse_of_toBSON [of "mkToken 5 kInvalidate (rt_entries sample_event_token)"]
  by (auto simp: token_ok_def sample_event_token_def mkToken_def entry_ok_def length_ddlKey)

lemma sample_ddl_event:
  assumes "toBSON sample_event_token = Inr tok" "scope_includes scope (bstr ''a.b'')"
  shows "\<exists>event s1. ddlEvent (sample_env D) 5 (sample_drop 5) (sample_started scope t) = Inr (Some event, s1) \<and> \<not> es_invalidated s1 \<and>
    getField event (bstr ''_id'') = Some (BObject tok) \<and> getField event (bstr ''operationType'') = Some (BString (bstr ''drop''))"
proof -
  have "decodeCdcDdl 3 (sample_op 6 [] []) = Inr (Some (mkChange ''drop'' (bstr ''a.b'') [] True))" by code_simp
  moreover have "NamespaceString (bstr ''a.b'') = Inr (bstr ''a.b'')" by code_simp
  moreover have "es_scope (sample_started scope t) = scope" "\<not> es_invalidated (sample_started scope t)"
    by (simp_all add: sample_started_def make_stream_def)
  moreover have "mkToken 5 kEvent (es_entries (sample_started scope t) 4) = sample_event_token"
    unfolding sample_started_entries by (simp add: sample_event_token_def mkToken_def)
  moreover obtain tok' where "toBSON (mkToken 5 kInvalidate (es_entries (sample_started scope t) 4)) = Inr tok'"
    using sample_invalidate_bson unfolding sample_started_entries by blast
  ultimately show ?thesis
    using assms by (auto simp: ddlEvent_def reportDdl_def invalidateEvent_def sample_env_def sample_drop_def mkChange_def Let_def)
qed

lemma sample_opened:
  "toBSON sample_event_token = Inr tok \<Longrightarrow>
     \<exists>R src. openAt sample_event_token (make_stream scope_deployment 1000, resume_source) = Inr (R, src)"
  by (simp add: openAt_def make_stream_def startTimestampForAbsentGroup_def sample_event_token_def mkToken_def resume_source_def
      open_group_def entryFor_def startAt_def Let_def)

lemma sample_first_pull:
  assumes "openFresh (Some 3) (make_stream scope 1000) = Inr (True, s0)" "toBSON sample_event_token = Inr tok" "scope_includes scope (bstr ''a.b'')"
  shows "\<exists>event s1. es_pulls (sample_env D) [t] s0 (sample_drop_record 5 # rs) = Inr ([Some event], s1, rs) \<and> \<not> es_invalidated s1 \<and>
    getField event (bstr ''_id'') = Some (BObject tok) \<and> getField event (bstr ''operationType'') = Some (BString (bstr ''drop''))"
proof -
  obtain tok0 where s0: "s0 = (make_stream scope 1000)\<lparr>es_openingToken := tok0\<rparr>" "tok0 \<noteq> []"
    using assms(1) toBSON_not_empty by (auto simp: openFresh_def)
  obtain event s1 where event: "ddlEvent (sample_env D) 5 (sample_drop 5) (sample_started scope tok0) = Inr (Some event, s1)"
      "\<not> es_invalidated s1" "getField event (bstr ''_id'') = Some (BObject tok)"
      "getField event (bstr ''operationType'') = Some (BString (bstr ''drop''))"
    using sample_ddl_event [OF assms(2,3)] by blast
  have "eg_skip (group_of s0 1) = None" by (simp add: s0 make_stream_def group_of_def new_group_def)
  then have "es_begin (sample_env D) (sample_drop_record 5) s0 = Inr (Some event, s1)"
    using es_begin_past [of s0 "sample_drop_record 5" "sample_env D"] event(1)
    by (simp add: sample_drop_record_def sample_started_def s0)
  then have "es_next_loop (sample_env D) s0 (sample_drop_record 5 # rs) = Inr (Some event, s1, rs)"
    using es_next_loop_record [of s0] by (simp add: s0 make_stream_def)
  then show ?thesis using event s0 by (simp add: es_next_def make_stream_def)
qed

lemma sample_open_fresh: "\<exists>s0. openFresh (Some 3) (make_stream scope 1000) = Inr (True, s0)"
  using parse_of_toBSON [of "makeWatermark 3 []"] by (auto simp: token_ok_def makeWatermark_def openFresh_def make_stream_def)


end
