(* ===== verification/Event_Properties.thy ===== *)
theory Event_Properties
  imports Event_Resume
begin

text \<open>
  What every event stream does, opened fresh or at any token, whatever records it is given: events
  stay within the stream's scope, the drop of the watched collection ends it, its dedup sets stay
  within their memory and recognise what they hold, and cluster times keep their timestamps.
\<close>

section \<open>Opened streams\<close>

definition opened :: "stream_scope \<Rightarrow> int \<Rightarrow> event_stream \<Rightarrow> bool" where
  "opened scope limit s \<longleftrightarrow> (\<exists>start. openFresh (Some start) (make_stream scope limit) = Inr (True, s)) \<or>
     (\<exists>token src src1. openAt token (make_stream scope limit, src) = Inr (s, src1))"

lemma open_group_frame:
  "open_group token a g (s, src) = Inr (s1, src1) \<Longrightarrow>
     s1\<lparr>es_groups := []\<rparr> = s\<lparr>es_groups := []\<rparr> \<and> (\<forall>h. same_dedup (group_of s h) (group_of s1 h))"
  by (auto simp: open_group_def put_group_def [of g _ s] resume_group_def Let_def group_of_put [unfolded put_group_def]
      split: option.splits if_splits)

lemma same_dedup_trans: "same_dedup x y \<Longrightarrow> same_dedup y z \<Longrightarrow> same_dedup x z"
  by (simp add: same_dedup_def)

lemma open_groups_frame:
  "open_groups token a gs (s, src) = Inr (s1, src1) \<Longrightarrow>
     s1\<lparr>es_groups := []\<rparr> = s\<lparr>es_groups := []\<rparr> \<and> (\<forall>h. same_dedup (group_of s h) (group_of s1 h))"
proof (induction gs arbitrary: s src)
  case (Cons g gs)
  obtain s2 src2 where step: "open_group token a g (s, src) = Inr (s2, src2)" "open_groups token a gs (s2, src2) = Inr (s1, src1)"
    using Cons.prems by auto
  then show ?case using open_group_frame [OF step(1)] Cons.IH [OF step(2)] same_dedup_trans by metis
qed simp

lemma opened_state:
  assumes "opened scope limit s"
  shows "es_scope s = scope" "es_dedupSetBytes s = limit" "es_current s = None" "es_pendingInvalidate s = None"
    and "same_dedup new_group (group_of s g)"
proof -
  have "es_scope s = scope \<and> es_dedupSetBytes s = limit \<and> es_current s = None \<and> es_pendingInvalidate s = None \<and>
      same_dedup new_group (group_of s g)"
    using assms unfolding opened_def
  proof
    assume "\<exists>start. openFresh (Some start) (make_stream scope limit) = Inr (True, s)"
    then show ?thesis by (auto simp: openFresh_def make_stream_def group_of_def)
  next
    assume "\<exists>token src src1. openAt token (make_stream scope limit, src) = Inr (s, src1)"
    then obtain token src src1 own r s1 a tok where s: "s = s1\<lparr>es_openingToken := tok\<rparr>"
        "open_groups token a (map sg_id (ss_groups src)) ((make_stream scope limit)\<lparr>es_ownDropKeys := own, es_resumedFrom := r\<rparr>, src) = Inr (s1, src1)"
      by (fastforce simp: openAt_def Let_def)
    note frame = open_groups_frame [OF s(2)]
    have "group_of ((make_stream scope limit)\<lparr>es_ownDropKeys := own, es_resumedFrom := r\<rparr>) g = new_group"
      by (simp add: make_stream_def group_of_def)
    then have "same_dedup new_group (group_of s1 g)" using frame by metis
    moreover have "es_scope s1 = scope \<and> es_dedupSetBytes s1 = limit \<and> es_current s1 = None \<and> es_pendingInvalidate s1 = None"
      using arg_cong [OF conjunct1 [OF frame], of es_scope] arg_cong [OF conjunct1 [OF frame], of es_dedupSetBytes]
        arg_cong [OF conjunct1 [OF frame], of es_current] arg_cong [OF conjunct1 [OF frame], of es_pendingInvalidate]
      by (simp add: make_stream_def)
    ultimately show ?thesis by (simp add: s(1) group_of_def)
  qed
  then show "es_scope s = scope" "es_dedupSetBytes s = limit" "es_current s = None" "es_pendingInvalidate s = None"
    "same_dedup new_group (group_of s g)" by blast+
qed

section \<open>Scope\<close>

text \<open>The section a decoder is in is in scope.\<close>

definition dec_in_scope :: "blob_decoder \<Rightarrow> bool" where
  "dec_in_scope d \<longleftrightarrow> (bd_sectionRest d \<noteq> [] \<longrightarrow> scope_includes (bd_scope d) (bd_sectionNs d))"

lemma blob_next_in_scope:
  assumes "blob_next d = Inr (Some (e, d'))" "dec_in_scope d"
  shows "dec_in_scope d' \<and> bd_scope d' = bd_scope d \<and> scope_includes (bd_scope d) (be_ns e)"
  using assms
proof (induction "length (bd_rest d)" arbitrary: d rule: less_induct)
  case less
  show ?case
  proof (cases "bd_sectionRest d = []")
    case False
    then show ?thesis using less.prems by (auto simp: blob_next_def seek_entry.simps [of d] dec_in_scope_def)
  next
    case True
    then have rest: "bd_rest d \<noteq> []" using less.prems(1) by (auto simp: blob_next_def seek_entry.simps [of d])
    obtain s r where s: "read_section (bd_rest d) = Inr (s, r)"
      using less.prems(1) by (auto simp: blob_next_section [OF True rest])
    let ?d = "if section_in_scope (bd_scope d) s
       then d\<lparr>bd_rest := r, bd_sectionsSeen := bd_sectionsSeen d + 1, bd_sectionNs := bs_name s,
              bd_sectionRest := bs_entries s, bd_entryOrdinal := 0, bd_currentSection := bd_sectionsSeen d\<rparr>
       else d\<lparr>bd_rest := r, bd_sectionsSeen := bd_sectionsSeen d + 1\<rparr>"
    have "blob_next ?d = Inr (Some (e, d'))" using less.prems(1) s by (simp add: blob_next_section [OF True rest])
    moreover have "dec_in_scope ?d" using True by (simp add: dec_in_scope_def section_in_scope_def)
    moreover have "length (bd_rest ?d) < length (bd_rest d)" "bd_scope ?d = bd_scope d" using read_section_shrinks [OF s] by simp_all
    ultimately show ?thesis using less.hyps [of ?d] by metis
  qed
qed

lemma dec_run_in_scope:
  "dec_run d es d' \<Longrightarrow> dec_in_scope d \<Longrightarrow>
     dec_in_scope d' \<and> bd_scope d' = bd_scope d \<and> (\<forall>e \<in> set es. scope_includes (bd_scope d) (be_ns e))"
proof (induction es arbitrary: d)
  case (Cons e es)
  then obtain d1 where d1: "blob_next d = Inr (Some (e, d1))" "dec_run d1 es d'" by auto
  then show ?case using blob_next_in_scope [OF d1(1) Cons.prems(2)] Cons.IH [OF d1(2)] by auto
qed simp

definition in_scope :: "stream_scope \<Rightarrow> bson_obj \<Rightarrow> bool" where
  "in_scope scope event \<longleftrightarrow> (\<exists>ns. scope_includes scope ns \<and> getField event (bstr ''ns'') = Some (ns_doc ns))"

definition is_op :: "string \<Rightarrow> bson_obj \<Rightarrow> bool" where
  "is_op op event \<longleftrightarrow> getField event (bstr ''operationType'') = Some (BString (bstr op))"

text \<open>What holds of a stream between pulls, and of an event with the stream that returned it.\<close>

definition stream_ok :: "event_stream \<Rightarrow> bool" where
  "stream_ok s \<longleftrightarrow> (\<forall>c. es_current s = Some c \<longrightarrow> bd_scope (ec_decoder c) = es_scope s \<and> dec_in_scope (ec_decoder c)) \<and>
     (\<forall>ivd. es_pendingInvalidate s = Some ivd \<longrightarrow> \<not> es_invalidated s \<and> in_scope (es_scope s) ivd \<and> is_op ''invalidate'' ivd \<and> has_token ivd)"

definition event_ok :: "event_stream \<Rightarrow> bson_obj \<Rightarrow> bool" where
  "event_ok s event \<longleftrightarrow> in_scope (es_scope s) event \<and>
     (sc_kind (es_scope s) = kCollection \<and> is_op ''drop'' event \<longrightarrow> es_pendingInvalidate s \<noteq> None)"

lemma event_names [simp]:
  "bstr ''ns'' \<noteq> bstr ''operationType''" "bstr ''ns'' \<noteq> bstr ''clusterTime''"
  "bstr ''insert'' \<noteq> bstr ''drop''" "bstr ''replace'' \<noteq> bstr ''drop''" "bstr ''delete'' \<noteq> bstr ''drop''" "bstr ''invalidate'' \<noteq> bstr ''drop''"
  "bstr ''drop'' \<noteq> bstr ''invalidate''"
  by (simp_all add: bstr_def)

lemma es_event_fields:
  assumes "es_event env s c e = Inr ev"
  shows "getField ev (bstr ''ns'') = Some (ns_doc (be_ns e))" "\<not> is_op ''drop'' ev"
proof -
  obtain token fullDocument documentKey middle where ev: "ev = [(bstr ''_id'', BObject token),
        (bstr ''operationType'', BString (operationType (be_op e))), (bstr ''clusterTime'', BTimestamp (clusterTime (ec_ts c)))] @
      middle @ [(bstr ''ns'', ns_doc (be_ns e)), documentKey, fullDocument]"
      and middle: "\<forall>(n, v) \<in> set middle. n = bstr ''fullDocument'' \<or> n = bstr ''fullDocumentOmitted''"
    using assms by (auto simp: es_event_def NamespaceString_def Let_def split: if_splits)
  have "getField (middle @ rest) (bstr ''ns'') = getField rest (bstr ''ns'')" for rest
    using middle by (induction middle) auto
  then show "getField ev (bstr ''ns'') = Some (ns_doc (be_ns e))" by (simp add: ev)
  show "\<not> is_op ''drop'' ev" by (cases "be_op e") (simp_all add: is_op_def ev)
qed

lemma invalidateEvent_fields:
  "invalidateEvent token ns = Inr ivd \<Longrightarrow>
     getField ivd (bstr ''ns'') = Some (ns_doc ns) \<and> is_op ''invalidate'' ivd \<and> has_token ivd"
  by (auto simp: invalidateEvent_def NamespaceString_def is_op_def has_token_def)

lemma decoded_drop: "decodeCdcDdl n op = Inr (Some ch) \<Longrightarrow> dc_operationType ch = bstr ''drop'' \<Longrightarrow> dc_dropsCollection ch"
  by (auto simp: decodeCdcDdl_def decodeOp_def mkChange_def bstr_def split: if_splits option.splits ddl_op_type.splits)

lemma same_shell_refl: "same_shell s s"
  by (simp add: same_shell_def)

lemma same_shell_trans: "same_shell s s1 \<Longrightarrow> same_shell s1 s2 \<Longrightarrow> same_shell s s2"
  by (simp add: same_shell_def)

lemma consume_all_shell: "consume_all g ts txn d s = Inr s1 \<Longrightarrow> same_shell s s1"
proof (induction g ts txn d s rule: consume_all.induct)
  case (1 g ts txn d s)
  have "same_shell s (snd (es_seen g ts key s))" for key
    using absorbed_seen [of g ts key s] by (simp add: absorbed_def)
  then show ?case
    using 1 same_shell_trans same_shell_refl
    by (cases "blob_next d") (fastforce simp: consume_all.simps [of g ts txn d s] split: option.splits)+
qed

lemma stream_ok_shell: "same_shell s s1 \<Longrightarrow> stream_ok s \<Longrightarrow> stream_ok s1"
  by (simp add: same_shell_def stream_ok_def)

lemma drops_in_scope:
  "watchable (es_scope s) \<Longrightarrow> dropsWatchedCollection s (Some ch) \<Longrightarrow> scope_includes (es_scope s) (dc_ns ch)"
  using watchable_includes by (simp add: dropsWatchedCollection_def)

lemma pending_ok:
  assumes "stream_ok s" "\<not> es_invalidated s" "invalidateEvent token ns = Inr ivd" "scope_includes (es_scope s) ns"
  shows "stream_ok (s\<lparr>es_pendingInvalidate := Some ivd\<rparr>)"
  using assms invalidateEvent_fields [OF assms(3)] by (auto simp: stream_ok_def in_scope_def)

lemma skip_ddl_ok:
  assumes "skip_ddl env g r s = Inr s1" "stream_ok s" "watchable (es_scope s)" "\<not> es_invalidated s"
  shows "stream_ok s1" "es_scope s1 = es_scope s"
proof -
  let ?own = "s\<lparr>es_ownDropKeys := filter (\<lambda>(h, _). h \<noteq> g) (es_ownDropKeys s)\<rparr>"
  have own: "stream_ok ?own" using assms(2) by (simp add: stream_ok_def)
  have "stream_ok s1 \<and> es_scope s1 = es_scope s"
  proof (cases "s1 = s \<or> s1 = ?own")
    case True
    then show ?thesis using own assms(2) by auto
  next
    case False
    then obtain ch token ivd where "s1 = ?own\<lparr>es_pendingInvalidate := Some ivd\<rparr>" "dropsWatchedCollection ?own (Some ch)"
        "invalidateEvent token (dc_ns ch) = Inr ivd"
      using assms(1) by (auto simp: skip_ddl_def Let_def split: if_splits option.splits)
    then show ?thesis using pending_ok [OF own] drops_in_scope [of ?own ch] assms(3,4) by auto
  qed
  then show "stream_ok s1" "es_scope s1 = es_scope s" by blast+
qed

lemma reportDdl_ok:
  assumes "reportDdl ts ch s = Inr (ev, s1)" "stream_ok s" "scope_includes (es_scope s) (dc_ns ch)" "\<not> es_invalidated s"
    and "dc_operationType ch = bstr ''drop'' \<longrightarrow> dc_dropsCollection ch"
  shows "stream_ok s1 \<and> es_scope s1 = es_scope s \<and> (\<forall>e. ev = Some e \<longrightarrow> event_ok s1 e)"
proof -
  obtain e where e: "ev = Some e" "getField e (bstr ''ns'') = Some (ns_doc (dc_ns ch))"
      "is_op ''drop'' e \<longleftrightarrow> dc_operationType ch = bstr ''drop''"
    using assms(1) by (auto simp: reportDdl_def NamespaceString_def is_op_def Let_def split: if_splits)
  show ?thesis
  proof (cases "dropsWatchedCollection s (Some ch)")
    case True
    then obtain ivd token where "s1 = s\<lparr>es_pendingInvalidate := Some ivd\<rparr>" "invalidateEvent token (dc_ns ch) = Inr ivd"
      using assms(1) by (auto simp: reportDdl_def Let_def)
    then show ?thesis using pending_ok [OF assms(2)] assms(3,4) e by (auto simp: event_ok_def in_scope_def)
  next
    case False
    moreover have "s1 = s" using False assms(1) by (auto simp: reportDdl_def Let_def)
    ultimately show ?thesis
      using assms(2-5) e
      by (auto simp: event_ok_def in_scope_def dropsWatchedCollection_def scope_isCollection_def scope_includes_def Let_def
          split: if_splits)
  qed
qed

lemma es_begin_ok:
  assumes "es_begin env r s = Inr (ev, s1)" "stream_ok s" "watchable (es_scope s)" "\<not> es_invalidated s"
  shows "stream_ok s1 \<and> es_scope s1 = es_scope s \<and> (\<forall>e. ev = Some e \<longrightarrow> event_ok s1 e)"
proof -
  let ?g = "sr_logGroupId r"
  define s2 where "s2 = put_group ?g (case eg_skip (group_of s ?g) of Some k \<Rightarrow>
      if sr_timestamp r > sk_ts k then (group_of s ?g)\<lparr>eg_skip := None\<rparr> else group_of s ?g | None \<Rightarrow> group_of s ?g) s"
  have s2: "stream_ok s2" "es_scope s2 = es_scope s" "\<not> es_invalidated s2" using assms(2,4) by (simp_all add: s2_def stream_ok_def)
  have step: "(case sr_item r of DdlItem d \<Rightarrow> begin_ddl env ?g d s2 | DataItem d \<Rightarrow> rbind (begin_data ?g d s2) (\<lambda>s1. Inr (None, s1))) = Inr (ev, s1)"
    using assms(1) unfolding es_begin_def Let_def s2_def .
  show ?thesis
  proof (cases "sr_item r")
    case (DataItem d)
    have "dec_in_scope (make_decoder b sc)" "bd_scope (make_decoder b sc) = sc" for b sc by (simp_all add: make_decoder_def dec_in_scope_def)
    then show ?thesis
      using step DataItem s2 consume_all_shell stream_ok_shell
      by (auto simp: begin_data_def Let_def stream_ok_def same_shell_def split: option.splits if_splits)
  next
    case (DdlItem d)
    let ?s = "put_group ?g ((group_of s2 ?g)\<lparr>eg_skip := None, eg_hasCursor := True, eg_ddlKey := ddlKey d\<rparr>) s2"
    have s: "stream_ok ?s" using s2 by (simp add: stream_ok_def)
    consider (skipped) "skip_ddl env ?g d s2 = Inr s1" "ev = None" | (reported) "ddlEvent env (dd_ddl_ts d) d ?s = Inr (ev, s1)"
      using step DdlItem by (auto simp: begin_ddl_def Let_def split: if_splits)
    then show ?thesis
    proof cases
      case skipped
      then show ?thesis using skip_ddl_ok [OF skipped(1) s2(1)] s2(2,3) assms(3) by simp
    next
      case reported
      then show ?thesis
        using s s2(2,3) reportDdl_ok [of _ _ ?s ev s1] decoded_drop
        by (auto simp: ddlEvent_def split: option.splits if_splits)
    qed
  qed
qed

lemma es_next_loop_ok:
  assumes "es_next_loop env s rs = Inr (ev, s1, rs1)" "stream_ok s" "watchable (es_scope s)"
  shows "stream_ok s1 \<and> es_scope s1 = es_scope s \<and> (\<forall>e. ev = Some e \<longrightarrow> event_ok s1 e)"
  using assms
proof (induction env s rs rule: es_next_loop.induct)
  case (1 env s rs)
  consider (over) "es_invalidated s" | (ending) i where "\<not> es_invalidated s" "es_pendingInvalidate s = Some i"
    | (reading) c where "\<not> es_invalidated s" "es_pendingInvalidate s = None" "es_current s = Some c"
    | (none) "\<not> es_invalidated s" "es_pendingInvalidate s = None" "es_current s = None" by force
  then show ?case
  proof cases
    case over
    then show ?thesis using "1.prems" by (simp add: es_next_loop_invalidated)
  next
    case (ending i)
    then obtain tok where i: "getField i (bstr ''_id'') = Some (BObject tok)" "in_scope (es_scope s) i" "is_op ''invalidate'' i"
      using "1.prems"(2) by (auto simp: stream_ok_def has_token_def)
    then show ?thesis
      using "1.prems" es_next_loop_pending [OF ending i(1)] by (auto simp: stream_ok_def event_ok_def is_op_def)
  next
    case (reading c)
    obtain found c1 s2 where p: "produce_next c s = Inr (found, c1, s2)" "after_produce env (found, c1, s2) rs = Inr (ev, s1, rs1)"
      using "1.prems"(1) unfolding es_next_loop_current [OF reading] after_produce_def by auto
    obtain es where es: "dec_run (ec_decoder c) es (ec_decoder c1)" "same_shell s s2" "\<And>e. found = Some e \<Longrightarrow> e \<in> set es"
      using produce_next_run [OF p(1)] by (fastforce simp: absorbed_def split: option.splits)
    have c: "bd_scope (ec_decoder c) = es_scope s" "dec_in_scope (ec_decoder c)" using "1.prems"(2) reading by (auto simp: stream_ok_def)
    note c1 = dec_run_in_scope [OF es(1) c(2), unfolded c(1)]
    show ?thesis
    proof (cases found)
      case None
      have "stream_ok ((move_cursor c1 None s2)\<lparr>es_current := None\<rparr>)"
        using stream_ok_shell [OF es(2) "1.prems"(2)] by (simp add: stream_ok_def)
      then show ?thesis
        using "1.IH"(2) [OF reading p(1) [unfolded None] refl refl refl] p(2) None "1.prems"(3) es(2)
        by (simp add: after_produce_def same_shell_def)
    next
      case (Some e)
      then obtain event where event: "es_event env (move_cursor c1 (Some e) s2) c1 e = Inr event" "ev = Some event"
          "s1 = (move_cursor c1 (Some e) s2)\<lparr>es_current := Some c1\<rparr>"
        using p(2) by (auto simp: after_produce_def Let_def)
      then show ?thesis
        using es_event_fields [OF event(1)] c1 es Some "1.prems"(2)
        by (auto simp: stream_ok_def event_ok_def in_scope_def same_shell_def)
    qed
  next
    case none
    show ?thesis
    proof (cases rs)
      case Nil
      then show ?thesis using "1.prems" es_next_loop_empty [OF none] by simp
    next
      case (Cons r rest)
      obtain event s2 where b: "es_begin env r s = Inr (event, s2)"
        and more: "(case event of Some ev \<Rightarrow> Inr (Some ev, s2, rest) | None \<Rightarrow> es_next_loop env s2 rest) = Inr (ev, s1, rs1)"
        using "1.prems"(1) unfolding Cons es_next_loop_record [OF none] by auto
      note s2 = es_begin_ok [OF b "1.prems"(2,3) none(1)]
      show ?thesis
      proof (cases event)
        case None
        then show ?thesis using "1.IH"(1) [OF none Cons b [unfolded None] refl refl] more s2 "1.prems"(3) by simp
      qed (use more s2 in auto)
    qed
  qed
qed

lemma publishStats_ok [simp]:
  "stream_ok (publishStats src now ev s) = stream_ok s" "event_ok (publishStats src now ev s) e = event_ok s e"
  "es_pendingInvalidate (publishStats src now ev s) = es_pendingInvalidate s"
  by (simp_all add: publishStats_def stream_ok_def event_ok_def Let_def)

lemma pulls_over:
  "es_invalidated s \<Longrightarrow> es_openingToken s \<noteq> [] \<Longrightarrow> \<exists>s1. es_pulls env ts s rs = Inr (replicate (length ts) None, s1, rs)"
  by (induction ts arbitrary: s) (auto simp: es_next_def es_next_loop_invalidated)

lemma opened_ok: "opened scope limit s \<Longrightarrow> stream_ok s \<and> es_scope s = scope"
  using opened_state(1,3,4) [of scope limit s] by (simp add: stream_ok_def)

lemma pulls_ok:
  assumes "es_pulls env ts s rs = Inr (evs, s1, rs1)" "stream_ok s" "watchable (es_scope s)"
  shows "stream_ok s1 \<and> es_scope s1 = es_scope s \<and> (\<forall>e. Some e \<in> set evs \<longrightarrow> in_scope (es_scope s) e)"
  using assms
proof (induction ts arbitrary: s rs evs)
  case (Cons t ts)
  obtain ev s2 rs2 evs2 where loop: "es_next_loop env s rs = Inr (ev, s2, rs2)"
      and more: "es_pulls env ts (publishStats (fst t) (snd t) ev s2) rs2 = Inr (evs2, s1, rs1)" and evs: "evs = ev # evs2"
    using Cons.prems(1) by (auto simp: es_next_def)
  note ok = es_next_loop_ok [OF loop Cons.prems(2,3)]
  then show ?case using Cons.IH [OF more] Cons.prems(3) evs by (auto simp: event_ok_def)
qed simp

section \<open>Properties\<close>

text \<open>
  C9: A stream never shows a client anything outside its scope: whatever records the log holds, every
  event a stream returns, fresh or resumed, is of a namespace its scope includes.
\<close>

theorem events_in_scope:
  assumes "opened scope limit s" "watchable scope" "es_pulls env ts s rs = Inr (evs, s1, rs1)" "Some event \<in> set evs"
  shows "\<exists>ns. scope_includes scope ns \<and> getField event (bstr ''ns'') = Some (ns_doc ns)"
  using pulls_ok [OF assms(3)] opened_ok [OF assms(1)] assms(2,4) by (auto simp: in_scope_def)

theorem events_in_scope_witness:
  "\<forall>D. \<exists>s event s1. opened scope_deployment 1000 s \<and>
     es_pulls (sample_env D) [(resume_source, 1)] s [sample_drop_record 5] = Inr ([Some event], s1, []) \<and>
     (\<exists>ns. scope_includes scope_deployment ns \<and> getField event (bstr ''ns'') = Some (ns_doc ns))"
proof
  fix D
  obtain s where s: "openFresh (Some 3) (make_stream scope_deployment 1000) = Inr (True, s)" using sample_open_fresh by blast
  have "scope_includes scope_deployment (bstr ''a.b'')" by code_simp
  then obtain event s1 where pull: "es_pulls (sample_env D) [(resume_source, 1)] s [sample_drop_record 5] = Inr ([Some event], s1, [])"
    using sample_first_pull [OF s] sample_token_bson by blast
  moreover have "opened scope_deployment 1000 s" "watchable scope_deployment" using s by (auto simp: opened_def watchable_def scope_deployment_def)
  ultimately show "\<exists>s event s1. opened scope_deployment 1000 s \<and>
     es_pulls (sample_env D) [(resume_source, 1)] s [sample_drop_record 5] = Inr ([Some event], s1, []) \<and>
     (\<exists>ns. scope_includes scope_deployment ns \<and> getField event (bstr ''ns'') = Some (ns_doc ns))"
    using events_in_scope [OF _ _ pull] by fastforce
qed

text \<open>
  C10: The drop of the watched collection ends the stream. On a collection-level stream a pull that
  returns a drop event is followed by exactly one more event, the invalidate, and then by none.
\<close>

theorem drop_invalidates_stream:
  assumes "opened scope limit s" "watchable scope" "sc_kind scope = kCollection"
    and "es_pulls env ts s rs = Inr (evs, s1, rs1)" "es_next env src now s1 rs1 = Inr (Some event, s2, rs2)"
    and "getField event (bstr ''operationType'') = Some (BString (bstr ''drop''))"
  shows "\<exists>ivd s3. es_pulls env (t # ts') s2 rs2 = Inr (Some ivd # replicate (length ts') None, s3, rs2) \<and>
    getField ivd (bstr ''operationType'') = Some (BString (bstr ''invalidate''))"
proof -
  have ok: "stream_ok s1" "es_scope s1 = scope" using pulls_ok [OF assms(4)] opened_ok [OF assms(1)] assms(2) by auto
  obtain s2' where loop: "es_next_loop env s1 rs1 = Inr (Some event, s2', rs2)" and s2: "s2 = publishStats src now (Some event) s2'"
      and open1: "es_openingToken s1 \<noteq> []"
    using assms(5) by (auto simp: es_next_def)
  have ok2: "stream_ok s2'" "event_ok s2' event" "es_scope s2' = scope" using es_next_loop_ok [OF loop ok(1)] ok(2) assms(2) by auto
  then obtain ivd where ivd: "es_pendingInvalidate s2' = Some ivd" using assms(3,6) by (auto simp: event_ok_def is_op_def)
  then obtain tok where tok: "getField ivd (bstr ''_id'') = Some (BObject tok)" "is_op ''invalidate'' ivd" "\<not> es_invalidated s2'"
    using ok2(1) by (auto simp: stream_ok_def has_token_def)
  have open2: "es_openingToken s2 \<noteq> []" using loop_opening [OF loop] open1 s2 by simp
  let ?s3 = "publishStats (fst t) (snd t) (Some ivd) (s2\<lparr>es_pendingInvalidate := None, es_invalidateToken := tok, es_invalidated := True\<rparr>)"
  have "es_next env (fst t) (snd t) s2 rs2 = Inr (Some ivd, ?s3, rs2)"
    using es_next_loop_pending [of s2 ivd tok env rs2] ivd tok s2 open2 by (simp add: es_next_def)
  moreover have "\<exists>s4. es_pulls env ts' ?s3 rs2 = Inr (replicate (length ts') None, s4, rs2)"
    using pulls_over [of ?s3] open2 by simp
  ultimately show ?thesis using tok(2) by (auto simp: is_op_def)
qed

theorem drop_invalidates_stream_witness:
  "\<forall>D. \<exists>s s2 ivd s3. opened (scope_collection (bstr ''a.b'')) 1000 s \<and>
     es_pulls (sample_env D) [(resume_source, 2), (resume_source, 3)] s2 [] = Inr ([Some ivd, None], s3, []) \<and>
     getField ivd (bstr ''operationType'') = Some (BString (bstr ''invalidate''))"
proof
  fix D
  let ?scope = "scope_collection (bstr ''a.b'')"
  obtain s where s: "openFresh (Some 3) (make_stream ?scope 1000) = Inr (True, s)" using sample_open_fresh by blast
  have coll: "scope_includes ?scope (bstr ''a.b'')" "watchable ?scope" "sc_kind ?scope = kCollection" by code_simp+
  then obtain event s2 where pull: "es_pulls (sample_env D) [(resume_source, 1)] s [sample_drop_record 5] = Inr ([Some event], s2, [])"
      and op: "getField event (bstr ''operationType'') = Some (BString (bstr ''drop''))"
    using sample_first_pull [OF s _ coll(1)] sample_token_bson by blast
  have opened: "opened ?scope 1000 s" using s by (auto simp: opened_def)
  have next1: "es_next (sample_env D) resume_source 1 s [sample_drop_record 5] = Inr (Some event, s2, [])" using pull by auto
  have "es_pulls (sample_env D) [] s [sample_drop_record 5] = Inr ([], s, [sample_drop_record 5])" by simp
  from drop_invalidates_stream [OF opened coll(2,3) this next1 op, of "(resume_source, 2)" "[(resume_source, 3)]"]
  show "\<exists>s s2 ivd s3. opened (scope_collection (bstr ''a.b'')) 1000 s \<and>
     es_pulls (sample_env D) [(resume_source, 2), (resume_source, 3)] s2 [] = Inr ([Some ivd, None], s3, []) \<and>
     getField ivd (bstr ''operationType'') = Some (BString (bstr ''invalidate''))"
    using opened by (auto simp del: es_pulls.simps)
qed

text \<open>
  C22: The memory of deduplication is bounded and accounted for exactly: after any pulls of any
  stream, each group's dedup set is finite, the byte count kept with it is the sum of its entries'
  sizes with their overhead, and it stays within the configured limit.
\<close>

theorem dedup_sets_within_limit:
  assumes "opened scope limit s" "0 \<le> limit" "es_pulls env ts s rs = Inr (evs, s1, rs1)"
  shows "finite (eg_dedup (group_of s1 g)) \<and> eg_dedupBytes (group_of s1 g) = (\<Sum>key \<in> eg_dedup (group_of s1 g). int (length key) + 32) \<and>
    eg_dedupBytes (group_of s1 g) \<le> limit"
proof -
  note s = opened_state [OF assms(1)]
  have "dedup_ok limit (group_of s h)" for h using dedup_ok_same [OF s(5) dedup_ok_new [OF assms(2)]] .
  then have "stream_dedup_ok s" using s(2) assms(2) by (simp add: stream_dedup_ok_def)
  then have "stream_dedup_ok s1" using stream_dedup.pulls [OF assms(3)] by blast
  moreover have "es_dedupSetBytes s1 = limit"
    using stream_settings.pulls [OF assms(3) refl] s(2) by (simp add: settings_def)
  ultimately show ?thesis unfolding stream_dedup_ok_def dedup_ok_def by metis
qed

theorem dedup_sets_within_limit_witness:
  "\<forall>D. \<exists>s s1. opened scope_deployment 1000 s \<and> es_pulls (sample_env D) [(resume_source, 1)] s [] = Inr ([None], s1, []) \<and>
     eg_dedupBytes (group_of s1 1) \<le> 1000"
proof
  fix D
  obtain s where s: "openFresh (Some 3) (make_stream scope_deployment 1000) = Inr (True, s)" using sample_open_fresh by blast
  then obtain tok where "s = (make_stream scope_deployment 1000)\<lparr>es_openingToken := tok\<rparr>" "tok \<noteq> []"
    using toBSON_not_empty by (auto simp: openFresh_def)
  then have pull: "\<exists>s1. es_pulls (sample_env D) [(resume_source, 1)] s [] = Inr ([None], s1, [])"
    by (simp add: es_next_def es_next_loop_empty make_stream_def)
  moreover have "opened scope_deployment 1000 s" using s by (auto simp: opened_def)
  ultimately show "\<exists>s s1. opened scope_deployment 1000 s \<and> es_pulls (sample_env D) [(resume_source, 1)] s [] = Inr ([None], s1, []) \<and>
     eg_dedupBytes (group_of s1 1) \<le> 1000"
    using dedup_sets_within_limit [of scope_deployment 1000 s "sample_env D" "[(resume_source, 1)]" "[]" "[None]"] by fastforce
qed

lemma view_seen_mono: "k \<in> fst v \<Longrightarrow> k \<in> fst (snd (snd (view_seen limit key v)))"
  by (simp add: view_seen_def Let_def)

lemma fold_seen_mono: "k \<in> fst v \<Longrightarrow> k \<in> fst (fold_seen limit keys v)"
  by (induction keys arbitrary: v) (simp_all add: view_seen_mono)

lemma produce_next_fresh:
  "produce_next c s = Inr (Some e, c1, s1) \<Longrightarrow> dedupKey (ec_txn c) e \<notin> fst (dedup_view (ec_ts c) (group_of s (ec_group c)))"
proof (induction c s rule: produce_next.induct)
  case (1 c s)
  note step = "1.prems" [unfolded produce_next.simps [of c s]]
  let ?view = "\<lambda>s. fst (dedup_view (ec_ts c) (group_of s (ec_group c)))"
  obtain b d where nxt: "blob_next (ec_decoder c) = Inr (Some (b, d))" using step by (auto split: option.splits)
  let ?seen = "es_seen (ec_group c) (ec_ts c) (dedupKey (ec_txn c) b) s"
  have grows: "k \<in> ?view s \<Longrightarrow> k \<in> ?view (snd ?seen)" for k unfolding es_seen_view(2) by (rule view_seen_mono)
  consider (through) "consumed_through c b" | (dup) "\<not> consumed_through c b" "fst ?seen"
    | (new) "\<not> consumed_through c b" "\<not> fst ?seen" by blast
  then show ?case
  proof cases
    case through
    then show ?thesis using "1.IH"(1) [OF nxt _ refl refl refl through] step nxt grows by (auto simp: Let_def)
  next
    case dup
    then show ?thesis using "1.IH"(2) [OF nxt _ refl refl refl dup] step nxt grows by (auto simp: Let_def)
  next
    case new
    then show ?thesis using step nxt es_seen_view(1) [of "ec_group c" "ec_ts c" "dedupKey (ec_txn c) b" s]
      by (auto simp: Let_def view_seen_def split: if_splits)
  qed
qed


definition sample_change :: "u64 \<Rightarrow> current_record" where
  "sample_change txn = \<lparr>ec_group = 1, ec_key = [5], ec_ts = 5, ec_txn = txn,
     ec_decoder = make_decoder sample_blob scope_deployment, ec_consumeThrough = None\<rparr>"

lemma decode_all_first: "decode_all d = Inr (e # es) \<Longrightarrow> \<exists>d1. blob_next d = Inr (Some (e, d1))"
  by (subst (asm) decode_all.simps) (auto split: option.splits)

lemma sample_produced:
  assumes "\<not> fst (es_seen 1 5 (dedupKey txn (hd sample_entries)) s)"
  shows "\<exists>c1. produce_next (sample_change txn) s =
    Inr (Some (hd sample_entries), c1, snd (es_seen 1 5 (dedupKey txn (hd sample_entries)) s))"
proof -
  have "sample_entries = hd sample_entries # tl sample_entries" by (simp add: sample_entries_def)
  then obtain d where "blob_next (make_decoder sample_blob scope_deployment) = Inr (Some (hd sample_entries, d))"
    using sample_decoded decode_all_first by metis
  then show ?thesis using assms
    by (subst produce_next.simps) (simp add: sample_change_def consumed_through_def Let_def)
qed


lemma clusterTime_halves:
  "(ucast (drop_bit 32 (clusterTime ts)) :: u32) = ucast (ts div 1000000)"
  "(ucast (clusterTime ts) :: u32) = ucast (ts mod 1000000)"
  unfolding clusterTime_def Let_def by (rule bit_word_eqI; auto simp: bit_simps)+

lemma micros_exact:
  "(ucast (ucast (ts div 1000000 :: u64) :: u32) * 1000000 + ucast (ucast (ts mod 1000000) :: u32) = ts) = (ts div 1000000 < 2 ^ 32)"
proof -
  define q r where qr: "q = unat ts div 1000000" "r = unat ts mod 1000000"
  then have ts: "unat ts = q * 1000000 + r" and r: "r < 1000000" by simp_all
  have lt: "unat ts < 2 ^ 64" using unsigned_less [where w = ts] by simp
  have le: "q mod 2 ^ 32 \<le> q" by simp
  have small: "q < 2 ^ 64" "r < 2 ^ 64" using lt ts by simp_all
  have "unat (ucast (ucast (ts div 1000000) :: u32) * 1000000 + ucast (ucast (ts mod 1000000) :: u32) :: u64) =
      (q mod 2 ^ 32 * 1000000 + r mod 2 ^ 32) mod 2 ^ 64"
    using small by (simp add: unat_word_ariths unsigned_ucast_eq unat_div unat_mod mod_simps take_bit_eq_mod flip: qr)
  also have "\<dots> = q mod 2 ^ 32 * 1000000 + r" using r le lt ts by simp
  finally have "(ucast (ucast (ts div 1000000) :: u32) * 1000000 + ucast (ucast (ts mod 1000000) :: u32) = ts) \<longleftrightarrow> q mod 2 ^ 32 = q"
    using ts by (simp add: word_unat_eq_iff)
  also have "\<dots> \<longleftrightarrow> q < 2 ^ 32" using mod_less_divisor [of "2 ^ 32" q] by (metis mod_less zero_less_numeral zero_less_power)
  also have "\<dots> \<longleftrightarrow> ts div 1000000 < 2 ^ 32" by (simp add: word_less_nat_alt unat_div qr)
  finally show ?thesis .
qed

text \<open>
  C23: The produced-through statistic recovers the commit timestamp from the cluster time of the event
  reported exactly when the timestamp's seconds fit the 32 bits of a BSON timestamp: the cluster time
  is not lossless beyond them.
\<close>

theorem produced_through_exact:
  assumes "getField event (bstr ''clusterTime'') = Some (BTimestamp (clusterTime ts))"
  shows "st_producedThrough (es_stats (publishStats src now (Some event) s)) = ts \<longleftrightarrow> ts div 1000000 < 2 ^ 32"
  unfolding publishStats_def using assms by (simp add: Let_def clusterTime_halves micros_exact [simplified])

theorem produced_through_exact_witness:
  "st_producedThrough (es_stats (publishStats resume_source 1 (Some [(bstr ''clusterTime'', BTimestamp (clusterTime 5000007))])
     (make_stream scope_deployment 1000))) = 5000007 \<and>
   st_producedThrough (es_stats (publishStats resume_source 1 (Some [(bstr ''clusterTime'', BTimestamp (clusterTime (2 ^ 32 * 1000000)))])
     (make_stream scope_deployment 1000))) \<noteq> 2 ^ 32 * 1000000"
  using produced_through_exact [of "[(bstr ''clusterTime'', BTimestamp (clusterTime 5000007))]" 5000007 resume_source 1 "make_stream scope_deployment 1000"]
    produced_through_exact [of "[(bstr ''clusterTime'', BTimestamp (clusterTime (2 ^ 32 * 1000000)))]" "2 ^ 32 * 1000000" resume_source 1 "make_stream scope_deployment 1000"]
  by simp

end
