(* ===== verification/Wait_Object.thy ===== *)
theory Wait_Object
  imports Eloq_Prelude
begin

text \<open>
  Where scan completions meet the coroutine that waits for them (\<open>cdc/cdc_wait_object.h\<close>, \<open>.cpp\<close>).
  \<open>wo_notify\<close>, \<open>wo_waitUntil\<close> and \<open>wo_yieldUntil\<close> are the critical sections under the object's mutex; what
  runs outside it, the resume functor, the yield, the timer's callback and its deletion, are steps of
  their own, so \<open>wait_step\<close> has every interleaving of one waiter with any number of notifiers and
  timers. A timer's argument is the reference that keeps the object alive; it is released by the
  callback or by the waiter that deleted the timer before it ran, which is what \<open>bthread_timer_del\<close>
  returning 0 means. The resume functor queues the coroutine, once per call.
\<close>

section \<open>The object\<close>

record wait_object =
  wo_notified :: bool
  wo_coroutineWaiting :: bool
  wo_resume :: bool

definition wo_make :: wait_object where
  "wo_make = \<lparr>wo_notified = False, wo_coroutineWaiting = False, wo_resume = False\<rparr>"

text \<open>Whether a resume functor was taken, to be called outside the lock; otherwise the condition
  variable is notified.\<close>

definition wo_notify :: "wait_object \<Rightarrow> bool \<times> wait_object" where
  "wo_notify w = (if wo_coroutineWaiting w
     then (wo_resume w, w\<lparr>wo_coroutineWaiting := False, wo_resume := False\<rparr>)
     else (False, w\<lparr>wo_notified := True\<rparr>))"

datatype wait_outcome = WaitReturns | WaitBlocks | WaitYields bool

text \<open>\<open>Date_t::max()\<close>.\<close>

definition no_deadline :: int where
  "no_deadline = 9223372036854775807"

text \<open>\<open>added\<close> is whether \<open>bthread_timer_add\<close> returned 0; \<open>WaitYields\<close> says whether a timer is armed.\<close>

definition wo_yieldUntil :: "int \<Rightarrow> bool \<Rightarrow> wait_object \<Rightarrow> (wait_outcome \<times> wait_object) result" where
  "wo_yieldUntil deadline added w =
     rbind (rguard (\<not> wo_coroutineWaiting w) InvariantFailure) (\<lambda>_.
       if deadline \<noteq> no_deadline \<and> \<not> added then Inr (WaitReturns, w)
       else Inr (WaitYields (deadline \<noteq> no_deadline), w\<lparr>wo_coroutineWaiting := True, wo_resume := True\<rparr>))"

text \<open>\<open>coro\<close> is whether the caller has coroutine functors.\<close>

definition wo_waitUntil ::
  "int \<Rightarrow> int \<Rightarrow> bool \<Rightarrow> bool \<Rightarrow> wait_object \<Rightarrow> (wait_outcome \<times> wait_object) result" where
  "wo_waitUntil now deadline coro added w =
     (if wo_notified w then Inr (WaitReturns, w\<lparr>wo_notified := False\<rparr>)
      else if now \<ge> deadline then Inr (WaitReturns, w)
      else if coro then wo_yieldUntil deadline added w
      else Inr (WaitBlocks, w))"

text \<open>A blocked thread that has the lock again: the predicate or the deadline lets it return.\<close>

definition wo_wake :: "int \<Rightarrow> int \<Rightarrow> wait_object \<Rightarrow> wait_object option" where
  "wo_wake now deadline w =
     (if wo_notified w \<or> deadline \<noteq> no_deadline \<and> now \<ge> deadline then Some (w\<lparr>wo_notified := False\<rparr>) else None)"

section \<open>One waiter, its notifiers and its timers\<close>

datatype timer_state = Armed int | Firing | Fired | Done | Deleted

text \<open>\<open>Yielding t queued\<close>: registered, about to yield or suspended; \<open>queued\<close> once the resume functor has
  run. \<open>Resumed t\<close>: past the yield, the timer still to be deleted.\<close>

datatype waiter = Running | Blocked int | Yielding "nat option" bool | Resumed "nat option"

text \<open>\<open>ws_resuming\<close> counts the notifiers that hold the resume functor and have not called it yet.
  \<open>ws_arrived\<close> is whether \<open>notify\<close> was called since the previous wait returned, \<open>ws_freed\<close> which timer
  arguments were released: they record what happened and no step reads them.\<close>

record wait_system =
  ws_obj :: wait_object
  ws_waiter :: waiter
  ws_resuming :: nat
  ws_timers :: "timer_state list"
  ws_arrived :: bool
  ws_freed :: "nat list"

definition ws_start :: wait_system where
  "ws_start = \<lparr>ws_obj = wo_make, ws_waiter = Running, ws_resuming = 0, ws_timers = [], ws_arrived = False, ws_freed = []\<rparr>"

definition notified_by :: "wait_system \<Rightarrow> wait_system" where
  "notified_by s = (let (resume, w) = wo_notify (ws_obj s) in
     s\<lparr>ws_obj := w, ws_resuming := ws_resuming s + (if resume then 1 else 0), ws_arrived := True\<rparr>)"

definition wait_begun :: "int \<Rightarrow> wait_outcome \<Rightarrow> wait_object \<Rightarrow> wait_system \<Rightarrow> wait_system" where
  "wait_begun deadline out w s = (case out of
       WaitReturns \<Rightarrow> s\<lparr>ws_obj := w, ws_arrived := False\<rparr>
     | WaitBlocks \<Rightarrow> s\<lparr>ws_obj := w, ws_waiter := Blocked deadline\<rparr>
     | WaitYields False \<Rightarrow> s\<lparr>ws_obj := w, ws_waiter := Yielding None False\<rparr>
     | WaitYields True \<Rightarrow> s\<lparr>ws_obj := w, ws_waiter := Yielding (Some (length (ws_timers s))) False,
         ws_timers := ws_timers s @ [Armed deadline]\<rparr>)"

text \<open>The end of \<open>_yieldUntil\<close>: delete the timer, and its argument if it had not run.\<close>

definition timer_deleted :: "nat option \<Rightarrow> wait_system \<Rightarrow> wait_system" where
  "timer_deleted t s = (case t of
       Some i \<Rightarrow> (case ws_timers s ! i of
           Armed d \<Rightarrow> s\<lparr>ws_timers := (ws_timers s)[i := Deleted], ws_freed := ws_freed s @ [i]\<rparr>
         | _ \<Rightarrow> s)
     | None \<Rightarrow> s)"

inductive wait_step :: "wait_system \<Rightarrow> wait_system \<Rightarrow> bool" where
  notify: "wait_step s (notified_by s)"
| wait: "ws_waiter s = Running \<Longrightarrow> wo_waitUntil now deadline coro added (ws_obj s) = Inr (out, w) \<Longrightarrow>
    wait_step s (wait_begun deadline out w s)"
| wake: "ws_waiter s = Blocked deadline \<Longrightarrow> wo_wake now deadline (ws_obj s) = Some w \<Longrightarrow>
    wait_step s (s\<lparr>ws_obj := w, ws_waiter := Running, ws_arrived := False\<rparr>)"
| resume: "ws_waiter s = Yielding t False \<Longrightarrow> 0 < ws_resuming s \<Longrightarrow>
    wait_step s (s\<lparr>ws_waiter := Yielding t True, ws_resuming := ws_resuming s - 1\<rparr>)"
| proceed: "ws_waiter s = Yielding t True \<Longrightarrow> wait_step s (s\<lparr>ws_waiter := Resumed t\<rparr>)"
| finish: "ws_waiter s = Resumed t \<Longrightarrow> wait_step s ((timer_deleted t s)\<lparr>ws_waiter := Running, ws_arrived := False\<rparr>)"
| fire: "i < length (ws_timers s) \<Longrightarrow> ws_timers s ! i = Armed d \<Longrightarrow> d \<le> now \<Longrightarrow>
    wait_step s (s\<lparr>ws_timers := (ws_timers s)[i := Firing]\<rparr>)"
| onDeadline: "i < length (ws_timers s) \<Longrightarrow> ws_timers s ! i = Firing \<Longrightarrow>
    wait_step s ((notified_by s)\<lparr>ws_timers := (ws_timers s)[i := Fired]\<rparr>)"
| release: "i < length (ws_timers s) \<Longrightarrow> ws_timers s ! i = Fired \<Longrightarrow>
    wait_step s (s\<lparr>ws_timers := (ws_timers s)[i := Done], ws_freed := ws_freed s @ [i]\<rparr>)"

inductive_cases wait_stepE: "wait_step s s'"

section \<open>The invariant\<close>

primrec timer_live :: "timer_state \<Rightarrow> bool" where
  "timer_live (Armed d) = True"
| "timer_live Firing = True"
| "timer_live Fired = True"
| "timer_live Done = False"
| "timer_live Deleted = False"

text \<open>Which timer the waiter still has to delete; no other timer is armed.\<close>

definition own_timer :: "waiter \<Rightarrow> nat option" where
  "own_timer w = (case w of Yielding t q \<Rightarrow> t | Resumed t \<Rightarrow> t | _ \<Rightarrow> None)"

definition timers_inv :: "wait_system \<Rightarrow> bool" where
  "timers_inv s \<longleftrightarrow> distinct (ws_freed s) \<and>
     (\<forall>i. i \<in> set (ws_freed s) \<longleftrightarrow> i < length (ws_timers s) \<and> \<not> timer_live (ws_timers s ! i)) \<and>
     (\<forall>i d. i < length (ws_timers s) \<longrightarrow> ws_timers s ! i = Armed d \<longrightarrow> own_timer (ws_waiter s) = Some i) \<and>
     (\<forall>i. own_timer (ws_waiter s) = Some i \<longrightarrow> i < length (ws_timers s) \<and> ws_timers s ! i \<noteq> Deleted)"

text \<open>The waiter and the object: registered exactly while nobody has taken the resume functor, and a
  registered waiter's timer has not notified.\<close>

definition waiter_inv :: "wait_system \<Rightarrow> bool" where
  "waiter_inv s \<longleftrightarrow> wo_resume (ws_obj s) = wo_coroutineWaiting (ws_obj s) \<and> (case ws_waiter s of
       Yielding t False \<Rightarrow> ws_resuming s = (if wo_coroutineWaiting (ws_obj s) then 0 else 1) \<and>
         (wo_coroutineWaiting (ws_obj s) \<longrightarrow> \<not> wo_notified (ws_obj s) \<and> \<not> ws_arrived s \<and>
           (\<forall>i. t = Some i \<longrightarrow> (\<exists>d. ws_timers s ! i = Armed d) \<or> ws_timers s ! i = Firing))
     | Blocked d \<Rightarrow> \<not> wo_coroutineWaiting (ws_obj s) \<and> ws_resuming s = 0 \<and> (ws_arrived s \<longrightarrow> wo_notified (ws_obj s))
     | Running \<Rightarrow> \<not> wo_coroutineWaiting (ws_obj s) \<and> ws_resuming s = 0 \<and> (ws_arrived s \<longrightarrow> wo_notified (ws_obj s))
     | _ \<Rightarrow> \<not> wo_coroutineWaiting (ws_obj s) \<and> ws_resuming s = 0)"

definition wait_inv :: "wait_system \<Rightarrow> bool" where
  "wait_inv s \<longleftrightarrow> timers_inv s \<and> waiter_inv s"

lemma wait_inv_start: "wait_inv ws_start"
  by (simp add: wait_inv_def timers_inv_def waiter_inv_def ws_start_def wo_make_def own_timer_def)

lemma notified_by_simps [simp]:
  "ws_waiter (notified_by s) = ws_waiter s" "ws_timers (notified_by s) = ws_timers s" "ws_freed (notified_by s) = ws_freed s"
  "ws_arrived (notified_by s)"
  by (simp_all add: notified_by_def Let_def split: prod.splits)

lemma timers_inv_cong:
  "ws_freed s' = ws_freed s \<Longrightarrow> ws_timers s' = ws_timers s \<Longrightarrow> own_timer (ws_waiter s') = own_timer (ws_waiter s) \<Longrightarrow>
     timers_inv s' = timers_inv s"
  by (simp add: timers_inv_def)

lemma timers_invD:
  assumes "timers_inv s"
  shows "distinct (ws_freed s)" "j \<in> set (ws_freed s) \<longleftrightarrow> j < length (ws_timers s) \<and> \<not> timer_live (ws_timers s ! j)"
    "j < length (ws_timers s) \<Longrightarrow> ws_timers s ! j = Armed d \<Longrightarrow> own_timer (ws_waiter s) = Some j"
    "own_timer (ws_waiter s) = Some j \<Longrightarrow> j < length (ws_timers s) \<and> ws_timers s ! j \<noteq> Deleted"
  using assms unfolding timers_inv_def by blast+

text \<open>A timer that changes its state, and is released if it ends.\<close>

lemma timers_inv_update:
  assumes inv: "timers_inv s" and i: "i < length (ws_timers s)" "timer_live (ws_timers s ! i)"
    and s': "ws_timers s' = (ws_timers s)[i := t]" "ws_freed s' = ws_freed s @ (if timer_live t then [] else [i])"
    and t: "\<forall>d. t \<noteq> Armed d" "own_timer (ws_waiter s') = own_timer (ws_waiter s) \<and> t \<noteq> Deleted \<or>
      own_timer (ws_waiter s') = None \<and> own_timer (ws_waiter s) = Some i"
  shows "timers_inv s'"
proof -
  note old = timers_invD [OF inv]
  have nth: "ws_timers s' ! j = (if j = i then t else ws_timers s ! j)" for j using s'(1) i(1) by (simp add: nth_list_update)
  have len: "length (ws_timers s') = length (ws_timers s)" using s'(1) by simp
  have "i \<notin> set (ws_freed s)" using old(2) i by blast
  then have "distinct (ws_freed s')" using old(1) s'(2) by simp
  moreover have "j \<in> set (ws_freed s') \<longleftrightarrow> j < length (ws_timers s') \<and> \<not> timer_live (ws_timers s' ! j)" for j
  proof (cases "j = i")
    case True
    then show ?thesis using \<open>i \<notin> set (ws_freed s)\<close> s'(2) nth len i(1) by simp
  next
    case False
    then show ?thesis using old(2) [of j] s'(2) nth len by simp
  qed
  moreover have "own_timer (ws_waiter s') = Some j" if "j < length (ws_timers s')" "ws_timers s' ! j = Armed d" for j d
  proof -
    have "j \<noteq> i" using that(2) nth t(1) by auto
    then have "own_timer (ws_waiter s) = Some j" using old(3) [of j d] that nth len by simp
    then show ?thesis using t(2) \<open>j \<noteq> i\<close> by auto
  qed
  moreover have "j < length (ws_timers s') \<and> ws_timers s' ! j \<noteq> Deleted" if "own_timer (ws_waiter s') = Some j" for j
    using that t(2) old(4) [of j] nth len by auto
  ultimately show ?thesis unfolding timers_inv_def by blast
qed

lemma timers_inv_armed:
  assumes inv: "timers_inv s" and s': "own_timer (ws_waiter s) = None" "ws_timers s' = ws_timers s @ [Armed d]" "ws_freed s' = ws_freed s"
    and own: "own_timer (ws_waiter s') = Some (length (ws_timers s))"
  shows "timers_inv s'"
proof -
  note old = timers_invD [OF inv]
  have "j \<in> set (ws_freed s') \<longleftrightarrow> j < length (ws_timers s') \<and> \<not> timer_live (ws_timers s' ! j)" for j
    using old(2) [of j] s' by (auto simp: nth_append less_Suc_eq)
  moreover have "own_timer (ws_waiter s') = Some j" if "j < length (ws_timers s')" "ws_timers s' ! j = Armed e" for j e
    using that old(3) [of j e] s' own by (cases "j < length (ws_timers s)") (auto simp: nth_append less_Suc_eq)
  moreover have "j < length (ws_timers s') \<and> ws_timers s' ! j \<noteq> Deleted" if "own_timer (ws_waiter s') = Some j" for j
    using that own s' by (auto simp: nth_append)
  ultimately show ?thesis using old(1) s' unfolding timers_inv_def by metis
qed

lemma timers_inv_own_gone:
  assumes inv: "timers_inv s" and i: "own_timer (ws_waiter s) = Some i" "\<forall>d. ws_timers s ! i \<noteq> Armed d"
    and s': "ws_timers s' = ws_timers s" "ws_freed s' = ws_freed s" "own_timer (ws_waiter s') = None"
  shows "timers_inv s'"
proof -
  note old = timers_invD [OF inv]
  have "\<not> (j < length (ws_timers s) \<and> ws_timers s ! j = Armed d)" for j d using old(3) [of j d] i by auto
  then show ?thesis using old(1,2) s' unfolding timers_inv_def by auto
qed

lemma step_timers_inv:
  assumes "wait_step s s'" "timers_inv s"
  shows "timers_inv s'"
  using assms
proof cases
  case notify
  then show ?thesis using timers_inv_cong [of s' s] assms(2) by simp
next
  case (wait now deadline coro added out w)
  then show ?thesis
    using timers_inv_armed [OF assms(2), of s' deadline] timers_inv_cong [of s' s] assms(2)
    by (cases out rule: wait_outcome.exhaust; cases "out = WaitYields True") (auto simp: wait_begun_def own_timer_def split: bool.splits)
next
  case (finish t)
  show ?thesis
  proof (cases t)
    case None
    then show ?thesis using finish timers_inv_cong [of s' s] assms(2) by (simp add: timer_deleted_def own_timer_def)
  next
    case (Some i)
    have i: "i < length (ws_timers s)" "own_timer (ws_waiter s) = Some i"
      using assms(2) finish Some by (auto simp: timers_inv_def own_timer_def)
    show ?thesis
    proof (cases "\<exists>d. ws_timers s ! i = Armed d")
      case True
      then show ?thesis
        using timers_inv_update [OF assms(2) i(1), of s' Deleted] finish Some i by (auto simp: timer_deleted_def own_timer_def)
    next
      case False
      then show ?thesis
        using timers_inv_own_gone [OF assms(2) i(2), of s'] finish Some
        by (cases "ws_timers s ! i") (auto simp: timer_deleted_def own_timer_def)
    qed
  qed
next
  case (fire i d now)
  then show ?thesis using timers_inv_update [OF assms(2), of i s' Firing] by simp
next
  case (onDeadline i)
  then show ?thesis using timers_inv_update [OF assms(2), of i s' Fired] by simp
next
  case (release i)
  then show ?thesis using timers_inv_update [OF assms(2), of i s' Done] by simp
qed (use timers_inv_cong [of s' s] assms(2) in \<open>simp_all add: own_timer_def\<close>)

lemma notified_waiter_inv:
  assumes "waiter_inv s"
  shows "waiter_inv (notified_by s)" "waiter_inv ((notified_by s)\<lparr>ws_timers := ts\<rparr>)"
  using assms by (auto simp: waiter_inv_def notified_by_def wo_notify_def Let_def split: waiter.splits bool.splits)

lemma step_waiter_inv:
  assumes "wait_step s s'" "timers_inv s" "waiter_inv s"
  shows "waiter_inv s'"
  using assms(1)
proof cases
  case notify
  then show ?thesis using notified_waiter_inv(1) [OF assms(3)] by simp
next
  case (wait now deadline coro added out w)
  then show ?thesis
    using assms(3)
    by (auto simp: waiter_inv_def wait_begun_def wo_waitUntil_def wo_yieldUntil_def rguard_def nth_append
        split: if_splits wait_outcome.splits bool.splits)
next
  case (finish t)
  then show ?thesis
    using assms(3) by (auto simp: waiter_inv_def timer_deleted_def split: option.splits timer_state.splits)
next
  case (fire i d now)
  then show ?thesis using assms(3) by (auto simp: waiter_inv_def nth_list_update split: waiter.splits bool.splits)
next
  case (onDeadline i)
  then show ?thesis using notified_waiter_inv(2) [OF assms(3)] by simp
next
  case (release i)
  then show ?thesis
    using assms(3) by (auto simp: waiter_inv_def nth_list_update split: waiter.splits bool.splits)
qed (use assms(3) in \<open>auto simp: waiter_inv_def wo_wake_def split: if_splits\<close>)

lemma reachable_inv: "wait_step\<^sup>*\<^sup>* ws_start s \<Longrightarrow> wait_inv s"
  by (induction rule: rtranclp_induct)
    (auto simp: wait_inv_start, auto simp: wait_inv_def dest: step_timers_inv step_waiter_inv)

section \<open>Properties\<close>

text \<open>
  C5: No wake-up is lost and none is given twice. Under every interleaving of the waiter with
  notifiers and timers: the waiter never finds itself registered when it starts to wait; the resume
  functor is called only for a suspended coroutine, once for each registration; if something arrived
  since the previous wait returned, then a new wait returns at once, a blocked thread returns, and a
  suspended coroutine is being resumed or was; and a suspended coroutine with a deadline that nobody
  resumes has a timer that still will.
\<close>

theorem no_wakeup_lost:
  assumes "wait_step\<^sup>*\<^sup>* ws_start s"
  shows "(ws_waiter s = Running \<longrightarrow> (\<exists>out w. wo_waitUntil now deadline coro added (ws_obj s) = Inr (out, w) \<and> (ws_arrived s \<longrightarrow> out = WaitReturns))) \<and>
    (0 < ws_resuming s \<longrightarrow> ws_resuming s = 1 \<and> (\<exists>t. ws_waiter s = Yielding t False)) \<and>
    (\<forall>d. ws_waiter s = Blocked d \<and> ws_arrived s \<longrightarrow> wo_wake now d (ws_obj s) \<noteq> None) \<and>
    (\<forall>t. ws_waiter s = Yielding t False \<longrightarrow> ws_resuming s = 1 \<or> \<not> ws_arrived s \<and>
       (\<forall>i. t = Some i \<longrightarrow> (\<exists>d. ws_timers s ! i = Armed d) \<or> ws_timers s ! i = Firing))"
proof -
  have "waiter_inv s" using reachable_inv [OF assms] by (simp add: wait_inv_def)
  then show ?thesis
    by (auto simp: waiter_inv_def wo_waitUntil_def wo_yieldUntil_def wo_wake_def rguard_def split: waiter.splits bool.splits if_splits)
qed

text \<open>
  C31: The reference a deadline timer holds to its wait object is released exactly once. Under every
  interleaving no timer argument is released twice, a timer that may still run its callback keeps its
  argument, and when no callback is running and the waiter is not inside a wait every argument has
  been released.
\<close>

theorem timer_argument_released_once:
  assumes "wait_step\<^sup>*\<^sup>* ws_start s"
  shows "distinct (ws_freed s) \<and>
    (\<forall>i < length (ws_timers s). timer_live (ws_timers s ! i) \<longleftrightarrow> i \<notin> set (ws_freed s)) \<and>
    (own_timer (ws_waiter s) = None \<and> Firing \<notin> set (ws_timers s) \<and> Fired \<notin> set (ws_timers s) \<longrightarrow>
       set (ws_freed s) = {..<length (ws_timers s)})"
proof -
  have inv: "timers_inv s" using reachable_inv [OF assms] by (simp add: wait_inv_def)
  have "\<not> timer_live (ws_timers s ! i)"
    if "own_timer (ws_waiter s) = None" "Firing \<notin> set (ws_timers s)" "Fired \<notin> set (ws_timers s)" "i < length (ws_timers s)" for i
    using timers_invD(3) [OF inv, of i] that nth_mem [OF that(4)] by (cases "ws_timers s ! i") auto
  then have "set (ws_freed s) = {..<length (ws_timers s)}"
    if "own_timer (ws_waiter s) = None" "Firing \<notin> set (ws_timers s)" "Fired \<notin> set (ws_timers s)"
    using that timers_invD(2) [OF inv] by blast
  then show ?thesis using timers_invD(1,2) [OF inv] by blast
qed

text \<open>A wait with a deadline that a notifier ends before the timer runs.\<close>

definition sample_wait :: wait_system where
  "sample_wait = \<lparr>ws_obj = wo_make, ws_waiter = Running, ws_resuming = 0, ws_timers = [Deleted], ws_arrived = False, ws_freed = [0]\<rparr>"

definition sample_yielded :: wait_system where
  "sample_yielded = wait_begun 10 (WaitYields True) (wo_make\<lparr>wo_coroutineWaiting := True, wo_resume := True\<rparr>) ws_start"

lemma sample_yields: "wait_step\<^sup>*\<^sup>* ws_start sample_yielded"
  unfolding sample_yielded_def
  by (intro r_into_rtranclp wait_step.wait [where now = 0 and coro = True and added = True])
    (simp_all add: ws_start_def wo_make_def wo_waitUntil_def wo_yieldUntil_def no_deadline_def)

lemma sample_notified: "wait_step\<^sup>*\<^sup>* ws_start (notified_by sample_yielded)"
  using sample_yields wait_step.notify by (rule rtranclp.rtrancl_into_rtrancl)

lemma sample_waited: "wait_step\<^sup>*\<^sup>* ws_start sample_wait"
proof -
  let ?a = "notified_by sample_yielded"
  let ?b = "?a\<lparr>ws_waiter := Yielding (Some 0) True, ws_resuming := 0\<rparr>"
  have state: "?a = \<lparr>ws_obj = wo_make, ws_waiter = Yielding (Some 0) False, ws_resuming = 1, ws_timers = [Armed 10], ws_arrived = True, ws_freed = []\<rparr>"
    by (simp add: notified_by_def sample_yielded_def wait_begun_def ws_start_def wo_make_def wo_notify_def)
  have "wait_step ?a ?b" using wait_step.resume [of ?a "Some 0"] by (simp add: state)
  moreover have "wait_step ?b (?b\<lparr>ws_waiter := Resumed (Some 0)\<rparr>)" using wait_step.proceed [of ?b "Some 0"] by (simp add: state)
  moreover have "wait_step (?b\<lparr>ws_waiter := Resumed (Some 0)\<rparr>) sample_wait"
    using wait_step.finish [of "?b\<lparr>ws_waiter := Resumed (Some 0)\<rparr>" "Some 0"] by (simp add: state timer_deleted_def sample_wait_def)
  ultimately show ?thesis using sample_notified by (meson rtranclp.rtrancl_into_rtrancl)
qed

theorem no_wakeup_lost_witness: "ws_resuming (notified_by sample_yielded) = 1 \<and> ws_waiter (notified_by sample_yielded) = Yielding (Some 0) False"
proof -
  have "ws_waiter (notified_by sample_yielded) = Yielding (Some 0) False" "ws_arrived (notified_by sample_yielded)"
    by (simp_all add: sample_yielded_def wait_begun_def ws_start_def)
  then show ?thesis using no_wakeup_lost [OF sample_notified, of 0 0 True True] by blast
qed

theorem timer_argument_released_once_witness: "wait_step\<^sup>*\<^sup>* ws_start sample_wait \<and> set (ws_freed sample_wait) = {..<1}"
  using timer_argument_released_once [OF sample_waited] sample_waited by (simp add: sample_wait_def own_timer_def)

end
