(* ===== verification/Event_Watermark.thy ===== *)
theory Event_Watermark
  imports Event_Resume
begin

text \<open>
  Resuming at a watermark, the token a drained stream gives for the end of a batch. Its timestamp is
  the source's emit bound; records up to it have been consumed, and the groups already past it have
  their positions in the token. The resumed stream reads the records above the bound and catches up as
  after an event.
\<close>

text \<open>A pull returns nothing only when nothing is left.\<close>

lemma loop_none:
  "es_next_loop env s rs = Inr (None, s1, rs1) \<Longrightarrow> \<not> es_invalidated s1 \<Longrightarrow>
     es_current s1 = None \<and> es_pendingInvalidate s1 = None \<and> rs1 = []"
proof (induction env s rs rule: es_next_loop.induct)
  case (1 env s rs)
  note step = "1.prems"(1) [unfolded es_next_loop.simps [of env s rs]]
  show ?case
  proof (cases "es_invalidated s")
    case True
    then show ?thesis using "1.prems" by (simp add: es_next_loop_invalidated)
  next
    case False
    show ?thesis
    proof (cases "es_pendingInvalidate s")
      case (Some i)
      then show ?thesis using step False by (auto split: option.splits bson.splits)
    next
      case pending: None
      show ?thesis
      proof (cases "es_current s")
        case (Some c)
        then obtain c1 s2 where p: "produce_next c s = Inr (None, c1, s2)"
            and more: "es_next_loop env ((move_cursor c1 None s2)\<lparr>es_current := None\<rparr>) rs = Inr (None, s1, rs1)"
          using "1.prems"(1) False pending by (auto simp: es_next_loop_current Let_def split: option.splits)
        show ?thesis using "1.IH"(2) [OF False pending Some p refl refl refl more "1.prems"(2)] .
      next
        case None
        show ?thesis
        proof (cases rs)
          case Nil
          then show ?thesis using "1.prems" False pending None by (auto simp: es_next_loop_empty)
        next
          case (Cons r rest)
          then obtain s2 where b: "es_begin env r s = Inr (None, s2)" and more: "es_next_loop env s2 rest = Inr (None, s1, rs1)"
            using "1.prems"(1) False pending None by (auto simp: es_next_loop_record split: option.splits)
          show ?thesis using "1.IH"(1) [OF False pending None Cons b refl refl more "1.prems"(2)] .
        qed
      qed
    qed
  qed
qed

lemma watermark_parsed:
  assumes "groups_ok s" "emitBound src \<noteq> -1" "toBSON (watermark src s) = Inr tok"
  shows "parse tok = Inr (watermark src s)"
proof -
  have "list_all entry_ok (es_entries s (emitBound src))" using entries_ok [OF assms(1)] .
  then have "token_ok (watermark src s)"
    using assms toBSON_entries [of "es_entries s (emitBound src)" "emitBound src" kWatermark] entries_distinct [of s "emitBound src"]
    by (auto simp: token_ok_def watermark_def makeWatermark_def mkToken_def groups_ok_def split: if_splits)
  then show ?thesis using parse_of_toBSON assms(3) by fastforce
qed

lemma succ_bound:
  assumes "(b :: u64) \<noteq> -1"
  shows "0 < b + 1" and "b < t \<longleftrightarrow> b + 1 \<le> t"
proof -
  have "b + 1 \<noteq> 0" using assms by (metis add.commute add_eq_0_iff)
  then show "0 < b + 1" by (simp add: word_gt_0)
  show "b < t \<longleftrightarrow> b + 1 \<le> t" using assms by (simp add: inc_less_eq_iff)
qed

text \<open>
  The records consumed so far lie at most one above the bound, and those to come lie above it: what
  the source guarantees when it reports itself drained.
\<close>

lemma watermark_catches_up:
  assumes tr: "traced env h None s" "es_pendingInvalidate s = None"
    and bound: "emitBound src0 \<noteq> -1" "\<forall>r \<in> set (map fst h). sr_timestamp r \<le> emitBound src0 + 1"
      "\<forall>r \<in> set later_rs. emitBound src0 < sr_timestamp r"
    and order: "log_ordered (map fst h @ later_rs)"
    and opened: "openAt (watermark src0 s) (make_stream (es_scope s) (es_dedupSetBytes s), src) = Inr (R, src1)"
    and ids: "distinct (map sg_id (ss_groups src))" "sr_logGroupId ` set (map fst h) \<subseteq> sg_id ` set (ss_groups src)"
  shows "caught_up env (emitBound src0 + 1) s R (filter (\<lambda>r. emitBound src0 < sr_timestamp r) (map fst h @ later_rs)) later_rs \<and>
    es_openingToken R \<noteq> [] \<and> (\<forall>x \<in> set (ss_groups src1). started_from (emitBound src0 + 1) x)"
proof -
  define T where "T = emitBound src0 + 1"
  have T: "0 < T" "T - 1 = emitBound src0" "\<And>t. emitBound src0 < t \<longleftrightarrow> T \<le> t"
    using succ_bound [OF bound(1)] by (simp_all add: T_def)
  have s: "at_event h None T s"
    using traced_at_event [OF tr(1), of T] bound(2) order T(1)
    by (auto simp: moved_def progress_def history_until_def log_ordered_def sorted_wrt_append T_def)
  have token: "position_token T s (watermark src0 s)"
    by (simp add: position_token_def watermark_def makeWatermark_def mkToken_def T(2))
  have ids': "sr_logGroupId ` fst ` set h \<subseteq> sg_id ` set (ss_groups src)" using ids(2) by (simp add: image_image)
  note R = openAt_catching [OF s token opened ids(1) ids']
  have later: "\<forall>r \<in> set later_rs. T \<le> sr_timestamp r" using bound(3) T(3) by blast
  then have "filter (\<lambda>r. emitBound src0 < sr_timestamp r) (map fst h @ later_rs) = map fst (from_ts T h) @ later_rs"
    by (simp add: from_ts_records T(3))
  then show ?thesis
    using catch_up_idle [OF tr s order later R(1-3)] R(4) catchingD(4) [OF R(1)] by (simp add: T_def)
qed

text \<open>The pulls before and the pull that finds the source drained.\<close>

lemma drained_traced:
  assumes "openFresh (Some start) (make_stream scope limit) = Inr (True, s0)" "watchable scope"
    and "es_pulls env ts s0 rs = Inr (evs, s', rs')" "es_next env src0 now s' rs' = Inr (None, s1, rs1)"
    and "\<not> es_invalidated s1" "sorted (map sr_timestamp rs)"
  shows "\<exists>h. traced env h None s1 \<and> map fst h = rs \<and> rs1 = [] \<and> es_pendingInvalidate s1 = None \<and>
    es_scope s1 = scope \<and> es_dedupSetBytes s1 = limit \<and> es_openingToken s1 \<noteq> []"
proof -
  obtain tok0 where s0: "s0 = (make_stream scope limit)\<lparr>es_openingToken := tok0\<rparr>" "tok0 \<noteq> []"
    using assms(1) toBSON_not_empty by (auto simp: openFresh_def)
  have scope: "es_scope s0 = scope" by (simp add: s0 make_stream_def)
  have pulls: "es_pulls env (ts @ [(src0, now)]) s0 rs = Inr (evs @ [None], s1, rs1)"
    using assms(3,4)
  proof (induction ts arbitrary: s0 rs evs)
    case (Cons t ts)
    then show ?case by fastforce
  qed simp
  obtain s2 where loop: "es_next_loop env s' rs' = Inr (None, s2, rs1)" "s1 = publishStats src0 now None s2"
    using assms(4) by (auto simp: es_next_def)
  then have none: "es_current s1 = None" "es_pendingInvalidate s1 = None" "rs1 = []"
    using loop_none [OF loop(1)] assms(5) by (simp_all add: publishStats_def Let_def)
  obtain h cur where h: "traced env h cur s1" "begun_records h cur @ rs1 = rs" "settings s1 = settings s0"
    using pulls_traced [OF pulls, of "[]" None] traced_new [of env scope limit] s0 assms(2,5,6) scope
    by (auto simp: begun_records_def)
  moreover have "cur = None" using h(1) none(1) by (cases cur) (auto simp: traced_def current_inv_def)
  ultimately show ?thesis using none s0 by (auto simp: begun_records_def settings_def make_stream_def)
qed

lemma drained_resumes:
  assumes fresh: "openFresh (Some start) (make_stream scope limit) = Inr (True, s0)" "watchable scope"
    and pulls: "es_pulls env ts s0 rs = Inr (evs, s', rs')" "es_next env src0 now s' rs' = Inr (None, s1, rs1)" "\<not> es_invalidated s1"
    and order: "log_ordered (rs @ later_rs)" "records_from 1 (rs @ later_rs)"
    and bound: "emitBound src0 \<noteq> -1" "\<forall>r \<in> set rs. sr_timestamp r \<le> emitBound src0 + 1" "\<forall>r \<in> set later_rs. emitBound src0 < sr_timestamp r"
    and opened: "openAt (watermark src0 s1) (make_stream scope limit, src) = Inr (R, src1)"
    and ids: "distinct (map sg_id (ss_groups src))" "sr_logGroupId ` set rs \<subseteq> sg_id ` set (ss_groups src)"
    and len: "length ts1 = length ts2"
  shows "(\<forall>g \<in> set (ss_groups src1). started_from (emitBound src0 + 1) g) \<and>
    pulled_changes env ts1 s1 later_rs = pulled_changes env ts2 R (filter (\<lambda>r. emitBound src0 < sr_timestamp r) (rs @ later_rs))"
proof -
  have "sorted (map sr_timestamp rs)"
    using order(1) by (auto simp: log_ordered_def sorted_wrt_append sorted_wrt_map record_before_def elim: sorted_wrt_mono_rel [rotated])
  then obtain h where h: "traced env h None s1" "map fst h = rs" "es_pendingInvalidate s1 = None"
      and s1: "es_scope s1 = scope" "es_dedupSetBytes s1 = limit" "es_openingToken s1 \<noteq> []"
    using drained_traced [OF fresh pulls] by blast
  note up = watermark_catches_up [OF h(1,3), of src0 later_rs src R src1, unfolded h(2) s1(1,2), OF bound order(1) opened ids]
  have "emitBound src0 + 1 \<le> sr_timestamp r" if "r \<in> set later_rs" for r using bound(3) that inc_le by blast
  then have "records_from (emitBound src0 + 1) later_rs" using order(2) by (auto simp: records_from_def)
  then show ?thesis using catches_up_pulls [OF _ h(1) s1(3) _ _ len] up by auto
qed

end
