(* ===== verification/Stream_Registry.thy ===== *)
theory Stream_Registry
  imports Event_Stream "HOL-Library.Multiset"
begin

text \<open>
  The change streams open on a server and the section of \<open>serverStatus\<close> that reports them
  (\<open>cdc/cdc_stream_registry.h\<close>, \<open>.cpp\<close>). An entry points to the statistics its stream keeps; the
  statistics of all streams are a store, and a pointer is an index of it. Each operation holds the
  registry's lock, so it is one step.
\<close>

section \<open>The registry\<close>

type_synonym stats_store = "nat \<Rightarrow> stream_stats"

record registry_entry =
  re_scope :: bytes
  re_ns :: bytes
  re_stats :: nat

record stream_registry =
  rg_entries :: "(u64 \<times> registry_entry) list"
  rg_nextId :: u64
  rg_closedDedupOverflows :: u64

definition make_registry :: stream_registry where
  "make_registry = \<lparr>rg_entries = [], rg_nextId = 1, rg_closedDedupOverflows = 0\<rparr>"

text \<open>\<open>emplace\<close> leaves an entry the map already has.\<close>

definition registry_add :: "bytes \<Rightarrow> bytes \<Rightarrow> nat \<Rightarrow> stream_registry \<Rightarrow> u64 \<times> stream_registry" where
  "registry_add scope ns stats r =
     (let i = rg_nextId r; e = \<lparr>re_scope = scope, re_ns = ns, re_stats = stats\<rparr>
      in (i, r\<lparr>rg_nextId := i + 1,
               rg_entries := (if map_of (rg_entries r) i = None then om_put i e (rg_entries r) else rg_entries r)\<rparr>))"

definition registry_remove :: "stats_store \<Rightarrow> u64 \<Rightarrow> stream_registry \<Rightarrow> stream_registry" where
  "registry_remove stats i r = (case map_of (rg_entries r) i of
       None \<Rightarrow> r
     | Some e \<Rightarrow> r\<lparr>rg_closedDedupOverflows := rg_closedDedupOverflows r + st_dedupOverflows (stats (re_stats e)),
         rg_entries := filter (\<lambda>(j, _). j \<noteq> i) (rg_entries r)\<rparr>)"

definition registry_forEach :: "(registry_entry \<Rightarrow> 'a \<Rightarrow> 'a) \<Rightarrow> stream_registry \<Rightarrow> 'a \<Rightarrow> 'a \<times> u64" where
  "registry_forEach fn r a = (fold (\<lambda>(_, e). fn e) (rg_entries r) a, rg_closedDedupOverflows r)"

section \<open>The section of serverStatus\<close>

definition kMaxListedStreams :: int where
  "kMaxListedStreams = 1000"

record section_state =
  sx_open :: int
  sx_maxLag :: int
  sx_overflows :: u64
  sx_streams :: "bson list"

definition stream_lag :: "stream_stats \<Rightarrow> int" where
  "stream_lag st = (if st_emitBound st > st_producedThrough st then sint (st_emitBound st - st_producedThrough st) else 0)"

definition listed_stream :: "int \<Rightarrow> registry_entry \<Rightarrow> stream_stats \<Rightarrow> bson" where
  "listed_stream now e st = BObject
     [(bstr ''scope'', BString (re_scope e)), (bstr ''ns'', BString (re_ns e)),
      (bstr ''lagMicros'', BLong (word_of_int (stream_lag st))),
      (bstr ''emitBound'', BLong (st_emitBound st)), (bstr ''producedThrough'', BLong (st_producedThrough st)),
      (bstr ''dedupSetOverflows'', BLong (st_dedupOverflows st)),
      (bstr ''idleMillis'', BLong (word_of_int (if st_lastPullMillis st > 0 then now - st_lastPullMillis st else -1)))]"

definition section_stream :: "stats_store \<Rightarrow> int \<Rightarrow> registry_entry \<Rightarrow> section_state \<Rightarrow> section_state" where
  "section_stream stats now e x =
     (let st = stats (re_stats e); n = sx_open x + 1
      in \<lparr>sx_open = n, sx_maxLag = max (sx_maxLag x) (stream_lag st), sx_overflows = sx_overflows x + st_dedupOverflows st,
          sx_streams = (if n \<le> kMaxListedStreams then sx_streams x @ [listed_stream now e st] else sx_streams x)\<rparr>)"

text \<open>\<open>interval\<close> is the checkpointer's interval in seconds.\<close>

definition generateSection :: "stats_store \<Rightarrow> int \<Rightarrow> int \<Rightarrow> stream_registry \<Rightarrow> bson_obj" where
  "generateSection stats now interval r =
     (let (x, closed) = registry_forEach (section_stream stats now) r
            \<lparr>sx_open = 0, sx_maxLag = 0, sx_overflows = 0, sx_streams = []\<rparr>;
          overflows = sx_overflows x + closed
      in [(bstr ''open'', BLong (word_of_int (sx_open x))),
          (bstr ''maxLagMicros'', BLong (word_of_int (sx_maxLag x))),
          (bstr ''dedupSetOverflows'', BLong overflows),
          (bstr ''checkpointIntervalMillis'', BLong (word_of_int (1000 * interval))),
          (bstr ''streams'', BArray (array_from 0 (sx_streams x)))] @
         (if sx_open x > kMaxListedStreams then [(bstr ''streamsTruncated'', BBool True)] else []))"

section \<open>What happens on a server\<close>

text \<open>A stage made and destroyed, and a stream that finds its dedup set full.\<close>

datatype registry_op = StreamOpened bytes bytes nat | StreamClosed u64 | OverflowsRecorded nat u64

definition new_stats :: stream_stats where
  "new_stats = \<lparr>st_emitBound = 0, st_producedThrough = 0, st_dedupOverflows = 0, st_lastPullMillis = 0\<rparr>"

fun registry_step :: "registry_op \<Rightarrow> stream_registry \<times> stats_store \<Rightarrow> stream_registry \<times> stats_store" where
  "registry_step (StreamOpened scope ns p) (r, stats) = (snd (registry_add scope ns p r), stats(p := new_stats))"
| "registry_step (StreamClosed i) (r, stats) = (registry_remove stats i r, stats)"
| "registry_step (OverflowsRecorded p n) (r, stats) =
     (r, stats(p := (stats p)\<lparr>st_dedupOverflows := st_dedupOverflows (stats p) + n\<rparr>))"

definition open_stats :: "stream_registry \<Rightarrow> nat list" where
  "open_stats r = map (re_stats \<circ> snd) (rg_entries r)"

text \<open>A new stream has statistics of its own, and only an open stream counts.\<close>

fun registry_op_ok :: "registry_op \<Rightarrow> stream_registry \<Rightarrow> bool" where
  "registry_op_ok (StreamOpened scope ns p) r \<longleftrightarrow> p \<notin> set (open_stats r)"
| "registry_op_ok (StreamClosed i) r \<longleftrightarrow> True"
| "registry_op_ok (OverflowsRecorded p n) r \<longleftrightarrow> p \<in> set (open_stats r)"

fun registry_run :: "registry_op list \<Rightarrow> stream_registry \<times> stats_store \<Rightarrow> (stream_registry \<times> stats_store) option" where
  "registry_run [] s = Some s"
| "registry_run (op # ops) s = (if registry_op_ok op (fst s) then registry_run ops (registry_step op s) else None)"

fun recorded :: "registry_op \<Rightarrow> u64" where
  "recorded (OverflowsRecorded p n) = n"
| "recorded op = 0"

section \<open>The lifetime total\<close>

definition open_overflows :: "stats_store \<Rightarrow> (u64 \<times> registry_entry) list \<Rightarrow> u64" where
  "open_overflows stats es = (\<Sum>(i, e) \<leftarrow> es. st_dedupOverflows (stats (re_stats e)))"

definition total_overflows :: "stream_registry \<times> stats_store \<Rightarrow> u64" where
  "total_overflows s = open_overflows (snd s) (rg_entries (fst s)) + rg_closedDedupOverflows (fst s)"

definition registry_inv :: "nat \<Rightarrow> stream_registry \<Rightarrow> bool" where
  "registry_inv n r \<longleftrightarrow> om_inv (rg_entries r) \<and> distinct (open_stats r) \<and> unat (rg_nextId r) = Suc n \<and>
     (\<forall>i \<in> fst ` set (rg_entries r). i < rg_nextId r)"

lemma open_overflows_simps [simp]:
  "open_overflows stats [] = 0"
  "open_overflows stats ((i, e) # es) = st_dedupOverflows (stats (re_stats e)) + open_overflows stats es"
  by (simp_all add: open_overflows_def)

lemma open_overflows_put:
  "i \<notin> fst ` set es \<Longrightarrow> open_overflows stats (om_put i e es) = st_dedupOverflows (stats (re_stats e)) + open_overflows stats es"
  by (induction i e es rule: om_put.induct) auto

lemma open_stats_put: "i \<notin> fst ` set es \<Longrightarrow> mset (map (re_stats \<circ> snd) (om_put i e es)) = add_mset (re_stats e) (mset (map (re_stats \<circ> snd) es))"
  by (induction i e es rule: om_put.induct) auto

lemma open_overflows_cong:
  "(\<And>i e. (i, e) \<in> set es \<Longrightarrow> st_dedupOverflows (stats (re_stats e)) = st_dedupOverflows (stats' (re_stats e))) \<Longrightarrow>
     open_overflows stats es = open_overflows stats' es"
  by (induction es) fastforce+

lemma open_overflows_erase:
  "map_of es i = Some e \<Longrightarrow> om_inv es \<Longrightarrow>
     open_overflows stats es = st_dedupOverflows (stats (re_stats e)) + open_overflows stats (filter (\<lambda>(j, _). j \<noteq> i) es)"
proof (induction es)
  case (Cons a es)
  have "filter (\<lambda>(j, _). j \<noteq> i) es = es" if "fst a = i"
    using Cons.prems(2) that by (auto simp: om_inv_def intro!: filter_True)
  then show ?case using Cons by (cases a) (auto simp: om_inv_def split: if_splits)
qed simp

lemma open_overflows_counted:
  "p \<in> set (map (re_stats \<circ> snd) es) \<Longrightarrow> distinct (map (re_stats \<circ> snd) es) \<Longrightarrow>
     open_overflows (stats(p := (stats p)\<lparr>st_dedupOverflows := st_dedupOverflows (stats p) + n\<rparr>)) es = open_overflows stats es + n"
proof (induction es)
  case (Cons a es)
  obtain i e where a: "a = (i, e)" by (cases a)
  show ?case
  proof (cases "re_stats e = p")
    case True
    then have "p \<notin> set (map (re_stats \<circ> snd) es)" using Cons.prems(2) a by auto
    then have "open_overflows (stats(p := st)) es = open_overflows stats es" for st
      by (intro open_overflows_cong) force
    then show ?thesis using True a by (simp del: fun_upd_apply add: fun_upd_same)
  next
    case False
    then show ?thesis using Cons a by (simp add: add.assoc)
  qed
qed simp

lemma step_inv:
  assumes "registry_inv n r" "registry_op_ok op r" "Suc (Suc n) < 2 ^ 64"
  shows "\<exists>m. registry_inv m (fst (registry_step op (r, stats))) \<and> m \<le> Suc n"
    and "total_overflows (registry_step op (r, stats)) = total_overflows (r, stats) + recorded op"
proof -
  note inv = assms(1) [unfolded registry_inv_def]
  have "(\<exists>m. registry_inv m (fst (registry_step op (r, stats))) \<and> m \<le> Suc n) \<and>
    total_overflows (registry_step op (r, stats)) = total_overflows (r, stats) + recorded op"
  proof (cases op)
    case (StreamOpened scope ns p)
    let ?e = "\<lparr>re_scope = scope, re_ns = ns, re_stats = p\<rparr>"
    have new: "rg_nextId r \<notin> fst ` set (rg_entries r)" using inv by auto
    then have added: "snd (registry_add scope ns p r) = r\<lparr>rg_nextId := rg_nextId r + 1, rg_entries := om_put (rg_nextId r) ?e (rg_entries r)\<rparr>"
      by (simp add: registry_add_def Let_def map_of_eq_None_iff)
    have succ: "unat (rg_nextId r + 1) = Suc (Suc n)" using inv assms(3) by (simp add: unat_word_ariths)
    then have less: "rg_nextId r < rg_nextId r + 1" using inv by (simp add: word_less_nat_alt)
    have "mset (open_stats (r\<lparr>rg_nextId := rg_nextId r + 1, rg_entries := om_put (rg_nextId r) ?e (rg_entries r)\<rparr>)) = add_mset p (mset (open_stats r))"
      using open_stats_put [OF new, of ?e] by (simp add: open_stats_def)
    then have "distinct (open_stats (r\<lparr>rg_nextId := rg_nextId r + 1, rg_entries := om_put (rg_nextId r) ?e (rg_entries r)\<rparr>))"
      using inv assms(2) StreamOpened by (metis distinct.simps(2) mset.simps(2) mset_eq_imp_distinct_iff registry_op_ok.simps(1))
    then have "registry_inv (Suc n) (snd (registry_add scope ns p r))"
      using inv succ less unfolding added registry_inv_def by (auto simp: om_inv_om_put set_keys_om_put intro: less_trans)
    moreover have "open_overflows (stats(p := new_stats)) (rg_entries r) = open_overflows stats (rg_entries r)"
      using assms(2) StreamOpened by (intro open_overflows_cong) (force simp: open_stats_def)
    ultimately show ?thesis
      using StreamOpened open_overflows_put [OF new] added by (auto simp: total_overflows_def new_stats_def)
  next
    case (StreamClosed i)
    show ?thesis
    proof (cases "map_of (rg_entries r) i")
      case None
      then show ?thesis using StreamClosed assms(1) by (auto simp: registry_remove_def)
    next
      case (Some e)
      have "distinct (map (re_stats \<circ> snd) (filter P es))" if "distinct (map (re_stats \<circ> snd) es)" for P and es :: "(u64 \<times> registry_entry) list"
        using that by (rule distinct_map_filter)
      moreover have "om_inv (filter P (rg_entries r))" for P using inv by (simp add: om_inv_def sorted_wrt_filter sorted_wrt_map)
      ultimately have "registry_inv n (registry_remove stats i r)"
        using inv Some by (auto simp: registry_inv_def registry_remove_def open_stats_def)
      then show ?thesis
        using StreamClosed Some open_overflows_erase [OF Some, of stats] inv
        by (auto simp: total_overflows_def registry_remove_def)
    qed
  next
    case (OverflowsRecorded p k)
    then show ?thesis
      using open_overflows_counted [of p "rg_entries r" stats k] assms(1,2) inv
      by (auto simp: total_overflows_def open_stats_def)
  qed
  then show "\<exists>m. registry_inv m (fst (registry_step op (r, stats))) \<and> m \<le> Suc n"
    "total_overflows (registry_step op (r, stats)) = total_overflows (r, stats) + recorded op" by blast+
qed

lemma run_total:
  "registry_run ops s = Some s' \<Longrightarrow> registry_inv n (fst s) \<Longrightarrow> n + length ops + 1 < 2 ^ 64 \<Longrightarrow>
     total_overflows s' = total_overflows s + (\<Sum>op \<leftarrow> ops. recorded op)"
proof (induction ops arbitrary: s n)
  case (Cons op ops)
  obtain r stats where s: "s = (r, stats)" by (cases s)
  note step = step_inv [of n r op stats]
  obtain m where "registry_inv m (fst (registry_step op s))" "m \<le> Suc n" using step Cons.prems s by (auto split: if_splits)
  then show ?case using Cons.IH [of "registry_step op s" m] Cons.prems step(2) s by (auto simp: add.assoc split: if_splits)
qed simp

lemma section_fold:
  "sx_overflows (fold (\<lambda>(_, e). section_stream stats now e) es x) = sx_overflows x + open_overflows stats es"
  "sx_open (fold (\<lambda>(_, e). section_stream stats now e) es x) = sx_open x + int (length es)"
  by (induction es arbitrary: x) (auto simp: section_stream_def Let_def add.assoc)

lemma section_streams:
  "0 \<le> sx_open x \<Longrightarrow> length (sx_streams x) = nat (min (sx_open x) kMaxListedStreams) \<Longrightarrow>
     length (sx_streams (fold (\<lambda>(_, e). section_stream stats now e) es x)) = nat (min (sx_open x + int (length es)) kMaxListedStreams)"
proof (induction es arbitrary: x)
  case (Cons a es)
  obtain i e where a: "a = (i, e)" by (cases a)
  have "length (sx_streams (section_stream stats now e x)) = nat (min (sx_open (section_stream stats now e x)) kMaxListedStreams)"
    using Cons.prems by (auto simp: section_stream_def Let_def kMaxListedStreams_def)
  then show ?case using Cons.IH [of "section_stream stats now e x"] Cons.prems(1) a by (simp add: section_stream_def Let_def add.assoc)
qed simp

lemma length_array_from [simp]: "length (array_from i vs) = length vs"
  by (induction i vs rule: array_from.induct) simp_all

text \<open>
  C32: The overflow count of \<open>serverStatus\<close> covers the server's lifetime. After any sequence of streams
  opening, closing and counting overflows, the section's \<open>dedupSetOverflows\<close> is the sum of all that was
  ever counted, each overflow once, whether its stream is still open or has closed; \<open>open\<close> is the
  number of streams not yet removed, and at most a thousand are listed one by one.
\<close>

theorem section_counts_lifetime:
  assumes "registry_run ops (make_registry, stats0) = Some (r, stats)" "length ops + 1 < 2 ^ 64"
  shows "getField (generateSection stats now interval r) (bstr ''dedupSetOverflows'') = Some (BLong (\<Sum>op \<leftarrow> ops. recorded op)) \<and>
    getField (generateSection stats now interval r) (bstr ''open'') = Some (BLong (of_nat (length (rg_entries r)))) \<and>
    (\<exists>vs. getField (generateSection stats now interval r) (bstr ''streams'') = Some (BArray vs) \<and> length vs = min (length (rg_entries r)) 1000)"
proof -
  let ?x0 = "\<lparr>sx_open = 0, sx_maxLag = 0, sx_overflows = 0, sx_streams = []\<rparr>"
  have "registry_inv 0 (fst (make_registry, stats0))"
    by (simp add: registry_inv_def make_registry_def om_inv_def open_stats_def)
  from run_total [OF assms(1) this] have "total_overflows (r, stats) = (\<Sum>op \<leftarrow> ops. recorded op)"
    using assms(2) by (simp add: total_overflows_def make_registry_def)
  moreover have "length (sx_streams (fold (\<lambda>(_, e). section_stream stats now e) (rg_entries r) ?x0)) = min (length (rg_entries r)) 1000"
    using section_streams [of ?x0 stats now "rg_entries r"] by (simp add: kMaxListedStreams_def min_def)
  ultimately show ?thesis
    using section_fold(1) [of stats now "rg_entries r" ?x0] section_fold(2) [of stats now "rg_entries r" ?x0]
    by (simp add: generateSection_def registry_forEach_def total_overflows_def bstr_def)
qed

theorem section_counts_lifetime_witness:
  "\<exists>r stats. registry_run [StreamOpened (bstr ''deployment'') [] 0, OverflowsRecorded 0 3, StreamOpened (bstr ''database'') (bstr ''d'') 1,
       StreamClosed 1, OverflowsRecorded 1 4] (make_registry, \<lambda>_. new_stats) = Some (r, stats) \<and> map fst (rg_entries r) = [2] \<and>
     getField (generateSection stats 0 60 r) (bstr ''dedupSetOverflows'') = Some (BLong 7)"
proof -
  let ?ops = "[StreamOpened (bstr ''deployment'') [] 0, OverflowsRecorded 0 3, StreamOpened (bstr ''database'') (bstr ''d'') 1,
       StreamClosed 1, OverflowsRecorded 1 4]"
  obtain r stats where run: "registry_run ?ops (make_registry, \<lambda>_. new_stats) = Some (r, stats)" "map fst (rg_entries r) = [2]"
    by (simp add: registry_add_def registry_remove_def make_registry_def open_stats_def Let_def)
  then show ?thesis using section_counts_lifetime [OF run(1), of 0 60] by auto
qed

end
