(* ===== verification/Change_Stream_Stage.thy ===== *)
theory Change_Stream_Stage
  imports Event_Watermark Stream_Registry
begin

text \<open>
  The stage a \<open>$changeStream\<close> expands into (\<open>cdc/document_source_eloq_change_stream.cpp\<close>), what
  \<open>DocumentSourceChangeStream::createFromBson\<close> checks before it calls the storage engine's factory
  (\<open>pipeline/document_source_change_stream.cpp\<close>), the shape of MongoDB's own resume tokens
  (\<open>pipeline/resume_token.cpp\<close>) and the stage that closes the cursor after an invalidate. The parser of
  the specification is generated from \<open>document_sources.idl\<close> and is a parameter; so are the conversion of a
  binary MongoDB token to its pieces and what the passes of \<open>fixStart\<close> come to.
\<close>

section \<open>Namespaces\<close>

definition nss_isAdminDB :: "bytes \<Rightarrow> bool" where
  "nss_isAdminDB ns \<longleftrightarrow> nss_db ns = bstr ''admin''"

definition nss_isLocal :: "bytes \<Rightarrow> bool" where
  "nss_isLocal ns \<longleftrightarrow> nss_db ns = bstr ''local''"

definition nss_isConfigDB :: "bytes \<Rightarrow> bool" where
  "nss_isConfigDB ns \<longleftrightarrow> nss_db ns = bstr ''config''"

definition nss_isSystem :: "bytes \<Rightarrow> bool" where
  "nss_isSystem ns \<longleftrightarrow> take 7 (nss_coll ns) = bstr ''system.''"

definition isCollectionlessAggregateNS :: "bytes \<Rightarrow> bool" where
  "isCollectionlessAggregateNS ns \<longleftrightarrow> nss_coll ns = bstr ''$cmd.aggregate''"

section \<open>MongoDB's resume tokens\<close>

record mongo_token =
  mt_keyStringData :: bson
  mt_typeBits :: "bson option"

fun is_general_bindata :: "bson \<Rightarrow> bool" where
  "is_general_bindata (BBinData t b) \<longleftrightarrow> t = 0"
| "is_general_bindata v \<longleftrightarrow> False"

fun is_string :: "bson \<Rightarrow> bool" where
  "is_string (BString b) \<longleftrightarrow> True"
| "is_string v \<longleftrightarrow> False"

definition ResumeToken :: "bson_obj \<Rightarrow> mongo_token result" where
  "ResumeToken doc = (case getField doc (bstr ''_data'') of
       None \<Rightarrow> Inl (Location 40647)
     | Some d \<Rightarrow>
         rbind (rguard (is_general_bindata d \<or> is_string d) (Location 40647)) (\<lambda>_.
         let bits = getField doc (bstr ''_typeBits'') in
         rbind (rguard (case bits of None \<Rightarrow> True | Some b \<Rightarrow> is_general_bindata b) (Location 40648)) (\<lambda>_.
         Inr \<lparr>mt_keyStringData = d, mt_typeBits = bits\<rparr>)))"

text \<open>\<open>toDocument(kHexString)\<close>; a binary token is taken apart and written again by \<open>convert\<close>.\<close>

definition toDocument :: "(mongo_token \<Rightarrow> bson_obj result) \<Rightarrow> mongo_token \<Rightarrow> bson_obj result" where
  "toDocument convert t =
     (if is_string (mt_keyStringData t)
      then Inr ((bstr ''_data'', mt_keyStringData t) # (case mt_typeBits t of None \<Rightarrow> [] | Some b \<Rightarrow> [(bstr ''_typeBits'', b)]))
      else convert t)"

section \<open>Settings\<close>

record cdc_params =
  cdc_scan_max_bytes :: int
  cdc_cursor_buffer_bytes :: int
  cdc_scan_max_wait_ms :: int
  cdc_dedup_set_bytes :: int

definition kMaxScanPageBytes :: int where "kMaxScanPageBytes = 32 * 1024 * 1024"
definition kMaxCursorBufferBytes :: int where "kMaxCursorBufferBytes = 4 * 1024 * 1024 * 1024"
definition kMaxDedupSetBytes :: int where "kMaxDedupSetBytes = 1 * 1024 * 1024 * 1024"
definition kMaxScanWaitMs :: int where "kMaxScanWaitMs = 10 * 60 * 1000"

text \<open>The validators of the server parameters.\<close>

definition params_valid :: "cdc_params \<Rightarrow> bool" where
  "params_valid q \<longleftrightarrow> \<not> (cdc_scan_max_bytes q \<le> 0 \<or> cdc_scan_max_bytes q > kMaxScanPageBytes) \<and>
     \<not> (cdc_cursor_buffer_bytes q \<le> 0 \<or> cdc_cursor_buffer_bytes q > kMaxCursorBufferBytes) \<and>
     \<not> (cdc_scan_max_wait_ms q \<le> 0 \<or> cdc_scan_max_wait_ms q > kMaxScanWaitMs) \<and>
     \<not> (cdc_dedup_set_bytes q < 0 \<or> cdc_dedup_set_bytes q > kMaxDedupSetBytes)"

record stage_env =
  sv_event :: event_env
  sv_enableWal :: bool
  sv_logGroups :: "u32 list option"
  sv_params :: cdc_params
  sv_fullyUpgradedTo40 :: bool
  sv_convert :: "mongo_token \<Rightarrow> bson_obj result"
  sv_fixStart :: "scan_source \<Rightarrow> (u64 option \<times> scan_source) result"

definition stage_source_options :: "cdc_params \<Rightarrow> source_options" where
  "stage_source_options q = default_source_options\<lparr>sp_maxBytesPerScan := word_of_int (cdc_scan_max_bytes q),
     sp_bufferBytes := cdc_cursor_buffer_bytes q, sp_maxWait := cdc_scan_max_wait_ms q\<rparr>"

definition supportedLog :: "stage_env \<Rightarrow> u32 list result" where
  "supportedLog env =
     rbind (rguard (sv_enableWal env) CommandNotSupported) (\<lambda>_. case sv_logGroups env of
         None \<Rightarrow> Inl CommandNotSupported
       | Some ids \<Rightarrow> rbind (rguard (length ids > 0) CommandNotSupported) (\<lambda>_. Inr ids))"

section \<open>The specification\<close>

record change_stream_spec =
  cs_resumeAfter :: "mongo_token option"
  cs_startAfter :: "bson_obj option"
  cs_resumeAfterClusterTime :: "u64 option"
  cs_startAtOperationTime :: "u64 option"
  cs_fullDocument :: bytes
  cs_allChangesForCluster :: bool

definition assertIsLegalSpecification :: "stage_env \<Rightarrow> bytes \<Rightarrow> change_stream_spec \<Rightarrow> unit result" where
  "assertIsLegalSpecification env ns spec =
     rbind (rguard (\<not> isCollectionlessAggregateNS ns \<or> sv_fullyUpgradedTo40 env) QueryFeatureNotAllowed) (\<lambda>_.
     rbind (rguard (\<not> cs_allChangesForCluster spec \<or> nss_isAdminDB ns \<and> isCollectionlessAggregateNS ns) InvalidOptions) (\<lambda>_.
     rbind (rguard (if nss_isAdminDB ns then cs_allChangesForCluster spec else \<not> nss_isLocal ns \<and> \<not> nss_isConfigDB ns)
              InvalidNamespace) (\<lambda>_.
     rguard (\<not> nss_isSystem ns) InvalidNamespace)))"

definition stage_scope :: "bytes \<Rightarrow> change_stream_spec \<Rightarrow> stream_scope" where
  "stage_scope ns spec = (if cs_allChangesForCluster spec then scope_deployment
     else if isCollectionlessAggregateNS ns then scope_database (nss_db ns) else scope_collection ns)"

definition stage_token :: "stage_env \<Rightarrow> change_stream_spec \<Rightarrow> resume_token option result" where
  "stage_token env spec = (case cs_resumeAfter spec of
       Some t \<Rightarrow>
         rbind (toDocument (sv_convert env) t) (\<lambda>doc. rbind (parse doc) (\<lambda>token.
         rbind (rguard (rt_kind token \<noteq> kInvalidate) InvalidResumeToken) (\<lambda>_. Inr (Some token))))
     | None \<Rightarrow> (case cs_startAfter spec of
         Some doc \<Rightarrow> rbind (parse doc) (\<lambda>token. Inr (Some token))
       | None \<Rightarrow> Inr None))"

section \<open>The stage\<close>

record change_stream_stage =
  cg_stream :: event_stream
  cg_spec :: bson_obj
  cg_lastEmitted :: bson_obj
  cg_registryId :: u64

text \<open>\<open>p\<close> is where the stream keeps its statistics.\<close>

definition make_stage ::
  "nat \<Rightarrow> bytes \<Rightarrow> event_stream \<Rightarrow> bson_obj \<Rightarrow> stream_registry \<Rightarrow> change_stream_stage \<times> stream_registry" where
  "make_stage p ns s spec reg =
     (let deployment = (getField spec (bstr ''allChangesForCluster'') = Some (BBool True));
          database = (\<not> deployment \<and> isCollectionlessAggregateNS ns);
          (i, reg1) = registry_add
            (if deployment then bstr ''deployment'' else if database then bstr ''database'' else bstr ''collection'')
            (if deployment then [] else if database then nss_db ns else ns) p reg
      in (\<lparr>cg_stream = s, cg_spec = spec, cg_lastEmitted = [], cg_registryId = i\<rparr>, reg1))"

definition destroy_stage :: "stats_store \<Rightarrow> change_stream_stage \<Rightarrow> stream_registry \<Rightarrow> stream_registry" where
  "destroy_stage stats stage reg = registry_remove stats (cg_registryId stage) reg"

definition open_stream ::
  "stage_env \<Rightarrow> stream_scope \<Rightarrow> resume_token option \<Rightarrow> u32 list \<Rightarrow> (event_stream \<times> scan_source) result" where
  "open_stream env scope token ids =
     (let s = make_stream scope (cdc_dedup_set_bytes (sv_params env))
      in rbind (make_source ids (stage_source_options (sv_params env))) (\<lambda>src. case token of
           Some t \<Rightarrow> openAt t (s, src)
         | None \<Rightarrow> rbind (sv_fixStart env src) (\<lambda>(start, src1). rbind (openFresh start s) (\<lambda>(opened, s1).
             if opened then Inr (s1, src1) else Inl ChangeStreamStartNotReady))))"

definition serialized_spec :: "change_stream_spec \<Rightarrow> bson_obj \<Rightarrow> bson_obj" where
  "serialized_spec spec token =
     [(bstr ''fullDocument'', BString (cs_fullDocument spec))] @
     (if cs_allChangesForCluster spec then [(bstr ''allChangesForCluster'', BBool True)] else []) @
     [(if cs_startAfter spec \<noteq> None then bstr ''startAfter'' else bstr ''resumeAfter'', BObject token)]"

definition makeEloqChangeStreamStages ::
  "stage_env \<Rightarrow> bytes \<Rightarrow> nat \<Rightarrow> stream_registry \<Rightarrow> change_stream_spec \<Rightarrow>
     (change_stream_stage \<times> scan_source \<times> stream_registry) result" where
  "makeEloqChangeStreamStages env ns p reg spec =
     rbind (rguard (cs_startAtOperationTime spec = None \<and> cs_resumeAfterClusterTime spec = None) InvalidOptions) (\<lambda>_.
     rbind (stage_token env spec) (\<lambda>token.
     rbind (supportedLog env) (\<lambda>ids.
     rbind (open_stream env (stage_scope ns spec) token ids) (\<lambda>(s, src).
       let (stage, reg1) = make_stage p ns s (serialized_spec spec (es_openingToken s)) reg
       in Inr (stage, src, reg1)))))"

text \<open>\<open>parseSpec\<close> is the generated parser.\<close>

definition createFromBson ::
  "(bson_obj \<Rightarrow> change_stream_spec result) \<Rightarrow> stage_env \<Rightarrow> bytes \<Rightarrow> nat \<Rightarrow> stream_registry \<Rightarrow> bson \<Rightarrow>
     (change_stream_stage \<times> scan_source \<times> stream_registry) result" where
  "createFromBson parseSpec env ns p reg elem = (case elem of
       BObject obj \<Rightarrow>
         rbind (parseSpec obj) (\<lambda>spec.
         rbind (assertIsLegalSpecification env ns spec) (\<lambda>_.
         rbind (rguard (cs_fullDocument spec = bstr ''updateLookup'' \<or> cs_fullDocument spec = bstr ''default'') (Location 40575)) (\<lambda>_.
         rbind (rguard (\<not> (cs_resumeAfter spec \<noteq> None \<and> cs_startAfter spec \<noteq> None)) (Location 40674)) (\<lambda>_.
         makeEloqChangeStreamStages env ns p reg spec))))
     | _ \<Rightarrow> Inl (Location 50808))"

definition stage_serialize :: "change_stream_stage \<Rightarrow> bson_obj" where
  "stage_serialize stage = [(bstr ''$changeStream'', BObject (cg_spec stage))]"

text \<open>An event whose \<open>_id\<close> is not a document would be a failed assertion.\<close>

definition stage_getNext ::
  "event_env \<Rightarrow> scan_source \<Rightarrow> int \<Rightarrow> change_stream_stage \<Rightarrow> source_record list \<Rightarrow>
     (bson_obj option \<times> change_stream_stage \<times> source_record list) result" where
  "stage_getNext env src now stage rs =
     rbind (es_next env src now (cg_stream stage) rs) (\<lambda>(event, s, rest). case event of
         None \<Rightarrow> Inr (None, stage\<lparr>cg_stream := s\<rparr>, rest)
       | Some ev \<Rightarrow> (case getField ev (bstr ''_id'') of
             Some (BObject tok) \<Rightarrow> Inr (Some ev, stage\<lparr>cg_stream := s, cg_lastEmitted := tok\<rparr>, rest)
           | _ \<Rightarrow> Inl InternalError))"

definition getPostBatchResumeToken :: "scan_source \<Rightarrow> change_stream_stage \<Rightarrow> bson_obj result" where
  "getPostBatchResumeToken src stage =
     (if es_invalidated (cg_stream stage) then Inr (es_invalidateToken (cg_stream stage))
      else if ss_drained src then toBSON (watermark src (cg_stream stage))
      else Inr (es_openingToken (cg_stream stage)))"

text \<open>The deadline of a batch: the awaitData getMore's, the fail point's, or now.\<close>

definition batchDeadline :: "(bool \<times> int) \<Rightarrow> int option \<Rightarrow> int \<Rightarrow> int" where
  "batchDeadline await failPointWaitMs now = (if fst await then snd await
     else case failPointWaitMs of Some ms \<Rightarrow> now + ms | None \<Rightarrow> now)"

text \<open>\<open>DocumentSourceCloseCursor::getNext\<close> on what the stage before it returned.\<close>

definition closeCursor_getNext :: "bool \<Rightarrow> bson_obj option result \<Rightarrow> (bson_obj option \<times> bool) result" where
  "closeCursor_getNext shouldClose input =
     rbind (rguard (\<not> shouldClose) CloseChangeStream) (\<lambda>_. rbind input (\<lambda>event. case event of
         None \<Rightarrow> Inr (None, shouldClose)
       | Some ev \<Rightarrow> (case getField ev (bstr ''operationType'') of
             Some (BString op) \<Rightarrow> Inr (Some ev, if op = bstr ''invalidate'' then True else shouldClose)
           | _ \<Rightarrow> Inl (Location 40532))))"

section \<open>What the stage relies on\<close>

text \<open>The passes of \<open>fixStart\<close>, one after another until one fixes the start or gives up.\<close>

fun fixStart_run ::
  "(u32 \<Rightarrow> bytes \<Rightarrow> u32 option) \<Rightarrow> int \<Rightarrow> bool \<Rightarrow> ((int \<times> int \<times> int) \<times> arrivals) list \<Rightarrow> bool list \<Rightarrow> scan_source \<Rightarrow>
     (u64 option \<times> scan_source) option result" where
  "fixStart_run nba deadline first [] zeros st = Inr None"
| "fixStart_run nba deadline first (p # ps) zeros st =
     rbind (fixStart_pass nba first deadline (fst p) (snd p) zeros st) (\<lambda>(res, zeros1, st1). case res of
         Fixed ts \<Rightarrow> Inr (Some (Some ts, st1))
       | GaveUp \<Rightarrow> Inr (Some (None, st1))
       | FixWait t \<Rightarrow> fixStart_run nba deadline False ps zeros1 st1)"

definition runs_fixStart :: "stage_env \<Rightarrow> bool" where
  "runs_fixStart env \<longleftrightarrow> (\<forall>src res. sv_fixStart env src = Inr res \<longrightarrow>
     (\<exists>nba deadline ps zeros. length zeros = length (ss_groups src) \<and> fixStart_run nba deadline True ps zeros src = Inr (Some res)))"

text \<open>What the generated parser makes of a document with these fields.\<close>

definition parsed_spec :: "mongo_token option \<Rightarrow> bson_obj option \<Rightarrow> bytes \<Rightarrow> bool \<Rightarrow> change_stream_spec" where
  "parsed_spec resumeAfter startAfter full allChanges = \<lparr>cs_resumeAfter = resumeAfter, cs_startAfter = startAfter,
     cs_resumeAfterClusterTime = None, cs_startAtOperationTime = None, cs_fullDocument = full, cs_allChangesForCluster = allChanges\<rparr>"

definition idl_parser :: "(bson_obj \<Rightarrow> change_stream_spec result) \<Rightarrow> bool" where
  "idl_parser P \<longleftrightarrow> (\<forall>full allChanges tok.
     P ([(bstr ''fullDocument'', BString full)] @ (if allChanges then [(bstr ''allChangesForCluster'', BBool True)] else []) @
        [(bstr ''startAfter'', BObject tok)]) = Inr (parsed_spec None (Some tok) full allChanges) \<and>
     P ([(bstr ''fullDocument'', BString full)] @ (if allChanges then [(bstr ''allChangesForCluster'', BBool True)] else []) @
        [(bstr ''resumeAfter'', BObject tok)]) = rbind (ResumeToken tok) (\<lambda>t. Inr (parsed_spec (Some t) None full allChanges)))"

end
