(* ===== verification/Stage_Properties.thy ===== *)
theory Stage_Properties
  imports Change_Stream_Stage
begin

text \<open>
  What a client of a change stream can rely on: a pipeline that is serialized and parsed again
  reopens at the same place, and the token given for the end of a batch continues the stream.
\<close>

section \<open>Tokens through the specification\<close>

lemma parsed_token:
  assumes "parse doc = Inr token"
  shows "token_ok token"
  using assms decode_token_sound by (auto simp: parse_def Let_def split: if_splits option.splits bson.splits)

lemma token_again: "token_ok token \<Longrightarrow> toBSON token = Inr tok \<Longrightarrow> parse tok = Inr token"
  using parse_of_toBSON by fastforce

lemma token_fields: "toBSON token = Inr tok \<Longrightarrow> \<exists>hex. tok = [(bstr ''_data'', BString hex)]"
  by (auto simp: toBSON_def kDataFieldName_def)

lemma token_as_resumeAfter:
  assumes "toBSON token = Inr tok"
  obtains t where "ResumeToken tok = Inr t" "toDocument convert t = Inr tok"
proof -
  obtain hex where "tok = [(bstr ''_data'', BString hex)]" using token_fields [OF assms] by blast
  then show thesis using that [of "\<lparr>mt_keyStringData = BString hex, mt_typeBits = None\<rparr>"]
    by (simp add: ResumeToken_def toDocument_def bstr_def)
qed

section \<open>The passes of fixStart\<close>

lemma pauseIfIdleEarly_id: "pauseIfIdleEarly opts c resp b now g cl = Inr (g2, cl2) \<Longrightarrow> sg_id g2 = sg_id g \<and> sg_pages g2 = sg_pages g"
  by (auto simp: pauseIfIdleEarly_def Let_def split: if_splits)

lemma take_probes_ids:
  "take_probes nba opts now gzs cl = Inr (gzs', cl') \<Longrightarrow> map (sg_id \<circ> fst) gzs' = map (sg_id \<circ> fst) gzs"
proof (induction gzs arbitrary: cl gzs' cl')
  case (Cons a gzs)
  obtain g z where a: "a = (g, z)" by (cases a)
  obtain taken cl1 where t: "takeCompleted nba (sg_id g) now now cl = Inr (taken, cl1)"
    using Cons.prems a by (cases "takeCompleted nba (sg_id g) now now cl") auto
  show ?case
  proof (cases taken)
    case None
    then show ?thesis using Cons t a by auto
  next
    case (Some c)
    show ?thesis
    proof (cases "cp_status c = kOk")
      case True
      then obtain resp where "cp_response c = Some resp" using Cons.prems t Some a by (cases "cp_response c") auto
      then show ?thesis using Cons.prems Cons.IH t Some True a by (auto simp: Let_def dest!: pauseIfIdleEarly_id)
    qed (use Cons t Some a in \<open>auto split: if_splits\<close>)
  qed
qed simp

lemma startAt_ids:
  assumes "startAt g f src = Inr src1"
  shows "map sg_id (ss_groups src1) = map sg_id (ss_groups src)" "1 \<le> f"
proof -
  have "start_in g f gs = Inr gs1 \<Longrightarrow> map sg_id gs1 = map sg_id gs" for gs gs1
    by (induction gs arbitrary: gs1) (auto simp: start_group_def split: if_splits)
  then show "map sg_id (ss_groups src1) = map sg_id (ss_groups src)" "1 \<le> f" using assms by (auto simp: startAt_def)
qed

lemma startAll_started:
  assumes "foldl (\<lambda>r gid. rbind r (startAt gid f)) (Inr src) ids = Inr src1" "distinct (map sg_id (ss_groups src))"
    and "\<forall>x \<in> set (ss_groups src). sg_id x \<in> set ids \<or> started_from f x"
  shows "map sg_id (ss_groups src1) = map sg_id (ss_groups src) \<and> (\<forall>x \<in> set (ss_groups src1). started_from f x) \<and> (ids \<noteq> [] \<longrightarrow> 1 \<le> f)"
  using assms
proof (induction ids arbitrary: src)
  case (Cons g ids)
  have err: "foldl (\<lambda>r gid. rbind r (startAt gid f)) (Inl e) ids = Inl e" for e by (induction ids) simp_all
  then obtain src2 where step: "startAt g f src = Inr src2" and rest: "foldl (\<lambda>r gid. rbind r (startAt gid f)) (Inr src2) ids = Inr src1"
    using Cons.prems(1) by (cases "startAt g f src") auto
  have groups: "ss_groups src2 = map (\<lambda>x. if sg_id x = g then start_group f x else x) (ss_groups src)"
    using start_in_map step Cons.prems(2) by (auto simp: startAt_def)
  have "\<forall>x \<in> set (ss_groups src2). sg_id x \<in> set ids \<or> started_from f x"
    using Cons.prems(3) by (auto simp: groups started_from_def start_group_def)
  then show ?case using Cons.IH [OF rest] startAt_ids [OF step] Cons.prems(2) by simp
qed simp

lemma fixStart_pass_groups:
  assumes "fixStart_pass nba first deadline (n1, n2, n3) arr zeros src = Inr (res, zeros1, src2)" "length zeros = length (ss_groups src)"
  shows "\<exists>gs. map sg_id gs = map sg_id (ss_groups src) \<and> (case res of
      Fixed start \<Rightarrow> \<exists>st. ss_groups st = gs \<and> startAllAt (start + 1) st = Inr src2
    | _ \<Rightarrow> ss_groups src2 = gs \<and> length zeros1 = length gs)"
proof -
  obtain cl1 gzs cl2 where gzs: "take_probes nba (ss_options src) n2 (zip (ss_groups src) zeros) cl1 = Inr (gzs, cl2)"
      and res: "case res of Fixed start \<Rightarrow> \<exists>st. ss_groups st = map fst gzs \<and> startAllAt (start + 1) st = Inr src2
        | _ \<Rightarrow> ss_groups src2 = map fst gzs \<and> zeros1 = map snd gzs"
    using assms(1) by (fastforce simp: fixStart_pass_def arrive_def Let_def split: if_splits)
  have "map sg_id (map fst gzs) = map (sg_id \<circ> fst) (zip (ss_groups src) zeros)" using take_probes_ids [OF gzs] by simp
  also have "\<dots> = map sg_id (ss_groups src)" using assms(2) by (metis map_fst_zip map_map)
  finally show ?thesis using res by (intro exI [of _ "map fst gzs"]) (auto split: fix_result.splits)
qed

lemma fixStart_started:
  assumes "fixStart_run nba deadline first ps zeros src = Inr (Some (Some ts, src1))"
    and "length zeros = length (ss_groups src)" "distinct (map sg_id (ss_groups src))" "ss_groups src \<noteq> []"
  shows "map sg_id (ss_groups src1) = map sg_id (ss_groups src) \<and> (\<forall>x \<in> set (ss_groups src1). started_from (ts + 1) x) \<and> ts \<noteq> -1"
  using assms
proof (induction ps arbitrary: first zeros src)
  case (Cons p ps)
  obtain n1 n2 n3 arr where p: "p = ((n1, n2, n3), arr)" by (metis prod.collapse)
  obtain res zeros1 src2 where pass: "fixStart_pass nba first deadline (n1, n2, n3) arr zeros src = Inr (res, zeros1, src2)"
      and res: "(case res of Fixed ts \<Rightarrow> Inr (Some (Some ts, src2)) | GaveUp \<Rightarrow> Inr (Some (None, src2))
         | FixWait t \<Rightarrow> fixStart_run nba deadline False ps zeros1 src2) = Inr (Some (Some ts, src1))"
    using Cons.prems(1) by (auto simp: p)
  obtain gs where gs: "map sg_id gs = map sg_id (ss_groups src)" "case res of
      Fixed start \<Rightarrow> \<exists>st. ss_groups st = gs \<and> startAllAt (start + 1) st = Inr src2
    | _ \<Rightarrow> ss_groups src2 = gs \<and> length zeros1 = length gs"
    using fixStart_pass_groups [OF pass Cons.prems(2)] by blast
  have "gs \<noteq> []" using gs(1) Cons.prems(4) by auto
  show ?case
  proof (cases res)
    case (Fixed start)
    then obtain st where st: "ss_groups st = gs" "foldl (\<lambda>r gid. rbind r (startAt gid (ts + 1))) (Inr st) (map sg_id gs) = Inr src1"
      using gs(2) res by (auto simp: startAllAt_def)
    have "\<forall>x \<in> set (ss_groups st). sg_id x \<notin> set (map sg_id gs) \<longrightarrow> started_from (ts + 1) x" using st(1) by simp
    then have "map sg_id (ss_groups src1) = map sg_id gs" "\<forall>x \<in> set (ss_groups src1). started_from (ts + 1) x" "1 \<le> ts + 1"
      using startAll_started [OF st(2)] st(1) gs(1) Cons.prems(3,4) by auto
    then show ?thesis using gs(1) by auto
  next
    case (FixWait t)
    then show ?thesis using Cons.IH [of False zeros1 src2] res gs \<open>gs \<noteq> []\<close> Cons.prems(3) by simp
  qed (use res in simp)
qed simp

section \<open>Opening a stream again\<close>

text \<open>Where a source starts its groups.\<close>

definition source_starts :: "scan_source \<Rightarrow> (u32 \<times> bool \<times> bool \<times> u64) list" where
  "source_starts src = map (\<lambda>g. (sg_id g, sg_started g, sg_haveContinuation g, sg_fromTs g)) (ss_groups src)"

lemma source_starts_all:
  "\<forall>x \<in> set (ss_groups src). started_from f x \<Longrightarrow> source_starts src = map (\<lambda>g. (g, True, False, f)) (map sg_id (ss_groups src))"
  by (simp add: source_starts_def started_from_def)

lemma make_source_groups:
  assumes "make_source ids opts = Inr src"
  shows "map sg_id (ss_groups src) = ids" "\<forall>g \<in> set (ss_groups src). sg_pages g = []" "ids \<noteq> []"
  using assms by (auto simp: make_source_def comp_def)

lemma openAt_startAll:
  assumes "rt_kind token = kWatermark" "rt_entries token = []" "rt_timestamp token \<noteq> -1"
  shows "openAt token (make_stream scope limit, src) = rbind (startAllAt (rt_timestamp token + 1) src) (\<lambda>src1.
    rbind (toBSON token) (\<lambda>tok. Inr ((make_stream scope limit)\<lparr>es_openingToken := tok\<rparr>, src1)))"
proof -
  have pos: "0 < rt_timestamp token + 1" using assms(3) by (metis add_eq_0_iff2 word_gt_0)
  have err: "foldl (\<lambda>r gid. rbind r (startAt gid f)) (Inl e) ids = Inl e" for e f ids by (induction ids) simp_all
  have "open_groups token (rt_timestamp token + 1) ids (s, src) =
      rbind (foldl (\<lambda>r gid. rbind r (startAt gid (rt_timestamp token + 1))) (Inr src) ids) (\<lambda>src1. Inr (s, src1))" for ids s
  proof (induction ids arbitrary: src)
    case (Cons g ids)
    show ?case by (cases "startAt g (rt_timestamp token + 1) src") (simp_all add: open_group_def entryFor_def assms pos Cons.IH err)
  qed simp
  then show ?thesis using assms by (simp add: openAt_def startTimestampForAbsentGroup_def startAllAt_def make_stream_def rbind_assoc)
qed

text \<open>A stream opened once opens again at its opening token, and then needs no start fixed for it.\<close>

lemma open_stream_again:
  assumes opened: "open_stream env scope token ids = Inr (s, src)" and env: "runs_fixStart env" "distinct ids"
    and token: "\<And>t. token = Some t \<Longrightarrow> token_ok t"
  obtains t src' where "token_ok t" "toBSON t = Inr (es_openingToken s)" "token = None \<longrightarrow> rt_kind t = kWatermark"
    "token \<noteq> None \<longrightarrow> token = Some t" "open_stream (env\<lparr>sv_fixStart := f\<rparr>) scope (Some t) ids = Inr (s, src')"
    "source_starts src' = source_starts src"
proof (cases token)
  case (Some t)
  then have "toBSON t = Inr (es_openingToken s)" using opened by (auto simp: open_stream_def openAt_def Let_def)
  moreover have "open_stream (env\<lparr>sv_fixStart := f\<rparr>) scope (Some t) ids = Inr (s, src)" using opened Some by (simp add: open_stream_def)
  ultimately show thesis using token [OF Some] Some by (intro that [of t src]) simp_all
next
  case None
  let ?s0 = "make_stream scope (cdc_dedup_set_bytes (sv_params env))"
  obtain src0 start where src0: "make_source ids (stage_source_options (sv_params env)) = Inr src0"
      and fixed: "sv_fixStart env src0 = Inr (start, src)" and fresh: "openFresh start ?s0 = Inr (True, s)"
    using opened None by (auto simp: open_stream_def split: if_splits)
  obtain ts tok where ts: "start = Some ts" "toBSON (makeWatermark ts []) = Inr tok" "s = ?s0\<lparr>es_openingToken := tok\<rparr>"
    using fresh by (auto simp: openFresh_def split: option.splits)
  note groups = make_source_groups [OF src0]
  obtain nba deadline ps zeros where run: "length zeros = length (ss_groups src0)" "fixStart_run nba deadline True ps zeros src0 = Inr (Some (Some ts, src))"
    using env(1) fixed ts(1) unfolding runs_fixStart_def by blast
  have src: "map sg_id (ss_groups src) = ids" "\<forall>x \<in> set (ss_groups src). started_from (ts + 1) x" "ts \<noteq> -1"
    using fixStart_started [OF run(2,1)] groups env(2) by auto
  have "1 \<le> ts + 1" using src(3) by (metis add_eq_0_iff2 add_0 inc_le word_gt_0)
  then have again: "startAllAt (ts + 1) src0 = Inr (src0\<lparr>ss_groups := map (start_group (ts + 1)) (ss_groups src0)\<rparr>)"
    using startAllAt_groups groups env(2) by blast
  have "source_starts (src0\<lparr>ss_groups := map (start_group (ts + 1)) (ss_groups src0)\<rparr>) = source_starts src"
    using groups(1) source_starts_all [OF src(2)] src(1) by (auto simp: source_starts_def start_group_def)
  moreover have "token_ok (makeWatermark ts [])" using src(3) by (simp add: token_ok_def makeWatermark_def)
  moreover have "open_stream (env\<lparr>sv_fixStart := f\<rparr>) scope (Some (makeWatermark ts [])) ids =
      Inr (s, src0\<lparr>ss_groups := map (start_group (ts + 1)) (ss_groups src0)\<rparr>)"
    using src0 ts(2,3) again openAt_startAll [of "makeWatermark ts []"] src(3) by (simp add: open_stream_def makeWatermark_def)
  moreover have "toBSON (makeWatermark ts []) = Inr (es_openingToken s)" using ts by simp
  ultimately show thesis using None by (intro that [of "makeWatermark ts []" "src0\<lparr>ss_groups := map (start_group (ts + 1)) (ss_groups src0)\<rparr>"]) (simp_all add: makeWatermark_def)
qed

section \<open>A pipeline parsed again\<close>

lemma stage_token_ok: "stage_token env spec = Inr (Some t) \<Longrightarrow> token_ok t"
  using parsed_token by (auto simp: stage_token_def split: option.splits)

lemma stage_token_cases:
  assumes "stage_token env spec = Inr token" "\<not> (cs_resumeAfter spec \<noteq> None \<and> cs_startAfter spec \<noteq> None)"
  shows "token = None \<longleftrightarrow> cs_resumeAfter spec = None \<and> cs_startAfter spec = None"
    "token = Some t \<Longrightarrow> cs_startAfter spec = None \<Longrightarrow> rt_kind t \<noteq> kInvalidate"
  using assms by (auto simp: stage_token_def split: option.splits)

lemma parsed_serialized:
  assumes P: "idl_parser P" and t: "token_ok t" "toBSON t = Inr tok" "cs_startAfter spec = None \<Longrightarrow> rt_kind t \<noteq> kInvalidate"
  obtains spec' where "P (serialized_spec spec tok) = Inr spec'" "stage_token env spec' = Inr (Some t)"
    "cs_allChangesForCluster spec' = cs_allChangesForCluster spec" "cs_fullDocument spec' = cs_fullDocument spec"
    "cs_resumeAfterClusterTime spec' = None" "cs_startAtOperationTime spec' = None"
    "cs_startAfter spec' = None \<longleftrightarrow> cs_startAfter spec = None" "cs_resumeAfter spec' = None \<longleftrightarrow> cs_startAfter spec \<noteq> None"
proof (cases "cs_startAfter spec")
  case None
  obtain r where "ResumeToken tok = Inr r" "toDocument (sv_convert env) r = Inr tok" using token_as_resumeAfter [OF t(2)] .
  then show thesis
    using that [of "parsed_spec (Some r) None (cs_fullDocument spec) (cs_allChangesForCluster spec)"] None P t token_again
    by (simp add: serialized_spec_def idl_parser_def stage_token_def parsed_spec_def)
next
  case (Some d)
  then show thesis
    using that [of "parsed_spec None (Some tok) (cs_fullDocument spec) (cs_allChangesForCluster spec)"] P t(1,2) token_again
    by (simp add: serialized_spec_def idl_parser_def stage_token_def parsed_spec_def)
qed

lemma make_stage_fields: "make_stage p ns s spec reg = (stage, reg1) \<Longrightarrow> cg_stream stage = s \<and> cg_spec stage = spec"
  by (auto simp: make_stage_def Let_def split: prod.splits)

lemma created_stage:
  assumes "createFromBson P env ns p reg (BObject obj) = Inr (stage, src, reg1)" "sv_logGroups env = Some ids"
  obtains spec token s where "P obj = Inr spec" "assertIsLegalSpecification env ns spec = Inr ()"
    "cs_fullDocument spec = bstr ''updateLookup'' \<or> cs_fullDocument spec = bstr ''default''"
    "\<not> (cs_resumeAfter spec \<noteq> None \<and> cs_startAfter spec \<noteq> None)" "stage_token env spec = Inr token" "supportedLog env = Inr ids"
    "open_stream env (stage_scope ns spec) token ids = Inr (s, src)" "cg_stream stage = s" "cg_spec stage = serialized_spec spec (es_openingToken s)"
proof -
  obtain spec where spec: "P obj = Inr spec" "assertIsLegalSpecification env ns spec = Inr ()"
      "cs_fullDocument spec = bstr ''updateLookup'' \<or> cs_fullDocument spec = bstr ''default''"
      "\<not> (cs_resumeAfter spec \<noteq> None \<and> cs_startAfter spec \<noteq> None)"
      "makeEloqChangeStreamStages env ns p reg spec = Inr (stage, src, reg1)"
    using assms(1) by (auto simp: createFromBson_def)
  obtain token s ids' where token: "stage_token env spec = Inr token" "supportedLog env = Inr ids'"
      "open_stream env (stage_scope ns spec) token ids' = Inr (s, src)" "make_stage p ns s (serialized_spec spec (es_openingToken s)) reg = (stage, reg1)"
    using spec(5) by (fastforce simp: makeEloqChangeStreamStages_def Let_def case_prod_beta prod_eq_iff)
  moreover have "ids' = ids" using token(2) assms(2) by (simp add: supportedLog_def)
  ultimately show thesis using that spec(1-4) make_stage_fields by blast
qed

text \<open>
  C13: A pipeline with a change stream can be serialized and parsed again, as a view or an explain
  does. Parsing what the stage writes back, in whatever state the log then is, gives a stage with
  the same stream, the same specification and a source that starts each log group where the first
  one did, whether the stream was opened at a resume token or at a start fixed for it; the second
  time no start is fixed. What is assumed is that the generated parser reads the fields the stage
  writes, that a start is fixed by passes of \<open>fixStart\<close>, and that the log groups are distinct.
\<close>

theorem reparsed_stage_reopens:
  assumes "createFromBson P env ns p reg elem = Inr (stage, src, reg1)"
    and "idl_parser P" "runs_fixStart env" "sv_logGroups env = Some ids" "distinct ids"
  shows "\<exists>stage' src' reg'. createFromBson P (env\<lparr>sv_fixStart := f\<rparr>) ns p' reg1 (BObject (cg_spec stage)) = Inr (stage', src', reg') \<and>
    cg_stream stage' = cg_stream stage \<and> cg_spec stage' = cg_spec stage \<and> source_starts src' = source_starts src"
proof -
  obtain obj where elem: "elem = BObject obj" using assms(1) by (cases elem) (simp_all add: createFromBson_def)
  obtain spec token s where "P obj = Inr spec" and legal: "assertIsLegalSpecification env ns spec = Inr ()"
      and full: "cs_fullDocument spec = bstr ''updateLookup'' \<or> cs_fullDocument spec = bstr ''default''"
      and one: "\<not> (cs_resumeAfter spec \<noteq> None \<and> cs_startAfter spec \<noteq> None)"
      and token: "stage_token env spec = Inr token" and log: "supportedLog env = Inr ids"
      and opened: "open_stream env (stage_scope ns spec) token ids = Inr (s, src)"
      and spec: "cg_stream stage = s" "cg_spec stage = serialized_spec spec (es_openingToken s)"
    using created_stage [OF assms(1) [unfolded elem] assms(4)] .
  have ok: "token_ok t" if "token = Some t" for t using stage_token_ok token that by blast
  obtain t src' where t: "token_ok t" "toBSON t = Inr (es_openingToken s)" "token = None \<longrightarrow> rt_kind t = kWatermark"
      "token \<noteq> None \<longrightarrow> token = Some t" and again: "open_stream (env\<lparr>sv_fixStart := f\<rparr>) (stage_scope ns spec) (Some t) ids = Inr (s, src')"
      and starts: "source_starts src' = source_starts src"
    using open_stream_again [OF opened assms(3,5) ok, where f = f] .
  have kind: "rt_kind t \<noteq> kInvalidate" if "cs_startAfter spec = None"
    using t(3,4) stage_token_cases(2) [OF token one _ that] by (cases token) auto
  obtain spec' where spec': "P (serialized_spec spec (es_openingToken s)) = Inr spec'"
      "stage_token (env\<lparr>sv_fixStart := f\<rparr>) spec' = Inr (Some t)"
      "cs_allChangesForCluster spec' = cs_allChangesForCluster spec" "cs_fullDocument spec' = cs_fullDocument spec"
      "cs_resumeAfterClusterTime spec' = None" "cs_startAtOperationTime spec' = None"
      "cs_startAfter spec' = None \<longleftrightarrow> cs_startAfter spec = None" "cs_resumeAfter spec' = None \<longleftrightarrow> cs_startAfter spec \<noteq> None"
    using parsed_serialized [OF assms(2) t(1,2) kind, where env = "env\<lparr>sv_fixStart := f\<rparr>"] .
  have same: "stage_scope ns spec' = stage_scope ns spec" "serialized_spec spec' tok = serialized_spec spec tok"
      "assertIsLegalSpecification (env\<lparr>sv_fixStart := f\<rparr>) ns spec' = Inr ()" "supportedLog (env\<lparr>sv_fixStart := f\<rparr>) = Inr ids" for tok
    using spec'(3,4,7) legal log by (simp_all add: stage_scope_def serialized_spec_def assertIsLegalSpecification_def supportedLog_def)
  show ?thesis
    using spec' same again full starts
    by (auto simp: createFromBson_def makeEloqChangeStreamStages_def make_stage_def spec Let_def split: prod.splits)
qed

text \<open>One group that answers the first probe with bound 3, and a parser of the fields the stage writes.\<close>

definition sample_passes :: "((int \<times> int \<times> int) \<times> arrivals) list" where
  "sample_passes = [((0, 0, 0), [(1, \<lparr>ou_failed = None, ou_response = empty_response\<lparr>rs_arrival_complete_ts := 3\<rparr>, ou_targetNode = None\<rparr>, 0)])]"

definition sample_fixStart :: "scan_source \<Rightarrow> (u64 option \<times> scan_source) result" where
  "sample_fixStart src = (case fixStart_run (\<lambda>_ _. None) 1000 True sample_passes (replicate (length (ss_groups src)) False) src of
     Inr (Some res) \<Rightarrow> Inr res | _ \<Rightarrow> Inl InternalError)"

definition sample_stage_env :: "decimal_lib \<Rightarrow> stage_env" where
  "sample_stage_env D = \<lparr>sv_event = sample_env D, sv_enableWal = True, sv_logGroups = Some [1],
     sv_params = \<lparr>cdc_scan_max_bytes = 1000, cdc_cursor_buffer_bytes = 1000, cdc_scan_max_wait_ms = 10, cdc_dedup_set_bytes = 1000\<rparr>,
     sv_fullyUpgradedTo40 = True, sv_convert = (\<lambda>_. Inl InternalError), sv_fixStart = sample_fixStart\<rparr>"

definition sample_ns :: bytes where
  "sample_ns = bstr ''admin.$cmd.aggregate''"

definition sample_spec :: bson_obj where
  "sample_spec = [(bstr ''fullDocument'', BString (bstr ''default'')), (bstr ''allChangesForCluster'', BBool True)]"

definition sample_spec_parser :: "bson_obj \<Rightarrow> change_stream_spec result" where
  "sample_spec_parser obj =
     (let full = (case getField obj (bstr ''fullDocument'') of Some (BString b) \<Rightarrow> b | _ \<Rightarrow> bstr ''default'');
          allChanges = (getField obj (bstr ''allChangesForCluster'') = Some (BBool True))
      in case getField obj (bstr ''startAfter'') of Some (BObject tok) \<Rightarrow> Inr (parsed_spec None (Some tok) full allChanges)
       | _ \<Rightarrow> (case getField obj (bstr ''resumeAfter'') of
             Some (BObject tok) \<Rightarrow> rbind (ResumeToken tok) (\<lambda>t. Inr (parsed_spec (Some t) None full allChanges))
           | _ \<Rightarrow> Inr (parsed_spec None None full allChanges)))"

lemma sample_spec_parser_ok: "idl_parser sample_spec_parser"
  by (simp add: idl_parser_def sample_spec_parser_def bstr_def)

lemma sample_stage_env_ok: "runs_fixStart (sample_stage_env D)"
  unfolding runs_fixStart_def
proof (intro allI impI)
  fix src :: scan_source and res
  let ?zeros = "replicate (length (ss_groups src)) False"
  assume "sv_fixStart (sample_stage_env D) src = Inr res"
  then have "fixStart_run (\<lambda>_ _. None) 1000 True sample_passes ?zeros src = Inr (Some res)"
    by (simp add: sample_stage_env_def sample_fixStart_def split: sum.splits option.splits)
  then show "\<exists>nba deadline ps zeros. length zeros = length (ss_groups src) \<and> fixStart_run nba deadline True ps zeros src = Inr (Some res)"
    by (intro exI [of _ "\<lambda>_ _. None"] exI [of _ 1000] exI [of _ sample_passes] exI [of _ ?zeros]) simp
qed

lemma sample_open_stream:
  "\<exists>s src0 src. make_source [1] (stage_source_options (sv_params (sample_stage_env D))) = Inr src0 \<and> sample_fixStart src0 = Inr (Some 3, src) \<and>
     openFresh (Some 3) (make_stream scope 1000) = Inr (True, s) \<and> open_stream (sample_stage_env D) scope None [1] = Inr (s, src)"
proof -
  have "case make_source [1] (stage_source_options (sv_params (sample_stage_env D))) of Inl e \<Rightarrow> False
      | Inr src0 \<Rightarrow> (case sample_fixStart src0 of Inl e \<Rightarrow> False | Inr (x, y) \<Rightarrow> x = Some 3)" by code_simp
  then obtain src0 src where "make_source [1] (stage_source_options (sv_params (sample_stage_env D))) = Inr src0" "sample_fixStart src0 = Inr (Some 3, src)"
    by (auto split: sum.splits prod.splits)
  moreover obtain s where "openFresh (Some 3) (make_stream scope 1000) = Inr (True, s)"
    using parse_of_toBSON [of "makeWatermark 3 []"] by (auto simp: token_ok_def makeWatermark_def openFresh_def make_stream_def)
  moreover have "sv_fixStart (sample_stage_env D) = sample_fixStart" "cdc_dedup_set_bytes (sv_params (sample_stage_env D)) = 1000"
    by (simp_all add: sample_stage_env_def)
  ultimately show ?thesis by (auto simp: open_stream_def)
qed

lemma sample_spec_created:
  assumes "open_stream (sample_stage_env D) scope_deployment token [1] = Inr (s, src)"
    and "sample_spec_parser obj = Inr spec" "stage_token (sample_stage_env D) spec = Inr token"
    and "cs_fullDocument spec = bstr ''default''" "cs_allChangesForCluster spec" "cs_resumeAfter spec = None \<or> cs_startAfter spec = None"
      "cs_startAtOperationTime spec = None" "cs_resumeAfterClusterTime spec = None"
  shows "\<exists>stage reg1. createFromBson sample_spec_parser (sample_stage_env D) sample_ns p reg (BObject obj) = Inr (stage, src, reg1) \<and> cg_stream stage = s"
proof -
  have ns: "isCollectionlessAggregateNS sample_ns" "nss_isAdminDB sample_ns" "\<not> nss_isSystem sample_ns" by code_simp+
  then have "assertIsLegalSpecification (sample_stage_env D) sample_ns spec = Inr ()" "stage_scope sample_ns spec = scope_deployment"
    using assms(5) by (simp_all add: assertIsLegalSpecification_def stage_scope_def sample_stage_env_def)
  moreover have "supportedLog (sample_stage_env D) = Inr [1]" by (simp add: supportedLog_def sample_stage_env_def)
  ultimately show ?thesis
    using assms by (auto simp: createFromBson_def makeEloqChangeStreamStages_def make_stage_def Let_def case_prod_beta)
qed

lemma sample_spec_parsed: "sample_spec_parser sample_spec = Inr (parsed_spec None None (bstr ''default'') True)"
  by (simp add: sample_spec_parser_def sample_spec_def bstr_def)

lemma sample_stage_created:
  "\<exists>stage src reg. createFromBson sample_spec_parser (sample_stage_env D) sample_ns 0 make_registry (BObject sample_spec) = Inr (stage, src, reg) \<and>
     openFresh (Some 3) (make_stream scope_deployment 1000) = Inr (True, cg_stream stage)"
proof -
  obtain s src where s: "openFresh (Some 3) (make_stream scope_deployment 1000) = Inr (True, s)"
      and opened: "open_stream (sample_stage_env D) scope_deployment None [1] = Inr (s, src)"
    using sample_open_stream by blast
  have "stage_token (sample_stage_env D) (parsed_spec None None (bstr ''default'') True) = Inr None"
    by (simp add: parsed_spec_def stage_token_def)
  from opened sample_spec_parsed this have "\<exists>stage reg1. createFromBson sample_spec_parser (sample_stage_env D) sample_ns 0 make_registry
     (BObject sample_spec) = Inr (stage, src, reg1) \<and> cg_stream stage = s"
    by (rule sample_spec_created) (simp_all add: parsed_spec_def)
  then show ?thesis using s by blast
qed

theorem reparsed_stage_reopens_witness:
  "\<forall>D. \<exists>stage src reg stage' src' reg'. createFromBson sample_spec_parser (sample_stage_env D) sample_ns 0 make_registry
       (BObject sample_spec) = Inr (stage, src, reg) \<and>
     createFromBson sample_spec_parser ((sample_stage_env D)\<lparr>sv_fixStart := (\<lambda>_. Inl InternalError)\<rparr>) sample_ns 1 reg (BObject (cg_spec stage)) =
       Inr (stage', src', reg') \<and>
     cg_stream stage' = cg_stream stage \<and> cg_spec stage' = cg_spec stage \<and> source_starts src' = source_starts src"
proof
  fix D
  obtain stage src reg where created: "createFromBson sample_spec_parser (sample_stage_env D) sample_ns 0 make_registry
       (BObject sample_spec) = Inr (stage, src, reg)"
    using sample_stage_created by blast
  have "sv_logGroups (sample_stage_env D) = Some [1]" "distinct [1 :: u32]" by (simp_all add: sample_stage_env_def)
  from reparsed_stage_reopens [OF created sample_spec_parser_ok sample_stage_env_ok this, of "\<lambda>_. Inl InternalError" 1] created
  show "\<exists>stage src reg stage' src' reg'. createFromBson sample_spec_parser (sample_stage_env D) sample_ns 0 make_registry
       (BObject sample_spec) = Inr (stage, src, reg) \<and>
     createFromBson sample_spec_parser ((sample_stage_env D)\<lparr>sv_fixStart := (\<lambda>_. Inl InternalError)\<rparr>) sample_ns 1 reg (BObject (cg_spec stage)) =
       Inr (stage', src', reg') \<and>
     cg_stream stage' = cg_stream stage \<and> cg_spec stage' = cg_spec stage \<and> source_starts src' = source_starts src" by blast
qed

section \<open>The token of a batch\<close>

text \<open>A sequence of pulls of the stage, each with the state of the source and the clock of its time.\<close>

fun stage_pulls ::
  "event_env \<Rightarrow> (scan_source \<times> int) list \<Rightarrow> change_stream_stage \<Rightarrow> source_record list \<Rightarrow>
     (bson_obj option list \<times> change_stream_stage \<times> source_record list) result" where
  "stage_pulls env [] stage rs = Inr ([], stage, rs)"
| "stage_pulls env (t # ts) stage rs = rbind (stage_getNext env (fst t) (snd t) stage rs) (\<lambda>(ev, stage1, rs1).
     rbind (stage_pulls env ts stage1 rs1) (\<lambda>(evs, stage2, rs2). Inr (ev # evs, stage2, rs2)))"

lemma stage_getNext_stream:
  "stage_getNext env src now stage rs = Inr (ev, stage1, rs1) \<Longrightarrow> es_next env src now (cg_stream stage) rs = Inr (ev, cg_stream stage1, rs1)"
  by (simp add: stage_getNext_def) (force split: option.split_asm bson.split_asm)

lemma stage_pulls_stream:
  "stage_pulls env ts stage rs = Inr (evs, stage1, rs1) \<Longrightarrow> es_pulls env ts (cg_stream stage) rs = Inr (evs, cg_stream stage1, rs1)"
  by (induction ts arbitrary: stage rs evs) (auto dest!: stage_getNext_stream)

lemma legal_watchable: "assertIsLegalSpecification env ns spec = Inr () \<Longrightarrow> watchable (stage_scope ns spec)"
  by (auto simp: assertIsLegalSpecification_def stage_scope_def watchable_def isExcludedDatabase_def databaseOf_def nss_isAdminDB_def
      nss_isLocal_def nss_isConfigDB_def nss_db_def scope_deployment_def scope_database_def scope_collection_def split: if_splits)

lemma watermark_kind: "rt_kind (watermark src s) \<noteq> kInvalidate"
  by (simp add: watermark_def makeWatermark_def)

lemma fresh_stream_opened:
  assumes "open_stream env scope None ids = Inr (s, src)"
  obtains start where "openFresh (Some start) (make_stream scope (cdc_dedup_set_bytes (sv_params env))) = Inr (True, s)"
proof -
  obtain start where "openFresh start (make_stream scope (cdc_dedup_set_bytes (sv_params env))) = Inr (True, s)"
    using assms by (auto simp: open_stream_def Let_def split: if_splits)
  then show thesis using that by (cases start) (auto simp: openFresh_def)
qed

lemma stream_opened_at:
  assumes "open_stream env scope (Some t) ids = Inr (s, src)"
  obtains src0 where "make_source ids (stage_source_options (sv_params env)) = Inr src0"
    "openAt t (make_stream scope (cdc_dedup_set_bytes (sv_params env)), src0) = Inr (s, src)"
  using assms by (auto simp: open_stream_def Let_def)


text \<open>A drop at 5 is read while the other groups have only reached 4, so that the token holds a position.\<close>

definition sample_drained :: scan_source where
  "sample_drained = resume_source\<lparr>ss_groups := map (\<lambda>g. g\<lparr>sg_scannedTs := 4\<rparr>) (ss_groups resume_source), ss_drained := True\<rparr>"

lemma sample_drained_bound: "emitBound sample_drained = 4" "ss_drained sample_drained"
  by (simp_all add: sample_drained_def resume_source_def emitBound_def)

abbreviation sample_watermark :: resume_token where
  "sample_watermark \<equiv> makeWatermark 4 (rt_entries sample_event_token)"

lemma sample_watermark_ok: "token_ok sample_watermark"
  by (simp add: token_ok_def makeWatermark_def sample_event_token_def mkToken_def entry_ok_def length_ddlKey)

lemma sample_deployment_pull:
  assumes "openFresh (Some 3) (make_stream scope_deployment 1000) = Inr (True, s0)"
  obtains event tok0 tok where "es_next (sample_env D) src now s0 (sample_drop_record 5 # rs) =
      Inr (Some event, publishStats src now (Some event) (sample_started scope_deployment tok0), rs)"
    "getField event (bstr ''_id'') = Some (BObject tok)" "tok0 \<noteq> []"
proof -
  obtain tok0 where s0: "s0 = (make_stream scope_deployment 1000)\<lparr>es_openingToken := tok0\<rparr>" "tok0 \<noteq> []"
    using assms toBSON_not_empty by (auto simp: openFresh_def)
  obtain tok where tok: "toBSON sample_event_token = Inr tok" using sample_token_bson by blast
  have "scope_includes scope_deployment (bstr ''a.b'')" by code_simp
  from sample_ddl_event [OF tok this] obtain event s1 where event: "ddlEvent (sample_env D) 5 (sample_drop 5) (sample_started scope_deployment tok0) = Inr (Some event, s1)"
      "getField event (bstr ''_id'') = Some (BObject tok)"
    by blast
  have "s1 = sample_started scope_deployment tok0"
    using event(1) by (auto simp: ddlEvent_def reportDdl_def dropsWatchedCollection_def sample_started_def make_stream_def scope_isCollection_def
        scope_deployment_def Let_def split: option.splits if_splits)
  moreover have "eg_skip (group_of s0 1) = None" by (simp add: s0 make_stream_def group_of_def new_group_def)
  ultimately have "es_begin (sample_env D) (sample_drop_record 5) s0 = Inr (Some event, sample_started scope_deployment tok0)"
    using es_begin_past [of s0 "sample_drop_record 5" "sample_env D"] event(1)
    by (simp add: sample_drop_record_def sample_started_def s0)
  then have "es_next_loop (sample_env D) s0 (sample_drop_record 5 # rs) = Inr (Some event, sample_started scope_deployment tok0, rs)"
    using es_next_loop_record [of s0] by (simp add: s0 make_stream_def)
  then show thesis using that event(2) s0 by (simp add: es_next_def make_stream_def)
qed

lemma sample_batch:
  assumes "openFresh (Some 3) (make_stream scope_deployment 1000) = Inr (True, cg_stream stage)"
  obtains event stage0 stage1 tok where "stage_pulls (sample_env D) [(resume_source, 1)] stage [sample_drop_record 5] = Inr ([Some event], stage0, [])"
    "stage_getNext (sample_env D) sample_drained 2 stage0 [] = Inr (None, stage1, [])" "\<not> es_invalidated (cg_stream stage1)"
    "getPostBatchResumeToken sample_drained stage1 = Inr tok" "toBSON sample_watermark = Inr tok"
proof -
  obtain event tok0 tok where pull: "es_next (sample_env D) resume_source 1 (cg_stream stage) [sample_drop_record 5] =
      Inr (Some event, publishStats resume_source 1 (Some event) (sample_started scope_deployment tok0), [])"
      and id: "getField event (bstr ''_id'') = Some (BObject tok)" and tok0: "tok0 \<noteq> []"
    by (rule sample_deployment_pull [OF assms])
  let ?s = "publishStats resume_source 1 (Some event) (sample_started scope_deployment tok0)"
  have idle: "\<not> es_invalidated ?s" "es_pendingInvalidate ?s = None" "es_current ?s = None" "es_openingToken ?s \<noteq> []"
    using tok0 by (simp_all add: publishStats_def sample_started_def make_stream_def start_ddl_def untouched_def put_group_def Let_def)
  have "es_entries ?s 4 = rt_entries sample_event_token" using sample_started_entries by simp
  then have w: "watermark sample_drained (publishStats sample_drained 2 None ?s) = sample_watermark"
    by (simp add: watermark_def sample_drained_bound)
  obtain tok1 where tok1: "toBSON sample_watermark = Inr tok1" using parse_of_toBSON [OF sample_watermark_ok] by blast
  let ?stage0 = "stage\<lparr>cg_stream := ?s, cg_lastEmitted := tok\<rparr>" and ?s1 = "publishStats sample_drained 2 None ?s"
  have "es_next (sample_env D) sample_drained 2 ?s [] = Inr (None, ?s1, [])"
    using idle(4) es_next_loop_empty [OF idle(1-3)] by (simp add: es_next_def)
  then have "stage_getNext (sample_env D) sample_drained 2 ?stage0 [] = Inr (None, ?stage0\<lparr>cg_stream := ?s1\<rparr>, [])"
    by (simp add: stage_getNext_def)
  moreover have "stage_pulls (sample_env D) [(resume_source, 1)] stage [sample_drop_record 5] = Inr ([Some event], ?stage0, [])"
    using pull id by (simp add: stage_getNext_def)
  moreover have "\<not> es_invalidated (cg_stream (?stage0\<lparr>cg_stream := ?s1\<rparr>))" using idle(1) by simp
  moreover have "getPostBatchResumeToken sample_drained (?stage0\<lparr>cg_stream := ?s1\<rparr>) = Inr tok1"
    using idle(1) w tok1 by (simp add: getPostBatchResumeToken_def sample_drained_bound)
  ultimately show thesis using that tok1 by blast
qed

lemma sample_reopened:
  assumes "toBSON sample_watermark = Inr tok"
  shows "\<exists>stage src reg'. createFromBson sample_spec_parser (sample_stage_env D) sample_ns p reg
    (BObject (serialized_spec (parsed_spec None None (bstr ''default'') True) tok)) = Inr (stage, src, reg')"
proof -
  obtain spec where spec: "sample_spec_parser (serialized_spec (parsed_spec None None (bstr ''default'') True) tok) = Inr spec"
      "stage_token (sample_stage_env D) spec = Inr (Some sample_watermark)"
      "cs_allChangesForCluster spec = True" "cs_fullDocument spec = bstr ''default''"
      "cs_resumeAfterClusterTime spec = None" "cs_startAtOperationTime spec = None" "cs_startAfter spec = None"
    using parsed_serialized [OF sample_spec_parser_ok sample_watermark_ok assms, of "parsed_spec None None (bstr ''default'') True" "sample_stage_env D"]
    by (auto simp: parsed_spec_def makeWatermark_def)
  have "\<exists>s src. open_stream (sample_stage_env D) scope_deployment (Some sample_watermark) [1] = Inr (s, src)"
    using assms by (simp add: open_stream_def openAt_def make_source_def make_stream_def startTimestampForAbsentGroup_def sample_event_token_def mkToken_def
        makeWatermark_def open_group_def entryFor_def startAt_def Let_def)
  then obtain s src where "open_stream (sample_stage_env D) scope_deployment (Some sample_watermark) [1] = Inr (s, src)" by blast
  from sample_spec_created [OF this spec(1,2,4)] spec show ?thesis by blast
qed


end
