(* ===== verification/Spec2Isabelle.thy ===== *)
theory Spec2Isabelle
  imports Scan_Properties Key_Roundtrip Event_Properties Wait_Object Stage_Properties
begin

text \<open>
  A verification library for EloqDoc's change streams and for the formats they are made of. EloqDoc
  is MongoDB with a storage engine of its own, the module \<open>src/src/mongo/db/modules/eloq/src\<close>, which
  keeps collections and indexes in a distributed transaction service and reads changes back from
  that service's redo log. File names without a directory below are relative to the module;
  \<open>mongo/\<close> stands for \<open>src/src/mongo/\<close>.

  \<^bold>\<open>How the parts work together.\<close> A \<open>$changeStream\<close> becomes a pipeline stage that owns an event stream and
  a scan source. The source asks every log group of the log service for pages of records through a
  scan client, buffers them and releases the records of all groups merged by timestamp; it sleeps on
  a wait object until a call completes. The event stream opens the redo blob of each record, decodes
  the documents and keys in it, drops what is out of scope or was already reported, and returns one
  event per pull with a resume token that says how far every group has been read. A client that comes
  back with the token gets a stream that goes on from there.

  \<^bold>\<open>Conventions.\<close> \<open>Eloq_Prelude\<close> has the shared vocabulary. A fallible operation returns
  \<open>error_code + 'a\<close>, with a branch for each exception, failed invariant and early return of the code;
  \<open>rbind\<close> and \<open>rguard\<close> sequence them. Machine integers are words of their width, byte strings lists of
  8-bit words, times integers of milliseconds. Classes are records of their fields and methods
  functions from the old to the new record. A \<open>std::map\<close> is an association list in key order, for which
  the locale \<open>ordered_map\<close> has the laws. The locales \<open>codec\<close>, \<open>counted_codec\<close> and \<open>codec_stream\<close> are the
  contract of a writer and a reader of a wire format; they are interpreted on the integer codecs, on
  the entries of a token and on the sections and entries of a redo blob.

  \<^bold>\<open>Values and keys.\<close>

  \<^item> \<open>Bson_Model\<close>, \<open>Bson_Bytes\<close>, \<open>Bson_Validate\<close>: BSON values, their bytes (\<open>mongo/bson/bsonobjbuilder.h\<close>,
    \<open>bsonelement.cpp\<close>, \<open>bsonobj.h\<close>) and \<open>validateBSON\<close> (\<open>bson_validate.cpp\<close>), a state machine over a stack of
    frames. The validator accepts exactly the bytes of a recursive grammar, and what it accepts can be
    read without leaving the buffer.

  \<^item> \<open>Record_Id\<close>, \<open>Eloq_Key_Record\<close>: \<open>RecordId\<close> with its inline and heap forms (\<open>mongo/db/record_id.h\<close>) as a
    refinement of the value it stands for; the keys and records of the engine (\<open>base/eloq_key.h\<close>,
    \<open>base/eloq_record.h\<close>), their order and their serialized forms.

  \<^item> \<open>Ieee_Double\<close>, \<open>Decimal128_Model\<close>, \<open>Type_Bits\<close>, \<open>Key_String\<close>: the append side of \<open>KeyString\<close>
    (\<open>mongo/db/storage/key_string.cpp\<close>) for both versions and its type bits. Doubles are their 64 bits with
    rounding written out; the decimal arithmetic of Intel's library is the record \<open>decimal_lib\<close>, an
    argument of whatever uses it.

  \<^item> \<open>Key_Decoder\<close>, \<open>Key_Leaves\<close>, \<open>Key_Roundtrip\<close>: \<open>CdcKeyDecoder\<close> (\<open>base/cdc_key_decoder.cpp\<close>), which reads
    a key without type bits. It inverts the append code up to the representation the type bits would
    have told (\<open>canonical\<close>), for nested values, whole keys and the logged form of an \<open>_id\<close>. The round trip
    is for version 1 and for values without decimals (\<open>key_value\<close>).

  \<^bold>\<open>The log.\<close>

  \<^item> \<open>Blob_Decoder\<close>: the walk over a redo blob (\<open>base/cdc_blob_decoder.cpp\<close>). Decoding gives back what was
    written, positions do not depend on the scope and increase.

  \<^item> \<open>Ddl_Decoder\<close>: what a schema operation in the log reports (\<open>cdc/cdc_ddl_decoder.cpp\<close>), and the parts of
    \<open>NamespaceString\<close> it uses.

  \<^item> \<open>Log_Model\<close>: the messages of the log service and the locale \<open>log_service\<close>, the contract a source
    relies on (\<open>docs/cdc-change-stream.md\<close>). The service itself is not part of the repository.

  \<^item> \<open>Fake_Log_Service\<close>, \<open>Fake_Log_Contract\<close>: the in-process service of the tests
    (\<open>cdc/cdc_fake_log_service.cpp\<close>) and that it keeps the contract, which interprets \<open>log_service\<close> on code of
    this repository. The witnesses of the source's properties run against it.

  \<^bold>\<open>Reading the log.\<close>

  \<^item> \<open>Scan_Client\<close>: call slots, completion callbacks and the retry policy (\<open>cdc/cdc_scan_client.cpp\<close>). What
    the client asks of the transport is a list of actions.

  \<^item> \<open>Scan_Source\<close>: the source (\<open>cdc/cdc_scan_source.cpp\<close>). The loops of \<open>next\<close> and \<open>fixStart\<close> wait between
    passes, so a pass is a function (\<open>next_pass\<close>, \<open>fixStart_pass\<close>) and a run any interleaving of the source's
    own operations with callbacks (\<open>source_run\<close>).

  \<^item> \<open>Source_Merge\<close>, \<open>Source_Accounting\<close>, \<open>Scan_Properties\<close>: within every run the source releases each
    group's log in order without loss or repetition and the groups in timestamp order; a drained
    source has released everything up to its bound; its byte budget is exact; a group that holds the
    others back is being waited for.

  \<^item> \<open>Wait_Object\<close>: the mutex-protected meeting point of the coroutine with callbacks and timers
    (\<open>cdc/cdc_wait_object.cpp\<close>), a step relation with every interleaving. No wake-up is lost and a timer's
    argument is released once.

  \<^bold>\<open>Events and tokens.\<close>

  \<^item> \<open>Resume_Token\<close>: the token, its binary form and its reader (\<open>base/cdc_resume_token.cpp\<close>). The reader
    accepts exactly what the writer writes, and what it accepts can be resumed from.

  \<^item> \<open>Event_Stream\<close>: \<open>CdcEventStream\<close> (\<open>cdc/cdc_event_stream.cpp\<close>). A pull is given the records its source
    releases; what it does not use is left for the next.

  \<^item> \<open>Event_Invariant\<close> has the locale of predicates every operation keeps; \<open>Event_Properties\<close> has what holds of
    every stream: scope, invalidation, dedup sets and cluster times.

  \<^item> \<open>Event_Sim\<close>, \<open>Event_History\<close>, \<open>Event_Catchup\<close>, \<open>Event_Resume\<close>, \<open>Event_Watermark\<close>: that resuming loses and
    repeats nothing. A simulation relates two streams with the same changes left; the state of a fresh
    stream is a function of its history; a resumed stream reads records the first one had consumed,
    returns nothing of them and ends related to the first.

  \<^item> \<open>Stream_Registry\<close>: the open streams and their section of \<open>serverStatus\<close>
    (\<open>cdc/cdc_stream_registry.cpp\<close>).

  \<^item> \<open>Change_Stream_Stage\<close>, \<open>Stage_Properties\<close>: the stage (\<open>cdc/document_source_eloq_change_stream.cpp\<close>) with the
    checks before it and the stage that closes the cursor (\<open>mongo/db/pipeline\<close>). A serialized pipeline
    reopens where it was, and the token of a batch continues the stream.

  \<^bold>\<open>Termination and bounds.\<close> There is no fuel: the loops over blobs, keys, BSON bytes and records are
  functions with a termination proof by the bytes or records left, so a result that is not an error is
  a result the code returns. The depth limit of \<open>validateBSON\<close> is the server's parameter, an argument. The
  two loops of the source that may wait for ever are sequences of passes. Where the code's integers can
  wrap they are words; byte counts the code bounds by configuration are integers.

  \<^bold>\<open>Assumptions.\<close> Statements about resuming take the records in the order the source guarantees; those about
  the source take answers the log service's contract allows; those about the stage take the parser
  generated from \<open>document_sources.idl\<close> as a parameter that reads the fields the stage writes
  (\<open>idl_parser\<close>), and a start as the outcome of passes of \<open>fixStart\<close> (\<open>runs_fixStart\<close>). Each property with a
  hypothesis is followed by an instance of it on concrete data.

  \<^bold>\<open>Not modelled.\<close> The recovery unit, cursors, record store, indexes and the engine itself are calls into the
  transaction service, a submodule whose code is not in the repository, as are the log agent, the scan
  transport, the table schemas and the catalog factory. Options, registration and test commands are
  input and output. Of \<open>key_string.cpp\<close> the decoding with type bits is left out; of \<open>decimal128.cpp\<close>
  arithmetic and strings; of the server everything around the change stream stage. Error texts, logging
  and memory accounting have no counterpart.
\<close>

end
